(* ===== verification/Prelude.thy ===== *)
theory Prelude
  imports Main "HOL-Library.Word" "HOL-Library.Monad_Syntax" "HOL-Library.Char_ord"
begin

text \<open>
  Shared vocabulary of the development: the C integer types as machine words, the macros of
  include/kernel.h, the result type of code that may stop in panic(), and the generic lemmas on
  words, options and lists that the components use.
\<close>

unbundle bit_operations_syntax

section \<open>C integer types\<close>

abbreviation NUL :: char where "NUL \<equiv> CHR 0x00"

type_synonym u8 = "8 word"
type_synonym u16 = "16 word"
type_synonym u32 = "32 word"
type_synonym u64 = "64 word"

section \<open>include/kernel.h\<close>

text \<open>The two alignment macros, at the width of their argument.\<close>

definition ALIGN_UP :: "'a::len word \<Rightarrow> 'a word \<Rightarrow> 'a word" where
  "ALIGN_UP v a = (v + a - 1) AND NOT (a - 1)"

definition ALIGN_DOWN :: "'a::len word \<Rightarrow> 'a word \<Rightarrow> 'a word" where
  "ALIGN_DOWN v a = v AND NOT (a - 1)"

text \<open>
  A computation that may reach panic() has an option type: \<open>None\<close> is the halted kernel.
  KASSERT stops there when its condition is false.
\<close>

definition kassert :: "bool \<Rightarrow> unit option" where
  "kassert c = (if c then Some () else None)"

section \<open>Little-endian reads of byte memory\<close>

text \<open>Structures that firmware or the boot loader left in memory are read through these.\<close>

definition read_u16 :: "(u64 \<Rightarrow> u8) \<Rightarrow> u64 \<Rightarrow> u16" where
  "read_u16 m a = (ucast (m a) :: u16) OR push_bit 8 (ucast (m (a + 1)))"

definition read_u32 :: "(u64 \<Rightarrow> u8) \<Rightarrow> u64 \<Rightarrow> u32" where
  "read_u32 m a = (ucast (read_u16 m a) :: u32) OR push_bit 16 (ucast (read_u16 m (a + 2)))"

definition read_u64 :: "(u64 \<Rightarrow> u8) \<Rightarrow> u64 \<Rightarrow> u64" where
  "read_u64 m a = (ucast (read_u32 m a) :: u64) OR push_bit 32 (ucast (read_u32 m (a + 4)))"

section \<open>Collections\<close>

named_theorems flag_defs \<open>the flag and mask constants, for evaluation\<close>
named_theorems frame_simps \<open>which fields an operation leaves alone\<close>

section \<open>Options\<close>

lemma kassert_bind [simp]: "(kassert c \<bind> f) = (if c then f () else None)"
  by (simp add: kassert_def)

lemma kassert_eq_Some [simp]: "kassert c = Some u \<longleftrightarrow> c"
  by (simp add: kassert_def)

section \<open>Words\<close>

lemma unat_plus1_less:
  fixes f l :: "'a::len word"
  assumes "f < l"
  shows "unat (f + 1) = Suc (unat f)"
proof -
  have "f \<noteq> - 1" using assms by auto
  then show ?thesis
    by (metis add.commute unatSuc add_eq_0_iff2)
qed

lemma word_loop_decreases:
  fixes f l :: "'a::len word"
  shows "f < l \<Longrightarrow> unat l - unat (f + 1) < unat l - unat f"
  by (simp add: unat_plus1_less word_less_nat_alt)

lemma plus1_le_iff_less:
  fixes f g l :: "'a::len word"
  assumes "f < l"
  shows "f + 1 \<le> g \<longleftrightarrow> f < g"
  using assms by (simp add: word_le_nat_alt word_less_nat_alt unat_plus1_less Suc_le_eq)

lemma less_plus1_iff_le:
  fixes f g l :: "'a::len word"
  assumes "f < l"
  shows "g < f + 1 \<longleftrightarrow> g \<le> f"
  using plus1_le_iff_less [OF assms, of g] by (auto simp: not_less)

lemma low3_bound: "unat ((f::u64) AND 7) < 8"
proof -
  have "f AND 7 \<le> 7" by (rule word_and_le1)
  then show ?thesis by (simp add: word_le_nat_alt)
qed

lemma split3_eq:
  assumes "drop_bit 3 f = drop_bit 3 (g::u64)" and "unat (f AND 7) = unat (g AND 7)"
  shows "f = g"
proof (rule bit_word_eqI)
  fix n assume n: "n < LENGTH(64)"
  have m: "f AND mask 3 = g AND mask 3" using word_unat_eq_iff assms(2) by (simp add: mask_eq_exp_minus_1 word_unat_eq_iff)
  show "bit f n = bit g n"
  proof (cases "n < 3")
    case True
    have "bit (f AND mask 3) n = bit (g AND mask 3) n" using m by simp
    with True show ?thesis by (simp add: bit_and_iff bit_mask_iff)
  next
    case False
    have "bit (drop_bit 3 f) (n - 3) = bit (drop_bit 3 g) (n - 3)" using assms(1) by simp
    with False show ?thesis by (simp add: bit_drop_bit_eq)
  qed
qed

lemma and_exp_eq_0:
  fixes w :: "'a::len word"
  assumes "n < LENGTH('a)"
  shows "w AND 2 ^ n = 0 \<longleftrightarrow> \<not> bit w n"
proof -
  have "w AND 2 ^ n = 0 \<longleftrightarrow> (\<forall>k < LENGTH('a). \<not> bit (w AND 2 ^ n) k)"
    by (metis bit_0_eq bot_apply bot_bool_def bit_word_eqI)
  also have "\<dots> \<longleftrightarrow> \<not> bit w n"
    using assms by (auto simp: bit_and_iff bit_exp_iff)
  finally show ?thesis .
qed

lemma unat_of_nat_below:
  fixes t :: "'a::len word"
  shows "n < unat t \<Longrightarrow> unat (of_nat n :: 'a word) = n"
  by (metis mod_less order_less_trans unat_of_nat unsigned_less)

lemma card_words_below: "card {f::'a::len word. f < t} = unat t"
proof -
  have "unat ` {f::'a word. f < t} = {..<unat t}"
  proof (intro equalityI subsetI)
    fix n assume "n \<in> {..<unat t}"
    then have "n < unat t" by simp
    then have "unat (of_nat n :: 'a word) = n"
      by (rule unat_of_nat_below)
    then show "n \<in> unat ` {f::'a word. f < t}"
      using \<open>n < unat t\<close> by (intro image_eqI [where x = "of_nat n"]) (auto simp: word_less_nat_alt)
  qed (auto simp: word_less_nat_alt)
  moreover have "inj_on unat {f::'a word. f < t}"
    by (auto simp: inj_on_def word_unat_eq_iff)
  ultimately show ?thesis
    by (metis card_image card_lessThan)
qed

lemma range_step:
  fixes f g l :: "'a::len word"
  assumes "f < l"
  shows "f \<le> g \<longleftrightarrow> g = f \<or> f + 1 \<le> g"
  using plus1_le_iff_less [OF assms, of g] by auto

lemma unat_ucast_up:
  fixes w :: "'a::len word"
  assumes "LENGTH('a) \<le> LENGTH('b::len)"
  shows "unat (ucast w :: 'b word) = unat w"
proof -
  have "unat w < 2 ^ LENGTH('b)"
    using assms by (meson less_le_trans one_le_numeral power_increasing unsigned_less)
  then show ?thesis by (simp add: unsigned_ucast_eq take_bit_nat_eq_self)
qed

lemma unat_ucast_u32 [simp]: "unat (ucast (c::u32) :: u64) = unat c"
  by (simp add: unat_ucast_up)

lemma unat_add_below:
  fixes a b c :: "'a::len word"
  shows "unat a + unat b \<le> unat c \<Longrightarrow> unat (a + b) = unat a + unat b"
  by (metis le_less_trans mod_less unat_word_ariths(1) unsigned_less)

lemma card_word_range:
  fixes r e :: "'a::len word"
  assumes "r \<le> e"
  shows "card {g. r \<le> g \<and> g < e} = unat e - unat r"
proof -
  have "{g. r \<le> g \<and> g < e} = {g. g < e} - {g. g < r}" by auto
  moreover have "{g. g < r} \<subseteq> {g. g < e}" using assms by auto
  ultimately show ?thesis by (simp add: card_Diff_subset card_words_below)
qed

lemma bit_full_byte: "n < 8 \<Longrightarrow> bit (0xFF :: u8) n"
proof -
  have "(0xFF :: u8) = mask 8" by (simp add: mask_eq_exp_minus_1)
  then show "n < 8 \<Longrightarrow> bit (0xFF :: u8) n" by (simp only: bit_mask_iff) simp
qed

end
