(* ===== verification/Frame_Alloc.thy ===== *)
theory Frame_Alloc
  imports Prelude
begin

text \<open>
  The contract of a physical frame allocator, as the virtual memory manager, the heap and the ELF
  loader use it: frames that can be handed out (\<open>avail\<close>), and a reference count per frame that is
  in use (\<open>refs\<close>). The client loops \<open>alloc_list\<close> and \<open>free_list\<close> are proved against the contract.
\<close>

fun alloc_list :: "('s \<Rightarrow> u64 \<times> 's) \<Rightarrow> nat \<Rightarrow> 's \<Rightarrow> u64 list \<times> 's" where
  "alloc_list alloc 0 s = ([], s)"
| "alloc_list alloc (Suc n) s =
     (let (a, s) = alloc s; (as, s) = alloc_list alloc n s in (a # as, s))"

fun free_list :: "(u64 \<Rightarrow> 's \<Rightarrow> 's option) \<Rightarrow> u64 list \<Rightarrow> 's \<Rightarrow> 's option" where
  "free_list free [] s = Some s"
| "free_list free (a # as) s = do { s \<leftarrow> free a s; free_list free as s }"

text \<open>The counts after the frames of a set have been handed out once each.\<close>

definition owned_once :: "u64 set \<Rightarrow> (u64 \<Rightarrow> nat) \<Rightarrow> u64 \<Rightarrow> nat" where
  "owned_once A r = (\<lambda>a. if a \<in> A then 1 else r a)"

locale frame_allocator =
  fixes alloc :: "'s \<Rightarrow> u64 \<times> 's"
    and free :: "u64 \<Rightarrow> 's \<Rightarrow> 's option"
    and ref :: "u64 \<Rightarrow> 's \<Rightarrow> 's option"
    and avail :: "'s \<Rightarrow> u64 set"
    and refs :: "'s \<Rightarrow> u64 \<Rightarrow> nat"
    and invar :: "'s \<Rightarrow> bool"
    and failed :: u64
    and max_refs :: nat
  assumes finite_avail: "finite (avail s)"
    and failed_not_avail: "invar s \<Longrightarrow> failed \<notin> avail s"
    and avail_unowned: "invar s \<Longrightarrow> a \<in> avail s \<Longrightarrow> refs s a = 0"
    and alloc_empty: "invar s \<Longrightarrow> avail s = {} \<Longrightarrow> alloc s = (failed, s)"
    and alloc_frame: "invar s \<Longrightarrow> avail s \<noteq> {} \<Longrightarrow>
      \<exists>a s'. alloc s = (a, s') \<and> a \<in> avail s \<and> invar s' \<and>
        avail s' = avail s - {a} \<and> refs s' = (refs s)(a := 1)"
    and free_unowned: "invar s \<Longrightarrow> refs s a = 0 \<Longrightarrow> free a s = None"
    and free_owned: "invar s \<Longrightarrow> 0 < refs s a \<Longrightarrow>
      \<exists>s'. free a s = Some s' \<and> invar s' \<and> refs s' = (refs s)(a := refs s a - 1) \<and>
        avail s' = (if refs s a = 1 then insert a (avail s) else avail s)"
    and ref_owned: "invar s \<Longrightarrow> 0 < refs s a \<Longrightarrow> refs s a < max_refs \<Longrightarrow>
      \<exists>s'. ref a s = Some s' \<and> invar s' \<and> refs s' = (refs s)(a := refs s a + 1) \<and>
        avail s' = avail s"
    and ref_refused: "invar s \<Longrightarrow> refs s a = 0 \<or> max_refs \<le> refs s a \<Longrightarrow> ref a s = None"
begin

lemma alloc_failed_iff:
  assumes "invar s"
  shows "fst (alloc s) = failed \<longleftrightarrow> avail s = {}"
  using alloc_empty [OF assms] alloc_frame [OF assms] failed_not_avail [OF assms]
  by fastforce

lemma alloc_ok:
  assumes "invar s" and "alloc s = (a, s')" and "a \<noteq> failed"
  shows "a \<in> avail s" and "invar s'" and "avail s' = avail s - {a}" and "refs s' = (refs s)(a := 1)"
proof -
  have "avail s \<noteq> {}" using assms alloc_failed_iff by fastforce
  from alloc_frame [OF assms(1) this] assms(2)
  show "a \<in> avail s" "invar s'" "avail s' = avail s - {a}" "refs s' = (refs s)(a := 1)" by auto
qed

lemma alloc_keeps_invar: "invar s \<Longrightarrow> alloc s = (a, s') \<Longrightarrow> invar s'"
  using alloc_empty alloc_ok(2) alloc_failed_iff by (metis fst_conv snd_conv)

lemma alloc_then_free:
  assumes "invar s" and "alloc s = (a, s')" and "a \<noteq> failed"
  shows "\<exists>s''. free a s' = Some s'' \<and> invar s'' \<and> avail s'' = avail s \<and> refs s'' = refs s"
proof -
  note ok = alloc_ok [OF assms]
  have "refs s' a = 1" by (simp add: ok(4))
  with free_owned [OF ok(2), of a] obtain s'' where s'': "free a s' = Some s''" "invar s''"
      "refs s'' = (refs s')(a := 0)" "avail s'' = insert a (avail s')" by auto
  have "refs s'' = refs s" using s''(3) ok(4) avail_unowned [OF assms(1) ok(1)] by auto
  moreover have "avail s'' = avail s" using s''(4) ok(1,3) by auto
  ultimately show ?thesis using s'' by blast
qed

lemma double_free_refused:
  assumes "invar s" and "refs s a = 1" and "free a s = Some s'"
  shows "free a s' = None"
  using free_owned [OF assms(1), of a] assms free_unowned [of s' a] by auto

lemma alloc_list_ok:
  assumes "invar s" and "n \<le> card (avail s)" and "alloc_list alloc n s = (as, s')"
  shows "length as = n \<and> distinct as \<and> set as \<subseteq> avail s \<and> invar s' \<and>
         avail s' = avail s - set as \<and> refs s' = owned_once (set as) (refs s)"
  using assms
proof (induction n arbitrary: s as)
  case 0
  then show ?case by (simp add: owned_once_def)
next
  case (Suc n)
  then have "avail s \<noteq> {}" by auto
  from alloc_frame [OF Suc.prems(1) this] obtain a t where
    a: "alloc s = (a, t)" "a \<in> avail s" "invar t" "avail t = avail s - {a}" "refs t = (refs s)(a := 1)"
    by blast
  obtain bs where bs: "alloc_list alloc n t = (bs, s')" "as = a # bs"
    using Suc.prems(3) a(1) by (auto split: prod.splits)
  have "n \<le> card (avail t)" using Suc.prems(2) a(2,4) finite_avail [of s] by simp
  from Suc.IH [OF a(3) this bs(1)] show ?case
    using a bs(2) by (auto simp: owned_once_def)
qed

lemma free_list_ok:
  assumes "invar s" and "distinct as" and "\<forall>a \<in> set as. refs s a = 1"
  shows "\<exists>s'. free_list free as s = Some s' \<and> invar s' \<and> avail s' = avail s \<union> set as \<and>
         refs s' = (\<lambda>a. if a \<in> set as then 0 else refs s a)"
  using assms
proof (induction as arbitrary: s)
  case Nil
  then show ?case by simp
next
  case (Cons a as)
  then have "0 < refs s a" by simp
  from free_owned [OF Cons.prems(1) this] Cons.prems(3) obtain t where
    t: "free a s = Some t" "invar t" "refs t = (refs s)(a := 0)" "avail t = insert a (avail s)" by auto
  have "distinct as" "\<forall>b \<in> set as. refs t b = 1" using Cons.prems(2,3) t(3) by auto
  from Cons.IH [OF t(2) this] obtain s' where
    "free_list free as t = Some s'" "invar s'" "avail s' = avail t \<union> set as"
    "refs s' = (\<lambda>b. if b \<in> set as then 0 else refs t b)" by blast
  then show ?case using t by auto
qed

lemma alloc_free_list:
  assumes "invar s" and "n \<le> card (avail s)" and "alloc_list alloc n s = (as, s')"
  shows "\<exists>s''. free_list free as s' = Some s'' \<and> invar s'' \<and> avail s'' = avail s \<and> refs s'' = refs s"
proof -
  note ok = alloc_list_ok [OF assms]
  then have "\<forall>a \<in> set as. refs s' a = 1" by (simp add: owned_once_def)
  with ok free_list_ok [of s' as] obtain s'' where
    s'': "free_list free as s' = Some s''" "invar s''" "avail s'' = avail s' \<union> set as"
      "refs s'' = (\<lambda>a. if a \<in> set as then 0 else refs s' a)" by blast
  have "refs s'' = refs s"
    using s''(4) ok avail_unowned [OF assms(1)] by (auto simp: owned_once_def fun_eq_iff)
  moreover have "avail s'' = avail s" using s''(3) ok by auto
  ultimately show ?thesis using s'' by blast
qed

lemma free_keeps_invar:
  assumes "invar s" and "free a s = Some s'"
  shows "invar s'"
  using free_owned [OF assms(1), of a] free_unowned [OF assms(1), of a] assms(2)
  by (cases "refs s a = 0") auto

lemma ref_keeps_invar:
  assumes "invar s" and "ref a s = Some s'"
  shows "invar s'"
  using ref_owned [OF assms(1), of a] ref_refused [OF assms(1), of a] assms(2)
  by (cases "refs s a = 0 \<or> max_refs \<le> refs s a") auto

text \<open>A frame that is neither available nor referenced stays out of the allocator's hands.\<close>

lemma alloc_unmanaged:
  assumes "invar s" and "a \<notin> avail s" and "refs s a = 0" and "alloc s = (b, s')"
  shows "a \<notin> avail s' \<and> refs s' a = 0"
proof (cases "avail s = {}")
  case True
  then show ?thesis using alloc_empty [OF assms(1)] assms by simp
next
  case False
  from alloc_frame [OF assms(1) this] assms show ?thesis by auto
qed

lemma free_unmanaged:
  assumes "invar s" and "a \<notin> avail s" and "refs s a = 0" and "free b s = Some s'"
  shows "a \<notin> avail s' \<and> refs s' a = 0"
  using free_owned [OF assms(1), of b] free_unowned [OF assms(1), of b] assms
  by (cases "refs s b = 0") (auto split: if_splits)

lemma ref_unmanaged:
  assumes "invar s" and "a \<notin> avail s" and "refs s a = 0" and "ref b s = Some s'"
  shows "a \<notin> avail s' \<and> refs s' a = 0"
  using ref_owned [OF assms(1), of b] ref_refused [OF assms(1), of b] assms
  by (cases "refs s b = 0 \<or> max_refs \<le> refs s b") auto

end

end
