(* ===== verification/Pmm.thy ===== *)
theory Pmm
  imports Frame_Alloc
begin

text \<open>
  kernel/mm/pmm.c: the bitmap allocator of 4 KiB physical frames with reference counts. The static
  variables of the file are the fields of \<open>pmm_state\<close>; the two arrays are functions of the index.
  The memory that holds the boot loader's structures is an argument \<open>m\<close> (a byte per address), and
  the linker symbol \<open>_kernel_end\<close> an argument \<open>kend\<close>. \<open>None\<close> stands for a kernel that has stopped in
  panic() or never leaves a loop. Console output is left out.
\<close>

section \<open>State (pmm.h, pmm.c)\<close>

definition PMM_FRAME_SIZE :: u64 where "PMM_FRAME_SIZE = 4096"
definition PMM_MAX_PHYS :: u64 where "PMM_MAX_PHYS = 4 * 1024 * 1024 * 1024"
definition PMM_MAX_FRAMES :: u64 where "PMM_MAX_FRAMES = PMM_MAX_PHYS div PMM_FRAME_SIZE"
definition PMM_BITMAP_BYTES :: u64 where "PMM_BITMAP_BYTES = PMM_MAX_FRAMES div 8"
definition PMM_ALLOC_FAILED :: u64 where "PMM_ALLOC_FAILED = NOT 0"

record pmm_state =
  pmm_bitmap :: "u64 \<Rightarrow> u8"
  pmm_refcount :: "u64 \<Rightarrow> u16"
  pmm_total_frames :: u64
  pmm_free_frames :: u64
  pmm_next_hint :: u64

section \<open>Bit-level helpers\<close>

definition frame_mask :: "u64 \<Rightarrow> u8" where
  "frame_mask f = push_bit (unat (f AND 7)) 1"

definition frame_set_used :: "u64 \<Rightarrow> pmm_state \<Rightarrow> pmm_state" where
  "frame_set_used f s =
     s\<lparr>pmm_bitmap := (pmm_bitmap s)(drop_bit 3 f := pmm_bitmap s (drop_bit 3 f) OR frame_mask f)\<rparr>"

definition frame_set_free :: "u64 \<Rightarrow> pmm_state \<Rightarrow> pmm_state" where
  "frame_set_free f s =
     s\<lparr>pmm_bitmap := (pmm_bitmap s)(drop_bit 3 f := pmm_bitmap s (drop_bit 3 f) AND NOT (frame_mask f))\<rparr>"

definition frame_is_free :: "pmm_state \<Rightarrow> u64 \<Rightarrow> bool" where
  "frame_is_free s f \<longleftrightarrow> pmm_bitmap s (drop_bit 3 f) AND frame_mask f = 0"

section \<open>Region helpers\<close>

function region_mark_free_loop :: "u64 \<Rightarrow> u64 \<Rightarrow> pmm_state \<Rightarrow> pmm_state" where
  "region_mark_free_loop f lim s =
     (if f < lim \<and> f < pmm_total_frames s then
        region_mark_free_loop (f + 1) lim
          (if \<not> frame_is_free s f then
             (let s = frame_set_free f s in
              s\<lparr>pmm_refcount := (pmm_refcount s)(f := 0), pmm_free_frames := pmm_free_frames s + 1\<rparr>)
           else s)
      else s)"
  by pat_completeness auto
termination
  by (relation "measure (\<lambda>(f, lim, s). unat lim - unat f)") (auto simp: word_loop_decreases)

definition region_mark_free :: "u64 \<Rightarrow> u64 \<Rightarrow> pmm_state \<Rightarrow> pmm_state" where
  "region_mark_free base len s =
     (let first = base div PMM_FRAME_SIZE;
          lim = (base + len) div PMM_FRAME_SIZE
      in region_mark_free_loop first lim s)"

function region_mark_used_loop :: "u64 \<Rightarrow> u64 \<Rightarrow> pmm_state \<Rightarrow> pmm_state" where
  "region_mark_used_loop f lim s =
     (if f < lim \<and> f < pmm_total_frames s then
        region_mark_used_loop (f + 1) lim
          (if frame_is_free s f then
             (let s = frame_set_used f s in
              s\<lparr>pmm_refcount := (pmm_refcount s)(f := 1), pmm_free_frames := pmm_free_frames s - 1\<rparr>)
           else s)
      else s)"
  by pat_completeness auto
termination
  by (relation "measure (\<lambda>(f, lim, s). unat lim - unat f)") (auto simp: word_loop_decreases)

definition region_mark_used :: "u64 \<Rightarrow> u64 \<Rightarrow> pmm_state \<Rightarrow> pmm_state" where
  "region_mark_used base len s =
     (let first = base div PMM_FRAME_SIZE;
          lim = ALIGN_UP (base + len) PMM_FRAME_SIZE div PMM_FRAME_SIZE
      in region_mark_used_loop first lim s)"

declare region_mark_free_loop.simps [simp del] region_mark_used_loop.simps [simp del]

section \<open>Memory-map parsers\<close>

text \<open>One entry of either memory map: PVH (pvh.h) and Multiboot2 lay the same three fields out
  at the same offsets of a packed 24-byte structure.\<close>

record mmap_entry =
  base_addr :: u64
  length_of :: u64
  mmap_type :: u32

definition mmap_entry_at :: "(u64 \<Rightarrow> u8) \<Rightarrow> u64 \<Rightarrow> mmap_entry" where
  "mmap_entry_at m p =
     \<lparr>base_addr = read_u64 m p, length_of = read_u64 m (p + 8), mmap_type = read_u32 m (p + 16)\<rparr>"

definition HVM_START_MAGIC :: u32 where "HVM_START_MAGIC = 0x336ec578"
definition HVM_MMAP_RAM :: u32 where "HVM_MMAP_RAM = 1"
definition MB2_BOOTLOADER_MAGIC :: u32 where "MB2_BOOTLOADER_MAGIC = 0x36D76289"
definition MB2_MMAP_AVAILABLE :: u32 where "MB2_MMAP_AVAILABLE = 1"
definition MB2_TAG_END :: u32 where "MB2_TAG_END = 0"
definition MB2_TAG_MMAP :: u32 where "MB2_TAG_MMAP = 6"

definition top_step :: "u32 \<Rightarrow> mmap_entry \<Rightarrow> u64 \<Rightarrow> u64" where
  "top_step ram e t =
     (if mmap_type e \<noteq> ram then t
      else (let eend = base_addr e + length_of e in if eend > t then eend else t))"

definition total_frames_of :: "u64 \<Rightarrow> u64" where
  "total_frames_of t = (if t > PMM_MAX_PHYS then PMM_MAX_PHYS else t) div PMM_FRAME_SIZE"

definition mark_step :: "u32 \<Rightarrow> mmap_entry \<Rightarrow> pmm_state \<Rightarrow> pmm_state" where
  "mark_step ram e s =
     (if mmap_type e = ram then region_mark_free (base_addr e) (length_of e) s else s)"

text \<open>The two memsets before the entries are marked: every frame used, every count 0.\<close>

definition pmm_reset :: "pmm_state \<Rightarrow> pmm_state" where
  "pmm_reset s = s\<lparr>pmm_bitmap := (\<lambda>_. 0xFF), pmm_refcount := (\<lambda>_. 0), pmm_free_frames := 0\<rparr>"

definition hvm_entries :: "(u64 \<Rightarrow> u8) \<Rightarrow> u64 \<Rightarrow> u32 \<Rightarrow> mmap_entry list" where
  "hvm_entries m p count = map (\<lambda>i. mmap_entry_at m (p + 24 * of_nat i)) [0..<unat count]"

definition pmm_calc_total_frames_pvh :: "(u64 \<Rightarrow> u8) \<Rightarrow> u64 \<Rightarrow> u32 \<Rightarrow> pmm_state \<Rightarrow> pmm_state" where
  "pmm_calc_total_frames_pvh m mmap count s =
     s\<lparr>pmm_total_frames := total_frames_of (fold (top_step HVM_MMAP_RAM) (hvm_entries m mmap count) 0)\<rparr>"

definition pmm_parse_pvh :: "(u64 \<Rightarrow> u8) \<Rightarrow> u32 \<Rightarrow> pmm_state \<Rightarrow> pmm_state option" where
  "pmm_parse_pvh m info_phys s =
     (let si = (ucast info_phys :: u64) in
      if read_u32 m si \<noteq> HVM_START_MAGIC then None
      else
        (let count = read_u32 m (si + 48);
             mmap = read_u64 m (si + 40);
             s = pmm_calc_total_frames_pvh m mmap count s;
             s = pmm_reset s
         in Some (fold (mark_step HVM_MMAP_RAM) (hvm_entries m mmap count) s)))"

text \<open>
  The entry loop of the Multiboot2 tag, \<open>while (p + entry_size <= end)\<close>, with its body as a
  parameter: pmm_calc_total_frames_mb2 and pmm_parse_mb2 both run it.
\<close>

partial_function (option) mb2_foreach ::
    "(u64 \<Rightarrow> u8) \<Rightarrow> u64 \<Rightarrow> u64 \<Rightarrow> (mmap_entry \<Rightarrow> 's \<Rightarrow> 's) \<Rightarrow> u64 \<Rightarrow> 's \<Rightarrow> 's option" where
  "mb2_foreach m esz lim body p s =
     (if p + esz \<le> lim then mb2_foreach m esz lim body (p + esz) (body (mmap_entry_at m p) s)
      else Some s)"

definition pmm_calc_total_frames_mb2 :: "(u64 \<Rightarrow> u8) \<Rightarrow> u64 \<Rightarrow> pmm_state \<Rightarrow> pmm_state option" where
  "pmm_calc_total_frames_mb2 m tag s = do {
     t \<leftarrow> mb2_foreach m (ucast (read_u32 m (tag + 8))) (tag + ucast (read_u32 m (tag + 4)))
              (top_step MB2_MMAP_AVAILABLE) (tag + 16) 0;
     Some (s\<lparr>pmm_total_frames := total_frames_of t\<rparr>)
   }"

text \<open>The tag walk \<open>while (p < end)\<close>; \<open>Some None\<close> is a walk that finds no memory map.\<close>

partial_function (option) mb2_find_tag ::
    "(u64 \<Rightarrow> u8) \<Rightarrow> (u32 \<Rightarrow> bool) \<Rightarrow> u64 \<Rightarrow> u64 \<Rightarrow> u64 option option" where
  "mb2_find_tag m wanted lim p =
     (if p < lim then
        if read_u32 m p = MB2_TAG_END then Some None
        else if wanted (read_u32 m p) then Some (Some p)
        else mb2_find_tag m wanted lim (p + ucast (ALIGN_UP (read_u32 m (p + 4)) 8))
      else Some None)"

definition pmm_parse_mb2 :: "(u64 \<Rightarrow> u8) \<Rightarrow> u32 \<Rightarrow> pmm_state \<Rightarrow> pmm_state option" where
  "pmm_parse_mb2 m info_phys s = do {
     let info = (ucast info_phys :: u64);
     found \<leftarrow> mb2_find_tag m (\<lambda>t. t = MB2_TAG_MMAP) (info + ucast (read_u32 m info)) (info + 8);
     tag \<leftarrow> found;
     s \<leftarrow> pmm_calc_total_frames_mb2 m tag s;
     mb2_foreach m (ucast (read_u32 m (tag + 8))) (tag + ucast (read_u32 m (tag + 4)))
       (mark_step MB2_MMAP_AVAILABLE) (tag + 16) (pmm_reset s)
   }"

section \<open>Public API\<close>

definition pmm_init :: "(u64 \<Rightarrow> u8) \<Rightarrow> u64 \<Rightarrow> u32 \<Rightarrow> u32 \<Rightarrow> pmm_state \<Rightarrow> pmm_state option" where
  "pmm_init m kend boot_magic boot_info_phys s = do {
     s \<leftarrow> (if boot_magic = MB2_BOOTLOADER_MAGIC then pmm_parse_mb2 m boot_info_phys s
          else if boot_info_phys \<noteq> 0 \<and> read_u32 m (ucast boot_info_phys) = HVM_START_MAGIC
          then pmm_parse_pvh m boot_info_phys s
          else None);
     kassert (pmm_total_frames s > 0);
     let s = s\<lparr>pmm_next_hint := 0\<rparr>;
     let s = region_mark_used 0 0x100000 s;
     Some (region_mark_used 0x100000 (kend - 0x100000) s)
   }"

text \<open>The bit loop of pmm_alloc_frame: the first free frame of one bitmap byte.\<close>

function pmm_scan_bits :: "pmm_state \<Rightarrow> u64 \<Rightarrow> nat \<Rightarrow> u64 option" where
  "pmm_scan_bits s byte b =
     (if b < 8 then
        (let f = byte * 8 + of_nat b in
         if f \<ge> pmm_total_frames s then None
         else if pmm_bitmap s byte AND push_bit b 1 = 0 then Some f
         else pmm_scan_bits s byte (Suc b))
      else None)"
  by pat_completeness auto
termination
  by (relation "measure (\<lambda>(s, byte, b). 8 - b)") auto

text \<open>The byte loop of one pass, which skips a byte of eight used frames.\<close>

function pmm_scan_bytes :: "pmm_state \<Rightarrow> u64 \<Rightarrow> u64 \<Rightarrow> u64 option" where
  "pmm_scan_bytes s byte byte_end =
     (if byte < byte_end then
        if pmm_bitmap s byte = 0xFF then pmm_scan_bytes s (byte + 1) byte_end
        else (case pmm_scan_bits s byte 0 of
                Some f \<Rightarrow> Some f
              | None \<Rightarrow> pmm_scan_bytes s (byte + 1) byte_end)
      else None)"
  by pat_completeness auto
termination
  by (relation "measure (\<lambda>(s, byte, byte_end). unat byte_end - unat byte)")
    (auto simp: word_loop_decreases)

declare pmm_scan_bits.simps [simp del] pmm_scan_bytes.simps [simp del]

definition pmm_find_frame :: "pmm_state \<Rightarrow> u64 option" where
  "pmm_find_frame s =
     (let n_bytes = (pmm_total_frames s + 7) div 8;
          start_byte = drop_bit 3 (pmm_next_hint s)
      in case pmm_scan_bytes s start_byte n_bytes of
           Some f \<Rightarrow> Some f
         | None \<Rightarrow> pmm_scan_bytes s 0 start_byte)"

definition pmm_alloc_frame :: "pmm_state \<Rightarrow> u64 \<times> pmm_state" where
  "pmm_alloc_frame s =
     (if pmm_free_frames s = 0 then (PMM_ALLOC_FAILED, s)
      else case pmm_find_frame s of
        None \<Rightarrow> (PMM_ALLOC_FAILED, s)
      | Some f \<Rightarrow>
          (let s = frame_set_used f s in
           (f * PMM_FRAME_SIZE,
            s\<lparr>pmm_refcount := (pmm_refcount s)(f := 1),
              pmm_free_frames := pmm_free_frames s - 1,
              pmm_next_hint := f + 1\<rparr>)))"

definition pmm_free_frame :: "u64 \<Rightarrow> pmm_state \<Rightarrow> pmm_state option" where
  "pmm_free_frame phys_addr s = do {
     kassert (phys_addr AND (PMM_FRAME_SIZE - 1) = 0);
     let f = phys_addr div PMM_FRAME_SIZE;
     kassert (f < pmm_total_frames s);
     kassert (\<not> frame_is_free s f);
     kassert (pmm_refcount s f > 0);
     let s = s\<lparr>pmm_refcount := (pmm_refcount s)(f := pmm_refcount s f - 1)\<rparr>;
     if pmm_refcount s f > 0 then Some s
     else do {
       let s = frame_set_free f s;
       let s = (if f < pmm_next_hint s then s\<lparr>pmm_next_hint := f\<rparr> else s);
       Some (s\<lparr>pmm_free_frames := pmm_free_frames s + 1\<rparr>)
     }
   }"

definition pmm_ref_frame :: "u64 \<Rightarrow> pmm_state \<Rightarrow> pmm_state option" where
  "pmm_ref_frame phys_addr s = do {
     kassert (phys_addr AND (PMM_FRAME_SIZE - 1) = 0);
     let f = phys_addr div PMM_FRAME_SIZE;
     kassert (f < pmm_total_frames s);
     kassert (\<not> frame_is_free s f);
     kassert (pmm_refcount s f > 0);
     kassert (pmm_refcount s f < 0xFFFF);
     Some (s\<lparr>pmm_refcount := (pmm_refcount s)(f := pmm_refcount s f + 1)\<rparr>)
   }"

definition pmm_frame_refcount :: "u64 \<Rightarrow> pmm_state \<Rightarrow> u32 option" where
  "pmm_frame_refcount phys_addr s = do {
     kassert (phys_addr AND (PMM_FRAME_SIZE - 1) = 0);
     let f = phys_addr div PMM_FRAME_SIZE;
     kassert (f < pmm_total_frames s);
     Some (ucast (pmm_refcount s f))
   }"

text \<open>The run search of pmm_alloc_contiguous: \<open>run_len\<close> is the 32-bit counter of the source.\<close>

function pmm_find_run :: "pmm_state \<Rightarrow> u32 \<Rightarrow> u64 \<Rightarrow> u64 \<Rightarrow> u32 \<Rightarrow> u64 option" where
  "pmm_find_run s count f run_start run_len =
     (if f < pmm_total_frames s then
        if frame_is_free s f then
          (let run_start = (if run_len = 0 then f else run_start);
               run_len = run_len + 1
           in if run_len = count then Some run_start
              else pmm_find_run s count (f + 1) run_start run_len)
        else pmm_find_run s count (f + 1) run_start 0
      else None)"
  by pat_completeness auto
termination
  by (relation "measure (\<lambda>(s, count, f, run_start, run_len). unat (pmm_total_frames s) - unat f)")
    (auto simp: word_loop_decreases)

function pmm_claim_run :: "u64 \<Rightarrow> u64 \<Rightarrow> pmm_state \<Rightarrow> pmm_state" where
  "pmm_claim_run j run_end s =
     (if j < run_end then
        (let s = frame_set_used j s in
         pmm_claim_run (j + 1) run_end (s\<lparr>pmm_refcount := (pmm_refcount s)(j := 1)\<rparr>))
      else s)"
  by pat_completeness auto
termination
  by (relation "measure (\<lambda>(j, run_end, s). unat run_end - unat j)") (auto simp: word_loop_decreases)

declare pmm_find_run.simps [simp del] pmm_claim_run.simps [simp del]

definition pmm_alloc_contiguous :: "u32 \<Rightarrow> pmm_state \<Rightarrow> u64 \<times> pmm_state" where
  "pmm_alloc_contiguous count s =
     (if count = 0 \<or> pmm_free_frames s < ucast count then (PMM_ALLOC_FAILED, s)
      else case pmm_find_run s count 0 0 0 of
        None \<Rightarrow> (PMM_ALLOC_FAILED, s)
      | Some run_start \<Rightarrow>
          (let s = pmm_claim_run run_start (run_start + ucast count) s in
           (run_start * PMM_FRAME_SIZE, s\<lparr>pmm_free_frames := pmm_free_frames s - ucast count\<rparr>)))"

definition pmm_total_bytes :: "pmm_state \<Rightarrow> u64" where
  "pmm_total_bytes s = pmm_total_frames s * PMM_FRAME_SIZE"

definition pmm_free_bytes :: "pmm_state \<Rightarrow> u64" where
  "pmm_free_bytes s = pmm_free_frames s * PMM_FRAME_SIZE"

text \<open>pmm_selftest: its three loops and the assertions between them.\<close>

fun pmm_selftest_alloc :: "nat \<Rightarrow> pmm_state \<Rightarrow> (u64 list \<times> pmm_state) option" where
  "pmm_selftest_alloc 0 s = Some ([], s)"
| "pmm_selftest_alloc (Suc n) s =
     (let (a, s) = pmm_alloc_frame s in
      if a = PMM_ALLOC_FAILED then None
      else do {
        kassert (a AND (PMM_FRAME_SIZE - 1) = 0);
        kassert (a \<noteq> 0);
        (as, s) \<leftarrow> pmm_selftest_alloc n s;
        Some (a # as, s)
      })"

definition pmm_selftest :: "pmm_state \<Rightarrow> pmm_state option" where
  "pmm_selftest s = do {
     let free_before = pmm_free_frames s;
     (frames, s) \<leftarrow> pmm_selftest_alloc 1000 s;
     kassert (pmm_free_frames s = free_before - 1000);
     kassert (list_all (\<lambda>a. \<not> frame_is_free s (a div PMM_FRAME_SIZE)) frames);
     s \<leftarrow> free_list pmm_free_frame frames s;
     kassert (pmm_free_frames s = free_before);
     let (contiguous, s) = pmm_alloc_contiguous 16 s;
     kassert (contiguous \<noteq> PMM_ALLOC_FAILED);
     kassert (contiguous AND (PMM_FRAME_SIZE - 1) = 0);
     s \<leftarrow> free_list pmm_free_frame (map (\<lambda>i. contiguous + of_nat i * PMM_FRAME_SIZE) [0..<16]) s;
     kassert (pmm_free_frames s = free_before);
     Some s
   }"

section \<open>Specification\<close>

text \<open>
  The free frames, and the invariant of the static variables: the counters are exact, a free frame
  has no references, and the search hint lies inside the managed range.
\<close>

definition free_set :: "pmm_state \<Rightarrow> u64 set" where
  "free_set s = {f. f < pmm_total_frames s \<and> frame_is_free s f}"

definition pmm_inv :: "pmm_state \<Rightarrow> bool" where
  "pmm_inv s \<longleftrightarrow>
     pmm_total_frames s \<le> PMM_MAX_FRAMES \<and>
     pmm_next_hint s \<le> pmm_total_frames s \<and>
     unat (pmm_free_frames s) = card (free_set s) \<and>
     (\<forall>f \<in> free_set s. pmm_refcount s f = 0)"

text \<open>The state after frame \<open>f\<close> has been handed out by pmm_alloc_frame.\<close>

definition claimed :: "u64 \<Rightarrow> pmm_state \<Rightarrow> pmm_state" where
  "claimed f s = (frame_set_used f s)\<lparr>pmm_refcount := (pmm_refcount s)(f := 1),
      pmm_free_frames := pmm_free_frames s - 1, pmm_next_hint := f + 1\<rparr>"

text \<open>What clients see: addresses that can be handed out, and the references to those in use.\<close>

definition avail_frames :: "pmm_state \<Rightarrow> u64 set" where
  "avail_frames s = (\<lambda>f. f * PMM_FRAME_SIZE) ` free_set s"

definition frame_refs :: "pmm_state \<Rightarrow> u64 \<Rightarrow> nat" where
  "frame_refs s a =
     (let f = a div PMM_FRAME_SIZE in
      if a AND (PMM_FRAME_SIZE - 1) = 0 \<and> f < pmm_total_frames s \<and> \<not> frame_is_free s f
      then unat (pmm_refcount s f) else 0)"

section \<open>The bitmap and the free count\<close>

lemma frame_is_free_bit:
  "frame_is_free s f \<longleftrightarrow> \<not> bit (pmm_bitmap s (drop_bit 3 f)) (unat (f AND 7))"
  using low3_bound [of f] by (simp add: frame_is_free_def frame_mask_def and_exp_eq_0)

lemma bit_frame_mask: "bit (frame_mask f) n \<longleftrightarrow> n = unat (f AND 7)"
  using low3_bound [of f] by (auto simp: frame_mask_def bit_exp_iff)

lemma frame_is_free_set_used [simp]:
  "frame_is_free (frame_set_used f s) g \<longleftrightarrow> frame_is_free s g \<and> g \<noteq> f"
  using low3_bound [of g] split3_eq [of g f]
  by (auto simp: frame_is_free_bit frame_set_used_def bit_or_iff bit_frame_mask)

lemma frame_is_free_set_free [simp]:
  "frame_is_free (frame_set_free f s) g \<longleftrightarrow> frame_is_free s g \<or> g = f"
  using low3_bound [of g] split3_eq [of g f]
  by (auto simp: frame_is_free_bit frame_set_free_def bit_and_iff bit_not_iff bit_frame_mask)

lemma finite_free_set [simp]: "finite (free_set s)"
  by (rule finite)

lemma card_free_set: "card (free_set s) \<le> unat (pmm_total_frames s)"
proof -
  have "card (free_set s) \<le> card {f. f < pmm_total_frames s}"
    by (rule card_mono) (auto simp: free_set_def)
  then show ?thesis by (simp add: card_words_below)
qed

lemma frame_set_fields [simp]:
  "pmm_refcount (frame_set_used f s) = pmm_refcount s"
  "pmm_total_frames (frame_set_used f s) = pmm_total_frames s"
  "pmm_free_frames (frame_set_used f s) = pmm_free_frames s"
  "pmm_next_hint (frame_set_used f s) = pmm_next_hint s"
  "pmm_refcount (frame_set_free f s) = pmm_refcount s"
  "pmm_total_frames (frame_set_free f s) = pmm_total_frames s"
  "pmm_free_frames (frame_set_free f s) = pmm_free_frames s"
  "pmm_next_hint (frame_set_free f s) = pmm_next_hint s"
  by (simp_all add: frame_set_used_def frame_set_free_def)

text \<open>The bitmap alone decides which frames are free.\<close>

lemma frame_is_free_update [simp]:
  "frame_is_free (s\<lparr>pmm_refcount := r\<rparr>) f = frame_is_free s f"
  "frame_is_free (s\<lparr>pmm_total_frames := t\<rparr>) f = frame_is_free s f"
  "frame_is_free (s\<lparr>pmm_free_frames := n\<rparr>) f = frame_is_free s f"
  "frame_is_free (s\<lparr>pmm_next_hint := h\<rparr>) f = frame_is_free s f"
  by (simp_all add: frame_is_free_def)

lemma free_set_update [simp]:
  "free_set (s\<lparr>pmm_refcount := r\<rparr>) = free_set s"
  "free_set (s\<lparr>pmm_free_frames := n\<rparr>) = free_set s"
  "free_set (s\<lparr>pmm_next_hint := h\<rparr>) = free_set s"
  by (simp_all add: free_set_def)

lemma free_set_used [simp]: "free_set (frame_set_used f s) = free_set s - {f}"
  by (auto simp: free_set_def)

lemma free_set_free:
  "f < pmm_total_frames s \<Longrightarrow> free_set (frame_set_free f s) = insert f (free_set s)"
  by (auto simp: free_set_def)

lemma free_frames_pos: "pmm_inv s \<Longrightarrow> f \<in> free_set s \<Longrightarrow> pmm_free_frames s \<noteq> 0"
  by (auto simp: pmm_inv_def)

lemma pmm_inv_claim:
  assumes "pmm_inv s" and "f \<in> free_set s"
  shows "pmm_inv ((frame_set_used f s)\<lparr>pmm_refcount := (pmm_refcount s)(f := c),
                    pmm_free_frames := pmm_free_frames s - 1\<rparr>)"
  using assms free_frames_pos [OF assms]
  by (auto simp: pmm_inv_def unat_minus_one)

lemma pmm_inv_release:
  assumes "pmm_inv s" and "f < pmm_total_frames s" and "\<not> frame_is_free s f"
  shows "pmm_inv ((frame_set_free f s)\<lparr>pmm_refcount := (pmm_refcount s)(f := 0),
                    pmm_free_frames := pmm_free_frames s + 1\<rparr>)"
proof -
  have f: "f \<notin> free_set s" using assms(3) by (simp add: free_set_def)
  have "free_set s \<subset> {g. g < pmm_total_frames s}"
    using assms(2,3) by (auto simp: free_set_def)
  then have "card (free_set s) < unat (pmm_total_frames s)"
    using psubset_card_mono [of "{g. g < pmm_total_frames s}"] by (simp add: card_words_below)
  then have "pmm_free_frames s < pmm_total_frames s"
    using assms(1) by (simp add: pmm_inv_def word_less_nat_alt)
  from unat_plus1_less [OF this] show ?thesis
    using assms f by (auto simp: pmm_inv_def free_set_free)
qed

lemma region_mark_free_loop_spec:
  assumes "pmm_inv s"
  shows "pmm_inv (region_mark_free_loop f lim s) \<and>
         pmm_total_frames (region_mark_free_loop f lim s) = pmm_total_frames s \<and>
         pmm_next_hint (region_mark_free_loop f lim s) = pmm_next_hint s \<and>
         (\<forall>g. frame_is_free (region_mark_free_loop f lim s) g \<longleftrightarrow>
              frame_is_free s g \<or> f \<le> g \<and> g < lim \<and> g < pmm_total_frames s)"
  using assms
proof (induction f lim s rule: region_mark_free_loop.induct)
  case (1 f lim s)
  show ?case
  proof (cases "f < lim \<and> f < pmm_total_frames s")
    case True
    define s' where "s' = (if \<not> frame_is_free s f then
             (let s = frame_set_free f s in
              s\<lparr>pmm_refcount := (pmm_refcount s)(f := 0), pmm_free_frames := pmm_free_frames s + 1\<rparr>)
           else s)"
    have inv: "pmm_inv s'"
      using pmm_inv_release [of s f] "1.prems" True by (auto simp: s'_def Let_def)
    have fld: "pmm_total_frames s' = pmm_total_frames s" "pmm_next_hint s' = pmm_next_hint s"
        "\<And>g. frame_is_free s' g \<longleftrightarrow> frame_is_free s g \<or> g = f"
      by (auto simp: s'_def Let_def)
    have eq: "region_mark_free_loop f lim s = region_mark_free_loop (f + 1) lim s'"
      using True by (simp add: region_mark_free_loop.simps [of f lim s] s'_def)
    have step: "f \<le> g \<longleftrightarrow> g = f \<or> f + 1 \<le> g" for g
      using True range_step by blast
    note IH = "1.IH" [OF True, folded s'_def, OF inv]
    have "frame_is_free (region_mark_free_loop (f + 1) lim s') g \<longleftrightarrow> frame_is_free s g \<or> f \<le> g \<and> g < lim \<and> g < pmm_total_frames s" for g
      using IH True by (simp add: fld step) blast
    with IH show ?thesis by (simp add: eq fld)
  next
    case False
    then show ?thesis
      using "1.prems" by (auto simp: region_mark_free_loop.simps [of f lim s])
  qed
qed

lemma region_mark_used_loop_spec:
  assumes "pmm_inv s"
  shows "pmm_inv (region_mark_used_loop f lim s) \<and>
         pmm_total_frames (region_mark_used_loop f lim s) = pmm_total_frames s \<and>
         pmm_next_hint (region_mark_used_loop f lim s) = pmm_next_hint s \<and>
         (\<forall>g. frame_is_free (region_mark_used_loop f lim s) g \<longleftrightarrow>
              frame_is_free s g \<and> \<not> (f \<le> g \<and> g < lim \<and> g < pmm_total_frames s))"
  using assms
proof (induction f lim s rule: region_mark_used_loop.induct)
  case (1 f lim s)
  show ?case
  proof (cases "f < lim \<and> f < pmm_total_frames s")
    case True
    define s' where "s' = (if frame_is_free s f then
             (let s = frame_set_used f s in
              s\<lparr>pmm_refcount := (pmm_refcount s)(f := 1), pmm_free_frames := pmm_free_frames s - 1\<rparr>)
           else s)"
    have inv: "pmm_inv s'"
      using pmm_inv_claim [of s f] "1.prems" True by (auto simp: s'_def Let_def free_set_def)
    have fld: "pmm_total_frames s' = pmm_total_frames s" "pmm_next_hint s' = pmm_next_hint s"
        "\<And>g. frame_is_free s' g \<longleftrightarrow> frame_is_free s g \<and> g \<noteq> f"
      by (auto simp: s'_def Let_def)
    have eq: "region_mark_used_loop f lim s = region_mark_used_loop (f + 1) lim s'"
      using True by (simp add: region_mark_used_loop.simps [of f lim s] s'_def)
    have step: "f \<le> g \<longleftrightarrow> g = f \<or> f + 1 \<le> g" for g
      using True range_step by blast
    note IH = "1.IH" [OF True, folded s'_def, OF inv]
    have "frame_is_free (region_mark_used_loop (f + 1) lim s') g \<longleftrightarrow> frame_is_free s g \<and> \<not> (f \<le> g \<and> g < lim \<and> g < pmm_total_frames s)" for g
      using IH True by (simp add: fld step) blast
    with IH show ?thesis by (simp add: eq fld)
  next
    case False
    then show ?thesis
      using "1.prems" by (auto simp: region_mark_used_loop.simps [of f lim s])
  qed
qed

lemma unat_low3: "unat ((f::u64) AND 7) = unat f mod 8"
proof -
  have "f AND 7 = take_bit 3 f" by (simp add: take_bit_eq_mask mask_eq_exp_minus_1)
  then show ?thesis by (simp add: take_bit_eq_mod unat_mod_distrib)
qed

lemma unat_drop3: "unat (drop_bit 3 (f::u64)) = unat f div 8"
  by (simp only: unat_drop_bit_eq) (simp add: drop_bit_eq_div)

lemma unat_byte_bit:
  assumes "unat (byte::u64) < 2 ^ 60" and "b < 8"
  shows "unat (byte * 8 + of_nat b) = unat byte * 8 + b"
proof -
  have "unat (byte * 8) = unat byte * 8" and "unat (of_nat b :: u64) = b"
    using assms by (simp_all add: unat_word_ariths unat_of_nat)
  then show ?thesis using assms by (simp add: unat_word_ariths(1))
qed

lemma byte_bit_split:
  assumes "unat (byte::u64) < 2 ^ 60" and "b < 8"
  shows "drop_bit 3 (byte * 8 + of_nat b) = byte" and "unat ((byte * 8 + of_nat b) AND 7) = b"
  using unat_byte_bit [OF assms] assms by (simp_all add: word_unat_eq_iff unat_drop3 unat_low3)

lemma frame_is_free_byte_bit:
  assumes "unat byte < 2 ^ 60" and "b < 8"
  shows "frame_is_free s (byte * 8 + of_nat b) \<longleftrightarrow> \<not> bit (pmm_bitmap s byte) b"
  by (simp add: frame_is_free_bit byte_bit_split [OF assms])

lemma pmm_scan_bits_spec:
  assumes "unat byte < 2 ^ 60" and "b \<le> 8"
  shows "case pmm_scan_bits s byte b of
      Some f \<Rightarrow> drop_bit 3 f = byte \<and> f < pmm_total_frames s \<and> frame_is_free s f \<and>
        (\<forall>k. b \<le> k \<and> byte * 8 + of_nat k < f \<and> k < 8 \<longrightarrow> \<not> frame_is_free s (byte * 8 + of_nat k))
    | None \<Rightarrow> \<forall>k. b \<le> k \<and> k < 8 \<and> byte * 8 + of_nat k < pmm_total_frames s
        \<longrightarrow> \<not> frame_is_free s (byte * 8 + of_nat k)"
  using assms
proof (induction s byte b rule: pmm_scan_bits.induct)
  case (1 s byte b)
  let ?f = "byte * 8 + of_nat b"
  note u = unat_byte_bit [OF "1.prems"(1)]
  have le: "?f \<le> byte * 8 + of_nat k" if "b \<le> k" "k < 8" for k
    using that u [of b] u [of k] by (simp add: word_le_nat_alt)
  consider "b = 8" | "b < 8" "?f \<ge> pmm_total_frames s"
    | "b < 8" "?f < pmm_total_frames s" "frame_is_free s ?f"
    | "b < 8" "?f < pmm_total_frames s" "\<not> frame_is_free s ?f"
    using "1.prems"(2) by fastforce
  then show ?case
  proof cases
    case 1
    then show ?thesis by (auto simp: pmm_scan_bits.simps [of s byte 8])
  next
    case 2
    then have "\<not> byte * 8 + of_nat k < pmm_total_frames s" if "b \<le> k" "k < 8" for k
      using le [OF that] by simp
    with 2 show ?thesis by (auto simp: pmm_scan_bits.simps [of s byte b] Let_def)
  next
    case 3
    then have "pmm_scan_bits s byte b = Some ?f"
      using frame_is_free_byte_bit [OF "1.prems"(1) 3(1), of s]
      by (simp add: pmm_scan_bits.simps [of s byte b] and_exp_eq_0 Let_def)
    moreover have "\<not> byte * 8 + of_nat k < ?f" if "b \<le> k" "k < 8" for k
      using le [OF that] by simp
    ultimately show ?thesis using 3 byte_bit_split(1) [OF "1.prems"(1) 3(1)] by auto
  next
    case 4
    have nz: "pmm_bitmap s byte AND 2 ^ b \<noteq> 0"
      using frame_is_free_byte_bit [OF "1.prems"(1) 4(1), of s] 4
      by (simp add: and_exp_eq_0)
    then have eq: "pmm_scan_bits s byte b = pmm_scan_bits s byte (Suc b)"
      using 4 leD by (auto simp: pmm_scan_bits.simps [of s byte b] Let_def)
    have split: "b \<le> k \<longleftrightarrow> k = b \<or> Suc b \<le> k" for k by auto
    have IH: "case pmm_scan_bits s byte (Suc b) of
      Some f \<Rightarrow> drop_bit 3 f = byte \<and> f < pmm_total_frames s \<and> frame_is_free s f \<and>
        (\<forall>k. Suc b \<le> k \<and> byte * 8 + of_nat k < f \<and> k < 8 \<longrightarrow> \<not> frame_is_free s (byte * 8 + of_nat k))
    | None \<Rightarrow> \<forall>k. Suc b \<le> k \<and> k < 8 \<and> byte * 8 + of_nat k < pmm_total_frames s
        \<longrightarrow> \<not> frame_is_free s (byte * 8 + of_nat k)"
      using "1.IH" [OF 4(1) refl] 4 nz "1.prems" by simp
    show ?thesis unfolding eq
      using IH 4(3) by (cases "pmm_scan_bits s byte (Suc b)") (auto simp: split)
  qed
qed

text \<open>Every frame of a byte is one of its eight bits.\<close>

lemma frame_as_byte_bit: "drop_bit 3 (f::u64) = byte \<Longrightarrow> f = byte * 8 + of_nat (unat f mod 8)"
proof -
  assume "drop_bit 3 f = byte"
  then have b: "unat byte = unat f div 8" by (auto simp: unat_drop3)
  moreover have "unat f < 2 ^ 64" using unsigned_less [of f] by simp
  ultimately have "unat (byte * 8) = unat byte * 8"
    by (simp add: unat_word_ariths)
  moreover have "unat (of_nat (unat f mod 8) :: u64) = unat f mod 8"
    by (simp add: unat_of_nat)
  ultimately have "unat (byte * 8 + of_nat (unat f mod 8)) = unat f"
    using b \<open>unat f < 2 ^ 64\<close> by (simp add: unat_word_ariths(1))
  then show ?thesis by (simp add: word_unat_eq_iff)
qed

lemma pmm_scan_bits_Some:
  assumes "unat byte < 2 ^ 60" and "pmm_scan_bits s byte 0 = Some f"
  shows "drop_bit 3 f = byte" and "f \<in> free_set s"
    and "\<And>g. drop_bit 3 g = byte \<Longrightarrow> g < f \<Longrightarrow> \<not> frame_is_free s g"
proof -
  note spec = pmm_scan_bits_spec [OF assms(1), of 0 s, unfolded assms(2), simplified]
  show "drop_bit 3 f = byte" and "f \<in> free_set s" using spec by (auto simp: free_set_def)
  show "\<not> frame_is_free s g" if "drop_bit 3 g = byte" "g < f" for g
  proof -
    have g: "g = byte * 8 + of_nat (unat g mod 8)" using that(1) by (rule frame_as_byte_bit)
    show ?thesis using spec that(2) g by (metis mod_less_divisor zero_less_numeral)
  qed
qed

lemma pmm_scan_bits_None:
  assumes "unat byte < 2 ^ 60" and "pmm_scan_bits s byte 0 = None"
    and "drop_bit 3 g = byte" "g < pmm_total_frames s"
  shows "\<not> frame_is_free s g"
proof -
  note spec = pmm_scan_bits_spec [OF assms(1), of 0 s, unfolded assms(2), simplified]
  have g: "g = byte * 8 + of_nat (unat g mod 8)" using assms(3) by (rule frame_as_byte_bit)
  show ?thesis using spec assms(4) g by (metis mod_less_divisor zero_less_numeral)
qed

lemma full_byte_used: "pmm_bitmap s (drop_bit 3 g) = 0xFF \<Longrightarrow> \<not> frame_is_free s g"
proof -
  have "bit (0xFF::u8) k" if "k < 8" for k
  proof -
    have "(0xFF::u8) = mask 8" by (simp add: mask_eq_exp_minus_1)
    with that show ?thesis by (simp only: bit_mask_iff) simp
  qed
  then show "pmm_bitmap s (drop_bit 3 g) = 0xFF \<Longrightarrow> ?thesis"
    using low3_bound [of g] by (simp add: frame_is_free_bit)
qed

lemma pmm_scan_bytes_spec:
  assumes "unat byte_end < 2 ^ 60"
  shows "case pmm_scan_bytes s byte byte_end of
      Some f \<Rightarrow> f \<in> free_set s \<and> byte \<le> drop_bit 3 f \<and> drop_bit 3 f < byte_end \<and>
        (\<forall>g. byte \<le> drop_bit 3 g \<and> g < f \<longrightarrow> \<not> frame_is_free s g)
    | None \<Rightarrow> \<forall>g. byte \<le> drop_bit 3 g \<and> drop_bit 3 g < byte_end \<and> g < pmm_total_frames s
        \<longrightarrow> \<not> frame_is_free s g"
  using assms
proof (induction s byte byte_end rule: pmm_scan_bytes.induct)
  case (1 s byte byte_end)
  show ?case
  proof (cases "byte < byte_end")
    case False
    then show ?thesis by (auto simp: pmm_scan_bytes.simps [of s byte byte_end])
  next
    case True
    then have b: "unat byte < 2 ^ 60"
      using "1.prems" by (simp add: word_less_nat_alt)
    have step: "byte \<le> x \<longleftrightarrow> x = byte \<or> byte + 1 \<le> x" for x
      using True by (rule range_step)
    show ?thesis
    proof (cases "\<exists>f. pmm_bitmap s byte \<noteq> 0xFF \<and> pmm_scan_bits s byte 0 = Some f")
      case some: True
      then obtain f where f: "pmm_bitmap s byte \<noteq> 0xFF" "pmm_scan_bits s byte 0 = Some f" by blast
      then have eq: "pmm_scan_bytes s byte byte_end = Some f"
        using True by (simp add: pmm_scan_bytes.simps [of s byte byte_end])
      have "drop_bit 3 g = byte" if "byte \<le> drop_bit 3 g" "g < f" for g
      proof -
        have "drop_bit 3 g \<le> drop_bit 3 f"
          using that(2) by (simp add: word_le_nat_alt word_less_nat_alt unat_drop3 div_le_mono)
        with that(1) pmm_scan_bits_Some(1) [OF b f(2)] show ?thesis by simp
      qed
      then show ?thesis
        using pmm_scan_bits_Some [OF b f(2)] True by (auto simp: eq)
    next
      case none: False
      then have eq: "pmm_scan_bytes s byte byte_end = pmm_scan_bytes s (byte + 1) byte_end"
        using True by (auto simp: pmm_scan_bytes.simps [of s byte byte_end] split: option.splits)
      have IH: "case pmm_scan_bytes s (byte + 1) byte_end of
          Some f \<Rightarrow> f \<in> free_set s \<and> byte + 1 \<le> drop_bit 3 f \<and> drop_bit 3 f < byte_end \<and>
            (\<forall>g. byte + 1 \<le> drop_bit 3 g \<and> g < f \<longrightarrow> \<not> frame_is_free s g)
        | None \<Rightarrow> \<forall>g. byte + 1 \<le> drop_bit 3 g \<and> drop_bit 3 g < byte_end \<and> g < pmm_total_frames s
            \<longrightarrow> \<not> frame_is_free s g"
        using "1.IH" True none "1.prems" by (metis not_None_eq)
      have here: "\<not> frame_is_free s g" if "drop_bit 3 g = byte" "g < pmm_total_frames s" for g
        using none that full_byte_used [of s g] pmm_scan_bits_None [OF b _ that]
        by (cases "pmm_bitmap s byte = 0xFF") auto
      show ?thesis
      proof (cases "pmm_scan_bytes s (byte + 1) byte_end")
        case None
        then show ?thesis using IH here by (auto simp: eq step)
      next
        case (Some f)
        then have "f < pmm_total_frames s" using IH by (auto simp: free_set_def)
        then have "\<not> frame_is_free s g" if "drop_bit 3 g = byte" "g < f" for g
          using here [OF that(1)] that(2) by simp
        with IH Some show ?thesis by (auto simp: eq step)
      qed
    qed
  qed
qed

lemma PMM_MAX_FRAMES_eq: "PMM_MAX_FRAMES = 0x100000"
  by (simp add: PMM_MAX_FRAMES_def PMM_MAX_PHYS_def PMM_FRAME_SIZE_def)

lemma pmm_inv_total: "pmm_inv s \<Longrightarrow> unat (pmm_total_frames s) \<le> 2 ^ 20"
  by (simp add: pmm_inv_def PMM_MAX_FRAMES_eq word_le_nat_alt)

lemma unat_n_bytes:
  "pmm_inv s \<Longrightarrow> unat ((pmm_total_frames s + 7) div 8) = (unat (pmm_total_frames s) + 7) div 8"
  using pmm_inv_total [of s] by (simp add: unat_div_distrib unat_word_ariths(1))

text \<open>The two passes together look at every frame below the total.\<close>

lemma pmm_find_frame_spec:
  assumes "pmm_inv s"
  shows "case pmm_find_frame s of
      Some f \<Rightarrow> f \<in> free_set s \<and>
        (\<forall>g \<in> free_set s. drop_bit 3 (pmm_next_hint s) \<le> drop_bit 3 g \<longrightarrow>
            drop_bit 3 (pmm_next_hint s) \<le> drop_bit 3 f \<and> f \<le> g)
    | None \<Rightarrow> free_set s = {}"
proof -
  let ?n = "(pmm_total_frames s + 7) div 8" and ?h = "drop_bit 3 (pmm_next_hint s)"
  have n: "unat ?n < 2 ^ 60"
    using pmm_inv_total [OF assms] by (simp add: unat_n_bytes [OF assms])
  have h: "unat ?h < 2 ^ 60"
    using pmm_inv_total [OF assms] assms
    by (auto simp: unat_drop3 pmm_inv_def word_le_nat_alt)
  have below: "drop_bit 3 g < ?n" if "g \<in> free_set s" for g
    using that by (auto simp: word_less_nat_alt unat_drop3 unat_n_bytes [OF assms] free_set_def)
  note p0 = pmm_scan_bytes_spec [OF n, where s = s and byte = ?h]
    and p1 = pmm_scan_bytes_spec [OF h, where s = s and byte = 0]
  show ?thesis
  proof (cases "pmm_scan_bytes s ?h ?n")
    case (Some f)
    then have "pmm_find_frame s = Some f" by (simp add: pmm_find_frame_def)
    then show ?thesis using p0 Some by (auto simp: free_set_def not_less [symmetric])
  next
    case None
    then have eq: "pmm_find_frame s = pmm_scan_bytes s 0 ?h" by (simp add: pmm_find_frame_def)
    have hi: "\<not> ?h \<le> drop_bit 3 g" if "g \<in> free_set s" for g
      using p0 None below [OF that] that by (auto simp: free_set_def)
    show ?thesis
    proof (cases "pmm_scan_bytes s 0 ?h")
      case None
      then have "g \<notin> free_set s" for g using p1 hi [of g] by (auto simp: free_set_def)
      with None show ?thesis by (auto simp: eq)
    next
      case (Some f)
      then show ?thesis using p1 hi by (simp add: eq)
    qed
  qed
qed

section \<open>Frames and addresses\<close>

lemma unat_frame_addr: "f < PMM_MAX_FRAMES \<Longrightarrow> unat (f * PMM_FRAME_SIZE) = unat f * 4096"
  by (simp add: PMM_MAX_FRAMES_eq PMM_FRAME_SIZE_def word_less_nat_alt unat_word_ariths)

lemma frame_addr_div [simp]: "f < PMM_MAX_FRAMES \<Longrightarrow> f * PMM_FRAME_SIZE div PMM_FRAME_SIZE = f"
  by (simp add: word_unat_eq_iff unat_div_distrib unat_frame_addr) (simp add: PMM_FRAME_SIZE_def)

lemma page_offset_mod: "unat ((a::u64) AND (PMM_FRAME_SIZE - 1)) = unat a mod 4096"
proof -
  have "a AND (PMM_FRAME_SIZE - 1) = take_bit 12 a"
    by (simp add: PMM_FRAME_SIZE_def take_bit_eq_mask mask_eq_exp_minus_1)
  then show ?thesis by (simp add: take_bit_eq_mod unat_mod_distrib)
qed

lemma aligned_iff: "(a::u64) AND (PMM_FRAME_SIZE - 1) = 0 \<longleftrightarrow> unat a mod 4096 = 0"
  by (metis page_offset_mod unat_eq_zero)

lemma frame_addr_aligned [simp]: "f * PMM_FRAME_SIZE AND (PMM_FRAME_SIZE - 1) = 0"
  unfolding aligned_iff
proof -
  have "unat (f * PMM_FRAME_SIZE) = (unat f * 4096) mod 2 ^ 64"
    by (simp add: unat_word_ariths PMM_FRAME_SIZE_def)
  then show "unat (f * PMM_FRAME_SIZE) mod 4096 = 0"
    by (simp add: mod_mod_cancel)
qed

lemma frame_addr_of_aligned:
  assumes "a AND (PMM_FRAME_SIZE - 1) = 0"
  shows "(a div PMM_FRAME_SIZE) * PMM_FRAME_SIZE = a"
proof -
  have "unat a mod 4096 = 0" using assms by (simp add: aligned_iff)
  moreover have "unat a < 2 ^ 64" using unsigned_less [of a] by simp
  ultimately show ?thesis
    by (auto simp: word_unat_eq_iff unat_word_ariths unat_div_distrib PMM_FRAME_SIZE_def)
qed

lemma frame_addr_not_failed: "f < PMM_MAX_FRAMES \<Longrightarrow> f * PMM_FRAME_SIZE \<noteq> PMM_ALLOC_FAILED"
  using unat_frame_addr [of f]
  by (auto simp: PMM_ALLOC_FAILED_def PMM_MAX_FRAMES_eq word_less_nat_alt unsigned_minus_1_eq_mask mask_eq_exp_minus_1)

section \<open>The allocator interface\<close>

lemma free_set_below: "pmm_inv s \<Longrightarrow> f \<in> free_set s \<Longrightarrow> f < PMM_MAX_FRAMES"
  by (auto simp: pmm_inv_def free_set_def)

lemma pmm_alloc_frame_none: "pmm_inv s \<Longrightarrow> free_set s = {} \<Longrightarrow> pmm_alloc_frame s = (PMM_ALLOC_FAILED, s)"
  by (auto simp: pmm_alloc_frame_def pmm_inv_def unat_eq_zero)

lemma pmm_alloc_frame_some:
  assumes "pmm_inv s" and "free_set s \<noteq> {}"
  obtains f where "f \<in> free_set s" and "pmm_alloc_frame s = (f * PMM_FRAME_SIZE, claimed f s)"
    and "pmm_find_frame s = Some f"
proof -
  from assms have nz: "pmm_free_frames s \<noteq> 0"
    using free_frames_pos by blast
  from pmm_find_frame_spec [OF assms(1)] assms(2) obtain f where
    f: "pmm_find_frame s = Some f" "f \<in> free_set s"
    by (cases "pmm_find_frame s") auto
  have "pmm_alloc_frame s = (f * PMM_FRAME_SIZE, claimed f s)"
    using nz f(1) by (simp add: pmm_alloc_frame_def Let_def claimed_def)
  with f that show ?thesis by blast
qed

lemma claimed_fields [simp]:
  "pmm_refcount (claimed f s) = (pmm_refcount s)(f := 1)"
  "pmm_total_frames (claimed f s) = pmm_total_frames s"
  "free_set (claimed f s) = free_set s - {f}"
  "frame_is_free (claimed f s) g \<longleftrightarrow> frame_is_free s g \<and> g \<noteq> f"
  by (simp_all add: claimed_def)

lemma pmm_inv_claimed:
  assumes "pmm_inv s" and "f \<in> free_set s"
  shows "pmm_inv (claimed f s)"
proof -
  have "f < pmm_total_frames s" using assms(2) by (simp add: free_set_def)
  then have "f + 1 \<le> pmm_total_frames s" by (simp add: plus1_le_iff_less)
  then show ?thesis
    using pmm_inv_claim [OF assms, of 1] by (simp add: claimed_def pmm_inv_def)
qed

lemma frame_refs_frame:
  "f < PMM_MAX_FRAMES \<Longrightarrow> frame_refs s (f * PMM_FRAME_SIZE) =
     (if f < pmm_total_frames s \<and> \<not> frame_is_free s f then unat (pmm_refcount s f) else 0)"
  by (simp add: frame_refs_def)

lemma frame_refs_pos:
  assumes "0 < frame_refs s a"
  obtains f where "a = f * PMM_FRAME_SIZE" and "a div PMM_FRAME_SIZE = f"
    and "a AND (PMM_FRAME_SIZE - 1) = 0" and "f < pmm_total_frames s" and "\<not> frame_is_free s f"
    and "unat (pmm_refcount s f) = frame_refs s a"
proof -
  let ?f = "a div PMM_FRAME_SIZE"
  have *: "a AND (PMM_FRAME_SIZE - 1) = 0" "?f < pmm_total_frames s" "\<not> frame_is_free s ?f"
    "unat (pmm_refcount s ?f) = frame_refs s a"
    using assms by (auto simp: frame_refs_def Let_def split: if_splits)
  show ?thesis using that [of ?f] * frame_addr_of_aligned [OF *(1)] by simp
qed

text \<open>Reference counts change at one address when they change at one frame.\<close>

lemma frame_refs_upd:
  assumes f: "f < PMM_MAX_FRAMES" "f < pmm_total_frames s"
    and same: "pmm_total_frames s' = pmm_total_frames s"
      "\<And>g. g \<noteq> f \<Longrightarrow> frame_is_free s' g = frame_is_free s g"
      "\<And>g. g \<noteq> f \<Longrightarrow> pmm_refcount s' g = pmm_refcount s g"
    and n: "(if frame_is_free s' f then 0 else unat (pmm_refcount s' f)) = n"
  shows "frame_refs s' = (frame_refs s)(f * PMM_FRAME_SIZE := n)"
proof (rule ext)
  fix a
  show "frame_refs s' a = ((frame_refs s)(f * PMM_FRAME_SIZE := n)) a"
  proof (cases "a AND (PMM_FRAME_SIZE - 1) = 0 \<and> a div PMM_FRAME_SIZE = f")
    case True
    then have "a = f * PMM_FRAME_SIZE" using frame_addr_of_aligned by metis
    then show ?thesis using f same(1) n by (auto simp: frame_refs_frame)
  next
    case False
    moreover from this have "a \<noteq> f * PMM_FRAME_SIZE" using f(1) by auto
    ultimately show ?thesis using same by (auto simp: frame_refs_def Let_def)
  qed
qed

lemma avail_unowned_frame:
  assumes "pmm_inv s" and "a \<in> avail_frames s"
  shows "frame_refs s a = 0"
  using assms free_set_below [OF assms(1)]
  by (auto simp: avail_frames_def frame_refs_frame free_set_def)

lemma inj_frame_addr: "f < PMM_MAX_FRAMES \<Longrightarrow> g < PMM_MAX_FRAMES \<Longrightarrow>
    f * PMM_FRAME_SIZE = g * PMM_FRAME_SIZE \<longleftrightarrow> f = g"
  by (metis frame_addr_div)

lemma avail_frames_minus:
  assumes "pmm_inv s" and "f \<in> free_set s"
  shows "(\<lambda>g. g * PMM_FRAME_SIZE) ` (free_set s - {f}) = avail_frames s - {f * PMM_FRAME_SIZE}"
  using free_set_below [OF assms(1)] assms(2) by (auto simp: avail_frames_def inj_frame_addr)

lemma pmm_alloc_frame_ok:
  assumes "pmm_inv s" and "avail_frames s \<noteq> {}"
  shows "\<exists>a s'. pmm_alloc_frame s = (a, s') \<and> a \<in> avail_frames s \<and> pmm_inv s' \<and>
    avail_frames s' = avail_frames s - {a} \<and> frame_refs s' = (frame_refs s)(a := 1)"
proof -
  have "free_set s \<noteq> {}" using assms(2) by (auto simp: avail_frames_def)
  from pmm_alloc_frame_some [OF assms(1) this] obtain f where
    f: "f \<in> free_set s" "pmm_alloc_frame s = (f * PMM_FRAME_SIZE, claimed f s)" by metis
  have below: "f < PMM_MAX_FRAMES" "f < pmm_total_frames s"
    using f(1) free_set_below [OF assms(1)] by (auto simp: free_set_def)
  have "frame_refs (claimed f s) = (frame_refs s)(f * PMM_FRAME_SIZE := 1)"
    by (rule frame_refs_upd [OF below]) auto
  moreover have "avail_frames (claimed f s) = avail_frames s - {f * PMM_FRAME_SIZE}"
    using avail_frames_minus [OF assms(1) f(1)] by (simp add: avail_frames_def)
  ultimately show ?thesis
    using f pmm_inv_claimed [OF assms(1) f(1)] by (auto simp: avail_frames_def)
qed

lemma pmm_free_frame_unowned: "frame_refs s a = 0 \<Longrightarrow> pmm_free_frame a s = None"
  by (auto simp: frame_refs_def pmm_free_frame_def Let_def unat_eq_zero word_gt_0 split: if_splits)

lemma pmm_free_frame_owned:
  assumes "pmm_inv s" and "0 < frame_refs s a"
  shows "\<exists>s'. pmm_free_frame a s = Some s' \<and> pmm_inv s' \<and>
    frame_refs s' = (frame_refs s)(a := frame_refs s a - 1) \<and>
    avail_frames s' = (if frame_refs s a = 1 then insert a (avail_frames s) else avail_frames s)"
proof -
  from frame_refs_pos [OF assms(2)] obtain f where
    f: "a = f * PMM_FRAME_SIZE" "a div PMM_FRAME_SIZE = f" "a AND (PMM_FRAME_SIZE - 1) = 0"
      "f < pmm_total_frames s" "\<not> frame_is_free s f" "unat (pmm_refcount s f) = frame_refs s a"
    by metis
  have max: "f < PMM_MAX_FRAMES" using f(4) assms(1) by (auto simp: pmm_inv_def)
  have pos: "0 < pmm_refcount s f" using assms(2) f(6) by (simp add: word_less_nat_alt)
  have dec: "unat (pmm_refcount s f - 1) = frame_refs s a - 1"
    using pos f(6) by (simp add: unat_minus_one word_gt_0)
  show ?thesis
  proof (cases "frame_refs s a = 1")
    case True
    then have z: "pmm_refcount s f - 1 = 0" using dec by (simp add: unat_eq_zero)
    define s1 where "s1 = (frame_set_free f s)\<lparr>pmm_refcount := (pmm_refcount s)(f := 0),
                    pmm_free_frames := pmm_free_frames s + 1\<rparr>"
    define s' where "s' = s1\<lparr>pmm_next_hint := (if f < pmm_next_hint s then f else pmm_next_hint s)\<rparr>"
    have eq: "pmm_free_frame a s = Some s'"
      using f pos z by (simp add: pmm_free_frame_def Let_def s'_def s1_def frame_set_free_def)
    have inv: "pmm_inv s'"
      using pmm_inv_release [OF assms(1) f(4,5)] f(4)
      unfolding s'_def s1_def [symmetric] by (auto simp: pmm_inv_def s1_def)
    have "frame_refs s' = (frame_refs s)(f * PMM_FRAME_SIZE := 0)"
      by (rule frame_refs_upd [OF max f(4)]) (auto simp: s'_def s1_def)
    moreover have "avail_frames s' = insert a (avail_frames s)"
      using f(1,4) by (simp add: avail_frames_def s'_def s1_def free_set_free)
    ultimately show ?thesis using eq inv True f(1) by auto
  next
    case False
    then have nz: "pmm_refcount s f - 1 > 0" using dec assms(2) by (simp add: word_less_nat_alt)
    define s' where "s' = s\<lparr>pmm_refcount := (pmm_refcount s)(f := pmm_refcount s f - 1)\<rparr>"
    have eq: "pmm_free_frame a s = Some s'"
      using f pos nz by (simp add: pmm_free_frame_def Let_def s'_def)
    have inv: "pmm_inv s'"
      using assms(1) f(5) by (auto simp: s'_def pmm_inv_def free_set_def)
    have "frame_refs s' = (frame_refs s)(f * PMM_FRAME_SIZE := frame_refs s a - 1)"
      by (rule frame_refs_upd [OF max f(4)]) (use f(5) dec in \<open>auto simp: s'_def\<close>)
    moreover have "avail_frames s' = avail_frames s" by (simp add: s'_def avail_frames_def)
    ultimately show ?thesis using eq inv False f(1) by auto
  qed
qed

lemma pmm_ref_frame_owned:
  assumes "pmm_inv s" and "0 < frame_refs s a" and "frame_refs s a < 0xFFFF"
  shows "\<exists>s'. pmm_ref_frame a s = Some s' \<and> pmm_inv s' \<and>
    frame_refs s' = (frame_refs s)(a := frame_refs s a + 1) \<and> avail_frames s' = avail_frames s"
proof -
  from frame_refs_pos [OF assms(2)] obtain f where
    f: "a = f * PMM_FRAME_SIZE" "a div PMM_FRAME_SIZE = f" "a AND (PMM_FRAME_SIZE - 1) = 0"
      "f < pmm_total_frames s" "\<not> frame_is_free s f" "unat (pmm_refcount s f) = frame_refs s a"
    by metis
  have max: "f < PMM_MAX_FRAMES" using f(4) assms(1) by (auto simp: pmm_inv_def)
  have lt: "0 < pmm_refcount s f" "pmm_refcount s f < 0xFFFF"
    using assms(2,3) f(6) by (simp_all add: word_less_nat_alt)
  define s' where "s' = s\<lparr>pmm_refcount := (pmm_refcount s)(f := pmm_refcount s f + 1)\<rparr>"
  have eq: "pmm_ref_frame a s = Some s'"
    using f lt by (simp add: pmm_ref_frame_def Let_def s'_def)
  have inv: "pmm_inv s'"
    using assms(1) f(5) by (auto simp: s'_def pmm_inv_def free_set_def)
  have "frame_refs s' = (frame_refs s)(f * PMM_FRAME_SIZE := frame_refs s a + 1)"
    by (rule frame_refs_upd [OF max f(4)]) (use f(5,6) unat_plus1_less [OF lt(2)] in \<open>auto simp: s'_def\<close>)
  moreover have "avail_frames s' = avail_frames s" by (simp add: s'_def avail_frames_def)
  ultimately show ?thesis using eq inv f(1) by auto
qed

lemma pmm_ref_frame_refused:
  assumes "frame_refs s a = 0 \<or> 0xFFFF \<le> frame_refs s a"
  shows "pmm_ref_frame a s = None"
  using assms
  by (auto simp: frame_refs_def pmm_ref_frame_def Let_def unat_eq_zero word_gt_0 word_less_nat_alt
      split: if_splits)

interpretation pmm: frame_allocator pmm_alloc_frame pmm_free_frame pmm_ref_frame
    avail_frames frame_refs pmm_inv PMM_ALLOC_FAILED "0xFFFF"
proof (unfold_locales, goal_cases)
  case (1 s) show ?case by (simp add: avail_frames_def)
next
  case (2 s) then show ?case
    using frame_addr_not_failed free_set_below by (fastforce simp: avail_frames_def)
next
  case (3 s a) then show ?case by (rule avail_unowned_frame)
next
  case (4 s) then show ?case by (simp add: avail_frames_def pmm_alloc_frame_none)
next
  case (5 s) then show ?case by (rule pmm_alloc_frame_ok)
next
  case (6 s a) then show ?case by (simp add: pmm_free_frame_unowned)
next
  case (7 s a) then show ?case by (rule pmm_free_frame_owned)
next
  case (8 s a) then show ?case by (rule pmm_ref_frame_owned)
next
  case (9 s a) then show ?case by (simp add: pmm_ref_frame_refused)
qed

end
