(* ===== verification/Pmm_Boot.thy ===== *)
theory Pmm_Boot
  imports Pmm
begin

text \<open>
  kernel/mm/pmm.c, second part: runs of frames, the self-test, and the state pmm_init builds from
  the boot loader's memory map; then every state reachable from it by calls of the public API.
\<close>

section \<open>Specification\<close>

text \<open>Frame number \<open>n\<close> is free, with the number as a natural.\<close>

definition free_at :: "pmm_state \<Rightarrow> nat \<Rightarrow> bool" where
  "free_at s n \<longleftrightarrow> frame_is_free s (of_nat n)"

text \<open>What the run search knows at frame \<open>f\<close>: the last \<open>n\<close> frames are free and no more, and no
  run of \<open>c\<close> free frames ends at or before \<open>f\<close>.\<close>

definition run_state :: "pmm_state \<Rightarrow> nat \<Rightarrow> nat \<Rightarrow> nat \<Rightarrow> bool" where
  "run_state s c f n \<longleftrightarrow>
     n < c \<and> n \<le> f \<and> (\<forall>k. f - n \<le> k \<and> k < f \<longrightarrow> free_at s k) \<and>
     (n < f \<longrightarrow> \<not> free_at s (f - n - 1)) \<and>
     (\<forall>r. r + c \<le> f \<longrightarrow> (\<exists>k. r \<le> k \<and> k < r + c \<and> \<not> free_at s k))"

text \<open>The frames of a run, and what handing a run out changes.\<close>

definition frame_run :: "u64 \<Rightarrow> u32 \<Rightarrow> u64 set" where
  "frame_run r count = {g. r \<le> g \<and> g < r + ucast count}"

definition has_run :: "pmm_state \<Rightarrow> u32 \<Rightarrow> bool" where
  "has_run s count \<longleftrightarrow> (\<exists>r. r + unat count \<le> unat (pmm_total_frames s) \<and>
     (\<forall>k. r \<le> k \<and> k < r + unat count \<longrightarrow> free_at s k))"

text \<open>The frame numbers region_mark_free walks for an entry of the map: from the frame that holds the
  first byte of the entry to the last frame that ends inside it.\<close>

definition entry_frames :: "u32 \<Rightarrow> mmap_entry \<Rightarrow> u64 set" where
  "entry_frames ram e = {g. mmap_type e = ram \<and> base_addr e div PMM_FRAME_SIZE \<le> g \<and>
     g < (base_addr e + length_of e) div PMM_FRAME_SIZE}"

text \<open>What the boot loader's map says, without the code's arithmetic: a frame is RAM when all its bytes
  lie in one RAM entry. The base of a RAM entry is page aligned and its end is an address in the maps
  of firmware that follows the usual layout; nothing in the code checks it.\<close>

definition ram_frame :: "mmap_entry list \<Rightarrow> u64 \<Rightarrow> bool" where
  "ram_frame es g \<longleftrightarrow> (\<exists>e \<in> set es. mmap_type e = HVM_MMAP_RAM \<and> unat (base_addr e) \<le> 4096 * unat g \<and>
     4096 * unat g + 4096 \<le> unat (base_addr e) + unat (length_of e))"

definition page_aligned_map :: "mmap_entry list \<Rightarrow> bool" where
  "page_aligned_map es \<longleftrightarrow> (\<forall>e \<in> set es. mmap_type e = HVM_MMAP_RAM \<longrightarrow>
     unat (base_addr e) mod 4096 = 0 \<and> unat (base_addr e) + unat (length_of e) < 2 ^ 64)"

text \<open>The records of a Multiboot2 memory-map tag: as many of \<open>esz\<close> bytes as fit between \<open>p\<close> and \<open>lim\<close>.\<close>

definition mb2_entries :: "(u64 \<Rightarrow> u8) \<Rightarrow> u64 \<Rightarrow> u64 \<Rightarrow> u64 \<Rightarrow> mmap_entry list" where
  "mb2_entries m esz lim p =
     map (\<lambda>i. mmap_entry_at m (p + of_nat i * esz)) [0..<(unat lim - unat p) div unat esz]"

text \<open>The entries of the boot loader's memory map, under either protocol.\<close>

definition boot_entries :: "(u64 \<Rightarrow> u8) \<Rightarrow> u32 \<Rightarrow> u32 \<Rightarrow> mmap_entry list" where
  "boot_entries m magic info =
     (if magic = MB2_BOOTLOADER_MAGIC then
        case mb2_find_tag m (\<lambda>t. t = MB2_TAG_MMAP) (ucast info + ucast (read_u32 m (ucast info))) (ucast info + 8) of
          Some (Some tag) \<Rightarrow>
            mb2_entries m (ucast (read_u32 m (tag + 8))) (tag + ucast (read_u32 m (tag + 4))) (tag + 16)
        | _ \<Rightarrow> []
      else hvm_entries m (read_u64 m (ucast info + 40)) (read_u32 m (ucast info + 48)))"

text \<open>The frames pmm_init takes back: the first megabyte and the kernel image behind it.\<close>

definition reserved_frames :: "u64 \<Rightarrow> u64 set" where
  "reserved_frames kend = {g. g < ALIGN_UP kend PMM_FRAME_SIZE div PMM_FRAME_SIZE}"

text \<open>The state pmm_init leaves for a list of entries.\<close>

definition boot_state :: "mmap_entry list \<Rightarrow> u64 \<Rightarrow> pmm_state \<Rightarrow> pmm_state" where
  "boot_state es kend s =
     region_mark_used 0x100000 (kend - 0x100000) (region_mark_used 0 0x100000
       ((fold (mark_step HVM_MMAP_RAM) es
          (pmm_reset (s\<lparr>pmm_total_frames := total_frames_of (fold (top_step HVM_MMAP_RAM) es 0)\<rparr>)))
        \<lparr>pmm_next_hint := 0\<rparr>))"

inductive pmm_reachable :: "(u64 \<Rightarrow> u8) \<Rightarrow> u64 \<Rightarrow> u32 \<Rightarrow> u32 \<Rightarrow> pmm_state \<Rightarrow> bool"
  for m kend magic info where
  init: "pmm_init m kend magic info s0 = Some s \<Longrightarrow> pmm_next_hint s0 = 0 \<Longrightarrow> pmm_reachable m kend magic info s"
| alloc: "pmm_reachable m kend magic info s \<Longrightarrow> pmm_alloc_frame s = (a, s') \<Longrightarrow>
    pmm_reachable m kend magic info s'"
| free: "pmm_reachable m kend magic info s \<Longrightarrow> pmm_free_frame a s = Some s' \<Longrightarrow>
    pmm_reachable m kend magic info s'"
| ref: "pmm_reachable m kend magic info s \<Longrightarrow> pmm_ref_frame a s = Some s' \<Longrightarrow>
    pmm_reachable m kend magic info s'"
| contiguous: "pmm_reachable m kend magic info s \<Longrightarrow> pmm_alloc_contiguous n s = (a, s') \<Longrightarrow>
    pmm_reachable m kend magic info s'"

text \<open>The pool and every reference are inside a set of frame numbers.\<close>

definition pool_within :: "u64 set \<Rightarrow> pmm_state \<Rightarrow> bool" where
  "pool_within R s \<longleftrightarrow> pmm_inv s \<and>
     (\<forall>a. a \<notin> (\<lambda>f. f * PMM_FRAME_SIZE) ` R \<longrightarrow> a \<notin> avail_frames s \<and> frame_refs s a = 0)"

section \<open>Runs of frames\<close>

lemma free_at_unat [simp]: "free_at s (unat f) = frame_is_free s f"
  by (simp add: free_at_def)

lemma run_state_start: "0 < c \<Longrightarrow> run_state s c 0 0"
  by (simp add: run_state_def)

lemma run_state_free:
  assumes "run_state s c f n" and "free_at s f" and "Suc n < c"
  shows "run_state s c (Suc f) (Suc n)"
proof -
  have "\<exists>k. r \<le> k \<and> k < r + c \<and> \<not> free_at s k" if "r + c \<le> Suc f" for r
  proof (cases "r + c \<le> f")
    case True
    then show ?thesis using assms(1) by (simp add: run_state_def)
  next
    case False
    then have "r \<le> f - n - 1" "f - n - 1 < r + c" "n < f"
      using that assms by (auto simp: run_state_def)
    then show ?thesis using assms(1) by (auto simp: run_state_def)
  qed
  moreover have "free_at s k" if "f - n \<le> k" "k < Suc f" for k
    using that assms(1,2) by (cases "k = f") (auto simp: run_state_def)
  ultimately show ?thesis
    using assms by (auto simp: run_state_def)
qed

lemma run_state_used:
  assumes "run_state s c f n" and "\<not> free_at s f"
  shows "run_state s c (Suc f) 0"
proof -
  have "\<exists>k. r \<le> k \<and> k < r + c \<and> \<not> free_at s k" if "r + c \<le> Suc f" for r
  proof (cases "r + c \<le> f")
    case True
    then show ?thesis using assms(1) by (simp add: run_state_def)
  next
    case False
    then show ?thesis using that assms by (intro exI [of _ f]) (auto simp: run_state_def)
  qed
  then show ?thesis using assms by (auto simp: run_state_def)
qed

lemma pmm_find_run_spec:
  assumes "run_state s (unat count) (unat f) (unat run_len)" and "f \<le> pmm_total_frames s"
    and "run_len \<noteq> 0 \<longrightarrow> unat run_start = unat f - unat run_len"
  shows "case pmm_find_run s count f run_start run_len of
      Some r \<Rightarrow> unat r + unat count \<le> unat (pmm_total_frames s) \<and>
        (\<forall>k. unat r \<le> k \<and> k < unat r + unat count \<longrightarrow> free_at s k)
    | None \<Rightarrow> \<forall>r. r + unat count \<le> unat (pmm_total_frames s) \<longrightarrow>
        (\<exists>k. r \<le> k \<and> k < r + unat count \<and> \<not> free_at s k)"
  using assms
proof (induction s count f run_start run_len rule: pmm_find_run.induct)
  case (1 s count f run_start run_len)
  let ?st = "if run_len = 0 then f else run_start"
  show ?case
  proof (cases "f < pmm_total_frames s")
    case False
    then have "pmm_find_run s count f run_start run_len = None"
      by (simp add: pmm_find_run.simps [of s count f run_start run_len])
    moreover have "f = pmm_total_frames s" using "1.prems"(2) False by simp
    ultimately show ?thesis using "1.prems"(1) by (simp add: run_state_def)
  next
    case True
    then have Suc_f: "unat (f + 1) = Suc (unat f)" by (rule unat_plus1_less)
    have next_le: "f + 1 \<le> pmm_total_frames s" using True by (simp add: plus1_le_iff_less)
    have "run_len < count" using "1.prems"(1) by (simp add: run_state_def word_less_nat_alt)
    then have Suc_len: "unat (run_len + 1) = Suc (unat run_len)" by (rule unat_plus1_less)
    have st: "unat ?st = unat f - unat run_len" using "1.prems"(3) by auto
    have le: "unat run_len \<le> unat f" using "1.prems"(1) by (simp add: run_state_def)
    consider "\<not> frame_is_free s f"
      | "frame_is_free s f" "run_len + 1 = count" | "frame_is_free s f" "run_len + 1 \<noteq> count"
      by blast
    then show ?thesis
    proof cases
      case 1
      then have eq: "pmm_find_run s count f run_start run_len = pmm_find_run s count (f + 1) run_start 0"
        using True by (simp add: pmm_find_run.simps [of s count f run_start run_len])
      have "run_state s (unat count) (unat (f + 1)) (unat (0::u32))"
        using run_state_used [OF "1.prems"(1)] 1 by (simp add: Suc_f)
      then show ?thesis unfolding eq
        using "1.IH"(2) [OF True 1] next_le by simp
    next
      case 2
      then have eq: "pmm_find_run s count f run_start run_len = Some ?st"
        using True by (simp add: pmm_find_run.simps [of s count f run_start run_len] Let_def)
      have c: "unat count = Suc (unat run_len)" using 2 Suc_len by auto
      have "free_at s k" if "unat f - unat run_len \<le> k" "k < Suc (unat f)" for k
        using that "1.prems"(1) 2(1) by (cases "k = unat f") (auto simp: run_state_def)
      then show ?thesis
        using True le by (auto simp: eq st c word_less_nat_alt)
    next
      case 3
      then have eq: "pmm_find_run s count f run_start run_len = pmm_find_run s count (f + 1) ?st (run_len + 1)"
        using True by (simp add: pmm_find_run.simps [of s count f run_start run_len] Let_def)
      have "Suc (unat run_len) < unat count"
        using 3(2) \<open>run_len < count\<close> Suc_len by (metis Suc_lessI word_less_nat_alt word_unat_eq_iff)
      then have "run_state s (unat count) (unat (f + 1)) (unat (run_len + 1))"
        using run_state_free [OF "1.prems"(1)] 3(1) by (simp add: Suc_f Suc_len)
      moreover have "unat ?st = unat (f + 1) - unat (run_len + 1)"
        by (simp add: st Suc_f Suc_len)
      ultimately show ?thesis unfolding eq
        using "1.IH"(1) [OF True 3(1) refl refl 3(2)] next_le by simp
    qed
  qed
qed

lemma pmm_claim_run_spec:
  assumes "j \<le> e"
  shows "frame_is_free (pmm_claim_run j e s) g \<longleftrightarrow> frame_is_free s g \<and> \<not> (j \<le> g \<and> g < e)"
    and "pmm_refcount (pmm_claim_run j e s) g = (if j \<le> g \<and> g < e then 1 else pmm_refcount s g)"
    and "pmm_total_frames (pmm_claim_run j e s) = pmm_total_frames s"
    and "pmm_free_frames (pmm_claim_run j e s) = pmm_free_frames s"
    and "pmm_next_hint (pmm_claim_run j e s) = pmm_next_hint s"
proof -
  have "(frame_is_free (pmm_claim_run j e s) g \<longleftrightarrow> frame_is_free s g \<and> \<not> (j \<le> g \<and> g < e)) \<and>
    pmm_refcount (pmm_claim_run j e s) g = (if j \<le> g \<and> g < e then 1 else pmm_refcount s g) \<and>
    pmm_total_frames (pmm_claim_run j e s) = pmm_total_frames s \<and>
    pmm_free_frames (pmm_claim_run j e s) = pmm_free_frames s \<and>
    pmm_next_hint (pmm_claim_run j e s) = pmm_next_hint s"
    using assms
  proof (induction j e s rule: pmm_claim_run.induct)
    case (1 j e s)
    show ?case
    proof (cases "j < e")
      case True
      define s' where "s' = (frame_set_used j s)\<lparr>pmm_refcount := (pmm_refcount s)(j := 1)\<rparr>"
      have eq: "pmm_claim_run j e s = pmm_claim_run (j + 1) e s'"
        using True by (simp add: pmm_claim_run.simps [of j e s] s'_def Let_def)
      have "j + 1 \<le> e" using True by (simp add: plus1_le_iff_less)
      moreover have "j \<le> g \<longleftrightarrow> g = j \<or> j + 1 \<le> g" by (rule range_step [OF True])
      moreover have "\<not> j + 1 \<le> j" using True by (simp add: plus1_le_iff_less)
      ultimately show ?thesis
        using "1.IH" [OF True refl] True
        unfolding eq by (auto simp: s'_def)
    next
      case False
      then have "pmm_claim_run j e s = s" by (simp add: pmm_claim_run.simps [of j e s])
      with False show ?thesis by auto
    qed
  qed
  then show "frame_is_free (pmm_claim_run j e s) g \<longleftrightarrow> frame_is_free s g \<and> \<not> (j \<le> g \<and> g < e)"
    and "pmm_refcount (pmm_claim_run j e s) g = (if j \<le> g \<and> g < e then 1 else pmm_refcount s g)"
    and "pmm_total_frames (pmm_claim_run j e s) = pmm_total_frames s"
    and "pmm_free_frames (pmm_claim_run j e s) = pmm_free_frames s"
    and "pmm_next_hint (pmm_claim_run j e s) = pmm_next_hint s"
    by blast+
qed

lemma pmm_find_run_iff:
  assumes "count \<noteq> 0"
  shows "case pmm_find_run s count 0 0 0 of
      Some r \<Rightarrow> frame_run r count \<subseteq> free_set s \<and> unat r + unat count \<le> unat (pmm_total_frames s)
    | None \<Rightarrow> \<not> has_run s count"
proof -
  have "run_state s (unat count) (unat (0::u64)) (unat (0::u32))"
    using assms by (simp add: run_state_start unat_gt_0)
  from pmm_find_run_spec [OF this, of 0] have
    spec: "case pmm_find_run s count 0 0 0 of
      Some r \<Rightarrow> unat r + unat count \<le> unat (pmm_total_frames s) \<and>
        (\<forall>k. unat r \<le> k \<and> k < unat r + unat count \<longrightarrow> free_at s k)
    | None \<Rightarrow> \<forall>r. r + unat count \<le> unat (pmm_total_frames s) \<longrightarrow>
        (\<exists>k. r \<le> k \<and> k < r + unat count \<and> \<not> free_at s k)" by simp
  show ?thesis
  proof (cases "pmm_find_run s count 0 0 0")
    case None
    then show ?thesis using spec by (fastforce simp: has_run_def)
  next
    case (Some r)
    then have le: "unat r + unat count \<le> unat (pmm_total_frames s)" using spec by simp
    then have u: "unat (r + ucast count) = unat r + unat count"
      using unat_add_below [of r "ucast count" "pmm_total_frames s"] by simp
    have "frame_is_free s g" if "unat r \<le> unat g" "unat g < unat r + unat count" for g
      using spec Some that free_at_unat [of s g] by (simp del: free_at_unat)
    then show ?thesis
      using Some le by (auto simp: frame_run_def free_set_def word_le_nat_alt word_less_nat_alt u)
  qed
qed

lemma pmm_alloc_contiguous_spec:
  assumes "pmm_inv s" and "count \<noteq> 0"
  shows "if has_run s count then
      \<exists>r s'. pmm_alloc_contiguous count s = (r * PMM_FRAME_SIZE, s') \<and>
        unat r + unat count \<le> unat (pmm_total_frames s) \<and>
        frame_run r count \<subseteq> free_set s \<and> free_set s' = free_set s - frame_run r count \<and>
        (\<forall>g. pmm_refcount s' g = (if g \<in> frame_run r count then 1 else pmm_refcount s g)) \<and>
        pmm_total_frames s' = pmm_total_frames s \<and> pmm_inv s'
    else pmm_alloc_contiguous count s = (PMM_ALLOC_FAILED, s)"
proof (cases "pmm_find_run s count 0 0 0")
  case None
  then show ?thesis
    using pmm_find_run_iff [OF assms(2), of s] by (simp add: pmm_alloc_contiguous_def)
next
  case (Some r)
  then have run: "frame_run r count \<subseteq> free_set s" "unat r + unat count \<le> unat (pmm_total_frames s)"
    using pmm_find_run_iff [OF assms(2), of s] by simp_all
  let ?e = "r + ucast count"
  have u: "unat ?e = unat r + unat count"
    using run(2) unat_add_below [of r "ucast count" "pmm_total_frames s"] by simp
  then have le: "r \<le> ?e" by (simp add: word_le_nat_alt)
  have card: "card (frame_run r count) = unat count"
    using card_word_range [OF le] by (simp add: frame_run_def u)
  with run(1) have enough: "unat count \<le> unat (pmm_free_frames s)"
    using assms(1) card_mono [OF finite_free_set run(1)] by (simp add: pmm_inv_def)
  have has: "has_run s count"
    unfolding has_run_def
  proof (intro exI conjI allI impI)
    show "unat r + unat count \<le> unat (pmm_total_frames s)" by (rule run(2))
    fix k assume k: "unat r \<le> k \<and> k < unat r + unat count"
    then have "unat (of_nat k :: u64) = k"
      using run(2) unat_of_nat_below [of k "pmm_total_frames s"] by simp
    with k have "of_nat k \<in> frame_run r count"
      by (simp add: frame_run_def word_le_nat_alt word_less_nat_alt u)
    with run(1) show "free_at s k" by (auto simp: free_at_def free_set_def)
  qed
  define s' where "s' = (pmm_claim_run r ?e s)\<lparr>pmm_free_frames := pmm_free_frames s - ucast count\<rparr>"
  have eq: "pmm_alloc_contiguous count s = (r * PMM_FRAME_SIZE, s')"
    using Some assms(2) enough
    by (simp add: pmm_alloc_contiguous_def s'_def Let_def pmm_claim_run_spec [OF le] word_less_nat_alt)
  have fs: "free_set s' = free_set s - frame_run r count"
    by (auto simp: free_set_def s'_def frame_run_def pmm_claim_run_spec [OF le])
  have rc: "pmm_refcount s' g = (if g \<in> frame_run r count then 1 else pmm_refcount s g)" for g
    by (simp add: s'_def frame_run_def pmm_claim_run_spec [OF le])
  have "unat (pmm_free_frames s - ucast count) = unat (pmm_free_frames s) - unat count"
    using enough by (simp add: unat_sub word_le_nat_alt)
  then have inv: "pmm_inv s'"
    using assms(1) card run(1) rc fs
    by (simp add: pmm_inv_def card_Diff_subset) (simp add: s'_def pmm_claim_run_spec [OF le])
  have tot: "pmm_total_frames s' = pmm_total_frames s"
    by (simp add: s'_def pmm_claim_run_spec [OF le])
  have "\<exists>r s'. pmm_alloc_contiguous count s = (r * PMM_FRAME_SIZE, s') \<and>
        unat r + unat count \<le> unat (pmm_total_frames s) \<and>
        frame_run r count \<subseteq> free_set s \<and> free_set s' = free_set s - frame_run r count \<and>
        (\<forall>g. pmm_refcount s' g = (if g \<in> frame_run r count then 1 else pmm_refcount s g)) \<and>
        pmm_total_frames s' = pmm_total_frames s \<and> pmm_inv s'"
    using eq run fs rc inv tot by blast
  with has show ?thesis by simp
qed

lemma pmm_free_frames_card:
  assumes "pmm_inv s"
  shows "unat (pmm_free_frames s) = card (avail_frames s)"
proof -
  have "inj_on (\<lambda>f. f * PMM_FRAME_SIZE) (free_set s)"
    using free_set_below [OF assms] by (auto simp: inj_on_def inj_frame_addr)
  then show ?thesis using assms by (simp add: avail_frames_def card_image pmm_inv_def)
qed

lemma avail_frames_aligned: "a \<in> avail_frames s \<Longrightarrow> a AND (PMM_FRAME_SIZE - 1) = 0"
  by (auto simp: avail_frames_def)

text \<open>The allocation loop of the self-test is the client loop of the interface.\<close>

lemma pmm_selftest_alloc_eq:
  assumes "pmm_inv s" and "0 \<notin> avail_frames s" and "n \<le> card (avail_frames s)"
  shows "pmm_selftest_alloc n s = Some (alloc_list pmm_alloc_frame n s)"
  using assms
proof (induction n arbitrary: s)
  case 0
  then show ?case by simp
next
  case (Suc n)
  then have "avail_frames s \<noteq> {}" by auto
  from pmm.alloc_frame [OF Suc.prems(1) this] obtain a t where
    a: "pmm_alloc_frame s = (a, t)" "a \<in> avail_frames s" "pmm_inv t" "avail_frames t = avail_frames s - {a}"
    by blast
  have "a \<noteq> PMM_ALLOC_FAILED" "a \<noteq> 0" using a(2) pmm.failed_not_avail [OF Suc.prems(1)] Suc.prems(2) by auto
  moreover have "n \<le> card (avail_frames t)"
    using Suc.prems(3) a(2,4) pmm.finite_avail [of s] by simp
  then have "pmm_selftest_alloc n t = Some (alloc_list pmm_alloc_frame n t)"
    using Suc.IH [OF a(3)] a(4) Suc.prems(2) by simp
  ultimately show ?case
    using a(1) avail_frames_aligned [OF a(2)] by (auto split: prod.splits)
qed

lemma owned_frame_used:
  assumes "0 < frame_refs s a"
  shows "\<not> frame_is_free s (a div PMM_FRAME_SIZE)"
  using frame_refs_pos [OF assms] by metis

text \<open>The addresses of a run are its frames.\<close>

lemma run_addrs:
  assumes "pmm_inv s" and "unat r + unat count \<le> unat (pmm_total_frames s)"
    and a: "a \<in> set (map (\<lambda>i. r * PMM_FRAME_SIZE + of_nat i * PMM_FRAME_SIZE) [0..<unat count])"
  shows "\<exists>f \<in> frame_run r count. a = f * PMM_FRAME_SIZE"
proof -
  from a obtain i where i: "i < unat count" "a = r * PMM_FRAME_SIZE + of_nat i * PMM_FRAME_SIZE" by auto
  have ui: "unat (of_nat i :: u64) = i"
    using i(1) assms(2) unat_of_nat_below [of i "pmm_total_frames s"] by simp
  have u: "unat (r + of_nat i) = unat r + i" "unat (r + ucast count) = unat r + unat count"
    using assms(2) i(1) unat_add_below [of r "of_nat i" "pmm_total_frames s"]
      unat_add_below [of r "ucast count" "pmm_total_frames s"] by (simp_all add: ui)
  show ?thesis
  proof (intro bexI)
    show "a = (r + of_nat i) * PMM_FRAME_SIZE" unfolding i(2) distrib_right ..
    show "r + of_nat i \<in> frame_run r count"
      using i(1) by (simp add: frame_run_def word_le_nat_alt word_less_nat_alt u)
  qed
qed

lemma pmm_free_run:
  assumes inv: "pmm_inv s" and r: "unat r + unat count \<le> unat (pmm_total_frames s)"
    and own: "\<forall>f \<in> frame_run r count. frame_refs s (f * PMM_FRAME_SIZE) = 1"
  shows "\<exists>s'. free_list pmm_free_frame (map (\<lambda>i. r * PMM_FRAME_SIZE + of_nat i * PMM_FRAME_SIZE) [0..<unat count]) s
      = Some s' \<and> pmm_inv s' \<and> avail_frames s' = avail_frames s \<union> (\<lambda>f. f * PMM_FRAME_SIZE) ` frame_run r count"
proof -
  let ?as = "map (\<lambda>i. r * PMM_FRAME_SIZE + of_nat i * PMM_FRAME_SIZE) [0..<unat count]"
  have max: "unat r + unat count \<le> 2 ^ 20" using r pmm_inv_total [OF inv] by simp
  have addr: "unat (r * PMM_FRAME_SIZE + of_nat i * PMM_FRAME_SIZE) = (unat r + i) * 4096"
    if "i < unat count" for i
  proof -
    have "unat (of_nat i :: u64) = i"
      using that max by (simp add: unat_of_nat)
    then have "unat (r + of_nat i) = unat r + i" using that max by (simp add: unat_word_ariths(1))
    moreover from this have "r + of_nat i < PMM_MAX_FRAMES"
      using that max by (simp add: PMM_MAX_FRAMES_eq word_less_nat_alt)
    ultimately have "unat ((r + of_nat i) * PMM_FRAME_SIZE) = (unat r + i) * 4096"
      using unat_frame_addr [of "r + of_nat i"] by simp
    then show ?thesis unfolding distrib_right .
  qed
  have inj: "inj_on (\<lambda>i. r * PMM_FRAME_SIZE + of_nat i * PMM_FRAME_SIZE) {0..<unat count}"
  proof (rule inj_onI)
    fix i j assume "i \<in> {0..<unat count}" "j \<in> {0..<unat count}"
      and eq: "r * PMM_FRAME_SIZE + of_nat i * PMM_FRAME_SIZE = r * PMM_FRAME_SIZE + of_nat j * PMM_FRAME_SIZE"
    then have "(unat r + i) * 4096 = (unat r + j) * 4096"
      using addr [of i, symmetric] addr [of j] by (simp only: atLeastLessThan_iff)
    then show "i = j" by simp
  qed
  then have dist: "distinct ?as" by (simp add: distinct_map)
  have sub: "set ?as \<subseteq> (\<lambda>f. f * PMM_FRAME_SIZE) ` frame_run r count"
    using run_addrs [OF inv r] by blast
  have u: "unat (r + ucast count) = unat r + unat count"
    using r unat_add_below [of r "ucast count" "pmm_total_frames s"] by simp
  then have "card (frame_run r count) = unat count"
    using card_word_range [of r "r + ucast count"] by (simp add: frame_run_def word_le_nat_alt)
  then have "card ((\<lambda>f. f * PMM_FRAME_SIZE) ` frame_run r count) \<le> card (set ?as)"
    using card_image_le [of "frame_run r count" "\<lambda>f. f * PMM_FRAME_SIZE"] distinct_card [OF dist] by simp
  with sub have seteq: "set ?as = (\<lambda>f. f * PMM_FRAME_SIZE) ` frame_run r count"
    by (intro card_seteq) auto
  have "\<forall>a \<in> set ?as. frame_refs s a = 1" unfolding seteq using own by auto
  from pmm.free_list_ok [OF inv dist this] show ?thesis unfolding seteq by blast
qed

lemma has_run_mono:
  assumes "has_run s c" and "free_set s \<subseteq> free_set s'" and "c \<noteq> 0"
  shows "has_run s' c"
proof -
  from assms(1) obtain r where r: "r + unat c \<le> unat (pmm_total_frames s)"
    "\<And>k. r \<le> k \<Longrightarrow> k < r + unat c \<Longrightarrow> free_at s k" by (auto simp: has_run_def)
  have step: "k < unat (pmm_total_frames s') \<and> free_at s' k" if k: "r \<le> k" "k < r + unat c" for k
  proof -
    have u: "unat (of_nat k :: u64) = k" using r(1) k unat_of_nat_below [of k "pmm_total_frames s"] by simp
    then have "of_nat k \<in> free_set s" using r k by (simp add: free_set_def free_at_def word_less_nat_alt)
    then have "of_nat k \<in> free_set s'" using assms(2) by blast
    then show ?thesis using u by (simp add: free_set_def free_at_def word_less_nat_alt)
  qed
  have "0 < unat c" using assms(3) by (simp add: unat_gt_0)
  then have "r + unat c \<le> unat (pmm_total_frames s')" using step [of "r + unat c - 1"] by linarith
  with step show ?thesis unfolding has_run_def by blast
qed

lemma free_set_eq_avail:
  assumes "pmm_inv s" and "pmm_inv s'" and "avail_frames s = avail_frames s'"
  shows "free_set s = free_set s'"
proof -
  have "inj_on (\<lambda>f. f * PMM_FRAME_SIZE) (free_set s \<union> free_set s')"
    using free_set_below [OF assms(1)] free_set_below [OF assms(2)]
    by (auto simp: inj_on_def inj_frame_addr)
  then show ?thesis using assms(3) by (auto simp: avail_frames_def inj_on_image_eq_iff)
qed

lemma mark_step_spec:
  assumes "pmm_inv s"
  shows "pmm_inv (mark_step ram e s) \<and>
    pmm_total_frames (mark_step ram e s) = pmm_total_frames s \<and>
    pmm_next_hint (mark_step ram e s) = pmm_next_hint s \<and>
    (\<forall>g. frame_is_free (mark_step ram e s) g \<longleftrightarrow>
       frame_is_free s g \<or> g \<in> entry_frames ram e \<and> g < pmm_total_frames s)"
  using region_mark_free_loop_spec [OF assms] assms
  by (simp add: mark_step_def region_mark_free_def entry_frames_def Let_def)

lemma fold_mark_step_spec:
  assumes "pmm_inv s"
  shows "pmm_inv (fold (mark_step ram) es s) \<and>
    pmm_total_frames (fold (mark_step ram) es s) = pmm_total_frames s \<and>
    pmm_next_hint (fold (mark_step ram) es s) = pmm_next_hint s \<and>
    (\<forall>g. frame_is_free (fold (mark_step ram) es s) g \<longleftrightarrow>
       frame_is_free s g \<or> (\<exists>e \<in> set es. g \<in> entry_frames ram e) \<and> g < pmm_total_frames s)"
  using assms
proof (induction es arbitrary: s)
  case Nil
  then show ?case by simp
next
  case (Cons e es)
  then show ?case using mark_step_spec [OF Cons.prems, of ram e] Cons.IH [of "mark_step ram e s"] by auto
qed

lemma total_frames_of_le: "total_frames_of t \<le> PMM_MAX_FRAMES"
proof -
  have "unat (if t > PMM_MAX_PHYS then PMM_MAX_PHYS else t) \<le> unat PMM_MAX_PHYS"
    by (simp add: word_le_nat_alt word_less_nat_alt)
  then have "unat (total_frames_of t) \<le> unat PMM_MAX_PHYS div unat PMM_FRAME_SIZE"
    unfolding total_frames_of_def unat_div_distrib by (rule div_le_mono)
  then show ?thesis
    by (simp add: PMM_MAX_FRAMES_def word_le_nat_alt unat_div_distrib)
qed

lemma pmm_reset_ok:
  assumes "pmm_next_hint s = 0"
  shows "pmm_inv (pmm_reset (s\<lparr>pmm_total_frames := total_frames_of t\<rparr>))"
    and "\<not> frame_is_free (pmm_reset s) g"
    and "pmm_total_frames (pmm_reset s) = pmm_total_frames s"
proof -
  have none: "\<not> frame_is_free (pmm_reset s) g" for s :: pmm_state and g
    using bit_full_byte [of "unat (g AND 7)"] low3_bound [of g]
    by (simp add: frame_is_free_bit pmm_reset_def)
  then show "\<not> frame_is_free (pmm_reset s) g" .
  have "free_set (pmm_reset (s\<lparr>pmm_total_frames := total_frames_of t\<rparr>)) = {}"
    using none by (simp add: free_set_def)
  then show "pmm_inv (pmm_reset (s\<lparr>pmm_total_frames := total_frames_of t\<rparr>))"
    using assms total_frames_of_le none by (simp add: pmm_inv_def pmm_reset_def)
qed (simp add: pmm_reset_def)

section \<open>The Multiboot2 loops\<close>

text \<open>A tag whose \<open>entry_size\<close> is 0 stops the kernel in the entry loop; any other size ends after the
  entries that fit.\<close>

lemma mb2_foreach_size_0:
  assumes "p \<le> lim"
  shows "mb2_foreach m 0 lim body p s = None"
proof -
  have "mb2_foreach m esz lim body p s = Some r \<Longrightarrow> esz \<noteq> 0 \<or> \<not> p \<le> lim" for esz r
    by (rule mb2_foreach.raw_induct
        [where P = "\<lambda>m esz lim body p s r. esz \<noteq> 0 \<or> \<not> p \<le> lim"]) (auto split: if_splits)
  then show ?thesis using assms by (metis not_None_eq)
qed

lemma mb2_entries_unfold:
  assumes "esz \<noteq> 0" and "unat p + unat esz < 2 ^ 64"
  shows "mb2_entries m esz lim p =
    (if p + esz \<le> lim then mmap_entry_at m p # mb2_entries m esz lim (p + esz) else [])"
proof -
  have u: "unat (p + esz) = unat p + unat esz" using assms(2) by (simp add: unat_word_ariths(1))
  have pos: "0 < unat esz" using assms(1) by (simp add: unat_gt_0)
  show ?thesis
  proof (cases "p + esz \<le> lim")
    case True
    then have le: "unat esz \<le> unat lim - unat p" using u by (simp add: word_le_nat_alt)
    have "(unat lim - unat p) div unat esz = Suc ((unat lim - unat (p + esz)) div unat esz)"
      using le_div_geq [OF pos le] u by simp
    then show ?thesis using True
      by (simp add: mb2_entries_def upt_conv_Cons map_Suc_upt [symmetric] algebra_simps
          del: upt_Suc)
  next
    case False
    then have "unat lim - unat p < unat esz" using u pos by (auto simp: word_le_nat_alt)
    then show ?thesis using False by (simp add: mb2_entries_def)
  qed
qed

lemma mb2_foreach_total:
  assumes "esz \<noteq> 0" and "unat p + unat esz < 2 ^ 64" and "unat lim + unat esz < 2 ^ 64"
  shows "mb2_foreach m esz lim body p s = Some (fold body (mb2_entries m esz lim p) s)"
  using assms(2)
proof (induction "unat lim - unat p" arbitrary: p s rule: less_induct)
  case less
  have u: "unat (p + esz) = unat p + unat esz" using less.prems by (simp add: unat_word_ariths(1))
  have pos: "0 < unat esz" using assms(1) by (simp add: unat_gt_0)
  show ?case
  proof (cases "p + esz \<le> lim")
    case True
    then have "unat p + unat esz \<le> unat lim" using u by (simp add: word_le_nat_alt)
    then have "mb2_foreach m esz lim body (p + esz) (body (mmap_entry_at m p) s) =
        Some (fold body (mb2_entries m esz lim (p + esz)) (body (mmap_entry_at m p) s))"
      using assms(3) pos u by (intro less.hyps) auto
    then show ?thesis
      using True mb2_entries_unfold [OF assms(1) less.prems] by (subst mb2_foreach.simps) simp
  next
    case False
    then show ?thesis
      using mb2_entries_unfold [OF assms(1) less.prems] by (subst mb2_foreach.simps) simp
  qed
qed

text \<open>The tag lies below 8 GiB, since the information structure starts below 4 GiB and its size is a 32-bit
  number; so no address of the entry loop wraps.\<close>

lemma mb2_find_tag_below:
  assumes "mb2_find_tag m w lim p = Some (Some tag)"
  shows "tag < lim"
proof -
  have "case r of None \<Rightarrow> True | Some tag \<Rightarrow> tag < lim" if "mb2_find_tag m w lim p = Some r" for r
    by (rule mb2_find_tag.raw_induct
        [where P = "\<lambda>m w lim p r. case r of None \<Rightarrow> True | Some tag \<Rightarrow> tag < lim", OF _ that])
      (auto split: if_splits)
  from this [OF assms] show ?thesis by simp
qed

lemma unat_add_bound:
  assumes "unat (a :: u64) < n" and "unat (b :: u64) < k" and "n + k \<le> 2 ^ 64"
  shows "unat (a + b) = unat a + unat b"
  using assms by (simp add: unat_word_ariths(1))

lemma u32_bound: "unat (ucast (x :: u32) :: u64) < 2 ^ 32"
proof -
  show ?thesis using unsigned_less [of x, where 'a = nat] by simp
qed

lemma mb2_foreach_boot:
  assumes tag: "mb2_find_tag m w (ucast (info :: u32) + ucast (n :: u32)) p = Some (Some tag)"
    and run: "mb2_foreach m (ucast (read_u32 m (tag + 8))) (tag + ucast (read_u32 m (tag + 4))) body (tag + 16) s = Some s'"
  shows "s' = fold body (mb2_entries m (ucast (read_u32 m (tag + 8))) (tag + ucast (read_u32 m (tag + 4))) (tag + 16)) s"
proof -
  let ?esz = "ucast (read_u32 m (tag + 8)) :: u64" and ?sz = "ucast (read_u32 m (tag + 4)) :: u64"
  note lt32 = u32_bound [of info] u32_bound [of n] u32_bound [of "read_u32 m (tag + 8)"]
    u32_bound [of "read_u32 m (tag + 4)"]
  have "unat (ucast info + ucast n :: u64) = unat (ucast info :: u64) + unat (ucast n :: u64)"
    by (rule unat_add_bound [OF lt32(1,2)]) simp
  then have t: "unat tag < 2 ^ 33"
    using mb2_find_tag_below [OF tag] lt32(1,2) by (simp add: word_less_nat_alt)
  have p: "unat (tag + 16) = unat tag + 16" using unat_add_bound [OF t, of 16 17] by simp
  have l: "unat (tag + ?sz) = unat tag + unat ?sz" by (rule unat_add_bound [OF t lt32(4)]) simp
  show ?thesis
  proof (cases "?esz = 0")
    case True
    then have "\<not> tag + 16 \<le> tag + ?sz" using run mb2_foreach_size_0 by (metis option.distinct(1))
    then have "s' = s" using run True by (subst (asm) mb2_foreach.simps) simp
    then show ?thesis using True by (simp add: mb2_entries_def)
  next
    case False
    show ?thesis
      using mb2_foreach_total [OF False, of "tag + 16" "tag + ?sz" m body s] p l t lt32(3,4) run by simp
  qed
qed

section \<open>Initialisation\<close>

text \<open>Either parser leaves the frames of RAM entries free, and only those.\<close>

lemma parsed_state:
  assumes "pmm_next_hint s = 0"
  shows "pmm_inv (fold (mark_step ram) es (pmm_reset (s\<lparr>pmm_total_frames := total_frames_of t\<rparr>))) \<and>
    free_set (fold (mark_step ram) es (pmm_reset (s\<lparr>pmm_total_frames := total_frames_of t\<rparr>))) =
      {g. g < total_frames_of t \<and> (\<exists>e \<in> set es. g \<in> entry_frames ram e)}"
  using fold_mark_step_spec [OF pmm_reset_ok(1) [OF assms], of ram es t]
    pmm_reset_ok(2,3) [of "s\<lparr>pmm_total_frames := total_frames_of t\<rparr>"] assms
  by (auto simp: free_set_def)

lemma pmm_parse_pvh_eq:
  assumes "read_u32 m (ucast info) = HVM_START_MAGIC"
  shows "pmm_parse_pvh m info s =
    (let es = hvm_entries m (read_u64 m (ucast info + 40)) (read_u32 m (ucast info + 48)) in
     Some (fold (mark_step HVM_MMAP_RAM) es
       (pmm_reset (s\<lparr>pmm_total_frames := total_frames_of (fold (top_step HVM_MMAP_RAM) es 0)\<rparr>))))"
  using assms by (simp add: pmm_parse_pvh_def pmm_calc_total_frames_pvh_def Let_def)

lemma RAM_types [simp]: "MB2_MMAP_AVAILABLE = HVM_MMAP_RAM"
  by (simp add: MB2_MMAP_AVAILABLE_def HVM_MMAP_RAM_def)

lemma pmm_parse_mb2_eq:
  assumes "pmm_parse_mb2 m info s = Some s'"
  shows "let es = boot_entries m MB2_BOOTLOADER_MAGIC info in
    s' = fold (mark_step HVM_MMAP_RAM) es
      (pmm_reset (s\<lparr>pmm_total_frames := total_frames_of (fold (top_step HVM_MMAP_RAM) es 0)\<rparr>))"
proof -
  from assms obtain tag t where
    tag: "mb2_find_tag m (\<lambda>t. t = MB2_TAG_MMAP) (ucast info + ucast (read_u32 m (ucast info))) (ucast info + 8) = Some (Some tag)"
    and top: "mb2_foreach m (ucast (read_u32 m (tag + 8))) (tag + ucast (read_u32 m (tag + 4)))
       (top_step HVM_MMAP_RAM) (tag + 16) 0 = Some t"
    and run: "mb2_foreach m (ucast (read_u32 m (tag + 8))) (tag + ucast (read_u32 m (tag + 4)))
       (mark_step HVM_MMAP_RAM) (tag + 16)
       (pmm_reset (s\<lparr>pmm_total_frames := total_frames_of t\<rparr>)) = Some s'"
    by (auto simp: pmm_parse_mb2_def pmm_calc_total_frames_mb2_def Let_def split: bind_splits)
  from mb2_foreach_boot [OF tag top] mb2_foreach_boot [OF tag run] tag show ?thesis
    by (simp add: boot_entries_def Let_def)
qed

lemma pmm_parse_pvh_boot:
  assumes "pmm_parse_pvh m info s = Some s'" and "magic \<noteq> MB2_BOOTLOADER_MAGIC"
  shows "let es = boot_entries m magic info in
    s' = fold (mark_step HVM_MMAP_RAM) es
      (pmm_reset (s\<lparr>pmm_total_frames := total_frames_of (fold (top_step HVM_MMAP_RAM) es 0)\<rparr>))"
proof -
  have "read_u32 m (ucast info) = HVM_START_MAGIC"
    using assms(1) by (auto simp: pmm_parse_pvh_def Let_def split: if_splits)
  from pmm_parse_pvh_eq [OF this] assms show ?thesis
    by (simp add: Let_def boot_entries_def)
qed

lemma pmm_inv_hint: "pmm_inv s \<Longrightarrow> pmm_inv (s\<lparr>pmm_next_hint := 0\<rparr>)"
proof -
  have "frame_is_free (s\<lparr>pmm_next_hint := 0\<rparr>) = frame_is_free s"
    by (simp add: frame_is_free_def fun_eq_iff)
  then show "pmm_inv s \<Longrightarrow> pmm_inv (s\<lparr>pmm_next_hint := 0\<rparr>)"
    by (simp add: pmm_inv_def free_set_def)
qed

lemma reserve_spec:
  assumes "pmm_inv s" and "0x100000 \<le> kend"
  shows "pmm_inv (region_mark_used 0x100000 (kend - 0x100000)
           (region_mark_used 0 0x100000 (s\<lparr>pmm_next_hint := 0\<rparr>))) \<and>
    free_set (region_mark_used 0x100000 (kend - 0x100000)
           (region_mark_used 0 0x100000 (s\<lparr>pmm_next_hint := 0\<rparr>))) =
      free_set s - reserved_frames kend - {g. g < 0x100}"
proof -
  let ?s0 = "s\<lparr>pmm_next_hint := 0\<rparr>"
  let ?s1 = "region_mark_used 0 0x100000 ?s0"
  have fs0: "frame_is_free ?s0 = frame_is_free s" by (simp add: frame_is_free_def fun_eq_iff)
  have inv0: "pmm_inv ?s0" by (rule pmm_inv_hint [OF assms(1)])
  have 1: "0 div PMM_FRAME_SIZE = 0" "ALIGN_UP (0 + 0x100000) PMM_FRAME_SIZE div PMM_FRAME_SIZE = 0x100"
    "0x100000 div PMM_FRAME_SIZE = 0x100"
    by (simp_all add: ALIGN_UP_def PMM_FRAME_SIZE_def)
  note s1 = region_mark_used_loop_spec [OF inv0, of 0 "0x100"]
  have inv1: "pmm_inv ?s1" using s1 unfolding region_mark_used_def Let_def 1 by blast
  have lim: "ALIGN_UP (0x100000 + (kend - 0x100000)) PMM_FRAME_SIZE div PMM_FRAME_SIZE =
      ALIGN_UP kend PMM_FRAME_SIZE div PMM_FRAME_SIZE" by simp
  note s2 = region_mark_used_loop_spec [OF inv1, of "0x100" "ALIGN_UP kend PMM_FRAME_SIZE div PMM_FRAME_SIZE"]
  have ge: "0x100 \<le> g \<longleftrightarrow> \<not> g < 0x100" for g :: u64 by (simp only: not_less)
  show ?thesis
    using s1 s2 unfolding region_mark_used_def Let_def 1 lim free_set_def reserved_frames_def fs0 ge
    by simp blast
qed

lemma reserve_total:
  "pmm_inv s \<Longrightarrow> pmm_total_frames (region_mark_used b l s) = pmm_total_frames s"
  using region_mark_used_loop_spec [of s] by (simp add: region_mark_used_def Let_def)

lemma pmm_init_boot_state:
  assumes "pmm_init m kend magic info s = Some s'"
  shows "s' = boot_state (boot_entries m magic info) kend s"
proof -
  from assms obtain s1 where
    "if magic = MB2_BOOTLOADER_MAGIC then pmm_parse_mb2 m info s = Some s1 else pmm_parse_pvh m info s = Some s1"
    and s': "s' = region_mark_used 0x100000 (kend - 0x100000)
           (region_mark_used 0 0x100000 (s1\<lparr>pmm_next_hint := 0\<rparr>))"
    by (auto simp: pmm_init_def Let_def split: if_splits bind_splits)
  then show ?thesis
    using pmm_parse_mb2_eq [of m info s s1] pmm_parse_pvh_boot [of m info s s1 magic]
    by (auto simp: boot_state_def Let_def split: if_splits)
qed

text \<open>Under a page-aligned map the frames the code walks for a RAM entry are those that lie inside it, and
  the highest end of a RAM entry bounds them all.\<close>

lemma entry_frames_inside:
  assumes "unat (base_addr e) mod 4096 = 0" and "unat (base_addr e) + unat (length_of e) < 2 ^ 64"
  shows "g \<in> entry_frames ram e \<longleftrightarrow> mmap_type e = ram \<and> unat (base_addr e) \<le> 4096 * unat g \<and>
    4096 * unat g + 4096 \<le> unat (base_addr e) + unat (length_of e)"
proof -
  have u: "unat (base_addr e + length_of e) = unat (base_addr e) + unat (length_of e)"
    using assms(2) by (simp add: unat_word_ariths(1))
  obtain k where k: "unat (base_addr e) = 4096 * k" using assms(1) by (metis mod_0_imp_dvd dvdE)
  have "unat g < n div 4096 \<longleftrightarrow> 4096 * unat g + 4096 \<le> n" for n
    using less_eq_div_iff_mult_less_eq [of 4096 "Suc (unat g)" n] by (simp add: Suc_le_eq algebra_simps)
  moreover have "unat (base_addr e) div 4096 \<le> unat g \<longleftrightarrow> unat (base_addr e) \<le> 4096 * unat g" using k by simp
  ultimately show ?thesis
    by (simp add: entry_frames_def word_le_nat_alt word_less_nat_alt unat_div_distrib PMM_FRAME_SIZE_def u)
qed

lemma ram_frame_entry_frames:
  assumes "page_aligned_map es"
  shows "(\<exists>e \<in> set es. g \<in> entry_frames HVM_MMAP_RAM e) \<longleftrightarrow> ram_frame es g"
proof -
  have "g \<in> entry_frames HVM_MMAP_RAM e \<longleftrightarrow> mmap_type e = HVM_MMAP_RAM \<and> unat (base_addr e) \<le> 4096 * unat g \<and>
    4096 * unat g + 4096 \<le> unat (base_addr e) + unat (length_of e)" if "e \<in> set es" for e
  proof (cases "mmap_type e = HVM_MMAP_RAM")
    case True
    then show ?thesis using assms that entry_frames_inside [of e g HVM_MMAP_RAM] by (simp add: page_aligned_map_def)
  next
    case False
    then show ?thesis by (simp add: entry_frames_def)
  qed
  then show ?thesis unfolding ram_frame_def by blast
qed

lemma top_step_mono: "t \<le> fold (top_step ram) es t"
proof (induction es arbitrary: t)
  case (Cons e es)
  have "t \<le> top_step ram e t" by (simp add: top_step_def Let_def order.strict_implies_order)
  also have "\<dots> \<le> fold (top_step ram) es (top_step ram e t)" by (rule Cons.IH)
  finally show ?case by simp
qed simp

lemma top_step_bound:
  assumes "e \<in> set es" and "mmap_type e = ram"
  shows "base_addr e + length_of e \<le> fold (top_step ram) es t"
  using assms
proof (induction es arbitrary: t)
  case (Cons a es)
  show ?case
  proof (cases "e = a")
    case True
    have "base_addr e + length_of e \<le> top_step ram a t" using Cons.prems True by (simp add: top_step_def Let_def not_less)
    also have "\<dots> \<le> fold (top_step ram) es (top_step ram a t)" by (rule top_step_mono)
    finally show ?thesis by simp
  next
    case False
    then show ?thesis using Cons by simp
  qed
qed simp

lemma ram_frame_below_total:
  assumes "page_aligned_map es" and "ram_frame es g" and "g < PMM_MAX_FRAMES"
  shows "g < total_frames_of (fold (top_step HVM_MMAP_RAM) es 0)"
proof -
  let ?t = "fold (top_step HVM_MMAP_RAM) es 0"
  from assms(2) obtain e where e: "e \<in> set es" "mmap_type e = HVM_MMAP_RAM"
    "4096 * unat g + 4096 \<le> unat (base_addr e) + unat (length_of e)" unfolding ram_frame_def by blast
  have "unat (base_addr e + length_of e) = unat (base_addr e) + unat (length_of e)"
    using assms(1) e(1,2) by (simp add: page_aligned_map_def unat_word_ariths(1))
  then have "4096 * unat g + 4096 \<le> unat ?t"
    using top_step_bound [OF e(1,2), of 0] e(3) by (simp add: word_le_nat_alt)
  moreover have "4096 * unat g + 4096 \<le> unat PMM_MAX_PHYS"
    using assms(3) by (simp add: PMM_MAX_FRAMES_def PMM_MAX_PHYS_def PMM_FRAME_SIZE_def word_less_nat_alt)
  ultimately have "4096 * Suc (unat g) \<le> unat (if ?t > PMM_MAX_PHYS then PMM_MAX_PHYS else ?t)" by simp
  then have "Suc (unat g) \<le> unat (if ?t > PMM_MAX_PHYS then PMM_MAX_PHYS else ?t) div 4096"
    by (simp add: less_eq_div_iff_mult_less_eq algebra_simps)
  moreover have "unat PMM_FRAME_SIZE = 4096" by (simp add: PMM_FRAME_SIZE_def)
  ultimately show ?thesis
    unfolding total_frames_of_def word_less_nat_alt unat_div_distrib by (simp only: Suc_le_eq)
qed

lemma boot_state_spec:
  assumes "pmm_next_hint s = 0" and "0x100000 \<le> kend"
  shows "pmm_inv (boot_state es kend s)"
    and "pmm_total_frames (boot_state es kend s) = total_frames_of (fold (top_step HVM_MMAP_RAM) es 0)"
    and "free_set (boot_state es kend s) =
      {g. g < total_frames_of (fold (top_step HVM_MMAP_RAM) es 0) \<and> 0x100 \<le> g \<and> g \<notin> reserved_frames kend \<and>
          (\<exists>e \<in> set es. g \<in> entry_frames HVM_MMAP_RAM e)}"
proof -
  let ?t = "fold (top_step HVM_MMAP_RAM) es 0"
  let ?s1 = "fold (mark_step HVM_MMAP_RAM) es (pmm_reset (s\<lparr>pmm_total_frames := total_frames_of ?t\<rparr>))"
  note p = parsed_state [OF assms(1), of HVM_MMAP_RAM es ?t]
  note r = reserve_spec [OF p [THEN conjunct1] assms(2)]
  have tot: "pmm_total_frames ?s1 = total_frames_of ?t"
    using fold_mark_step_spec [OF pmm_reset_ok(1) [OF assms(1)], of HVM_MMAP_RAM es ?t]
    by (simp add: pmm_reset_def)
  have inv0: "pmm_inv (?s1\<lparr>pmm_next_hint := 0\<rparr>)"
    by (rule pmm_inv_hint [OF p [THEN conjunct1]])
  have inv1: "pmm_inv (region_mark_used 0 0x100000 (?s1\<lparr>pmm_next_hint := 0\<rparr>))"
    using region_mark_used_loop_spec [OF inv0] by (simp add: region_mark_used_def Let_def)
  show "pmm_inv (boot_state es kend s)" using r by (simp add: boot_state_def)
  show "pmm_total_frames (boot_state es kend s) = total_frames_of ?t"
    using reserve_total [OF inv1] reserve_total [OF inv0] tot by (simp add: boot_state_def)
  show "free_set (boot_state es kend s) = {g. g < total_frames_of ?t \<and> 0x100 \<le> g \<and>
      g \<notin> reserved_frames kend \<and> (\<exists>e \<in> set es. g \<in> entry_frames HVM_MMAP_RAM e)}"
    using r p by (auto simp: boot_state_def not_less)
qed

lemma boot_state_free_set:
  assumes "pmm_next_hint s = 0" and "0x100000 \<le> kend" and "page_aligned_map es"
  shows "free_set (boot_state es kend s) =
    {g. g < PMM_MAX_FRAMES \<and> 0x100 \<le> g \<and> g \<notin> reserved_frames kend \<and> ram_frame es g}"
proof -
  have "g < total_frames_of (fold (top_step HVM_MMAP_RAM) es 0) \<longleftrightarrow> g < PMM_MAX_FRAMES" if "ram_frame es g" for g
    using ram_frame_below_total [OF assms(3) that] total_frames_of_le [of "fold (top_step HVM_MMAP_RAM) es 0"]
    by (meson less_le_trans)
  then show ?thesis unfolding boot_state_spec(3) [OF assms(1,2)] ram_frame_entry_frames [OF assms(3)] by blast
qed

lemma region_mark_free_loop_refcount:
  "pmm_refcount s g = 0 \<Longrightarrow> pmm_refcount (region_mark_free_loop f lim s) g = 0"
proof (induction f lim s rule: region_mark_free_loop.induct)
  case (1 f lim s)
  then show ?case
    by (subst region_mark_free_loop.simps) (simp add: frame_set_free_def Let_def)
qed

lemma region_mark_used_loop_refcount:
  "\<not> frame_is_free s g \<Longrightarrow> pmm_refcount (region_mark_used_loop f lim s) g = pmm_refcount s g"
proof (induction f lim s rule: region_mark_used_loop.induct)
  case (1 f lim s)
  show ?case
  proof (cases "f < lim \<and> f < pmm_total_frames s")
    case True
    let ?s1 = "if frame_is_free s f then
             (let s = frame_set_used f s in
              s\<lparr>pmm_refcount := (pmm_refcount s)(f := 1), pmm_free_frames := pmm_free_frames s - 1\<rparr>)
           else s"
    have "\<not> frame_is_free ?s1 g" "pmm_refcount ?s1 g = pmm_refcount s g"
      using 1(2) by (auto simp: Let_def frame_set_fields)
    with 1(1) [OF True] have "pmm_refcount (region_mark_used_loop (f + 1) lim ?s1) g = pmm_refcount s g"
      by simp
    then show ?thesis using True by (subst region_mark_used_loop.simps) (simp only: if_True simp_thms)
  next
    case False
    show ?thesis by (subst region_mark_used_loop.simps) (simp only: False if_False)
  qed
qed

lemma fold_mark_step_refcount:
  "pmm_refcount s g = 0 \<Longrightarrow> pmm_refcount (fold (mark_step ram) es s) g = 0"
  by (induction es arbitrary: s)
    (simp_all add: mark_step_def region_mark_free_def Let_def region_mark_free_loop_refcount)

lemma boot_state_refcount:
  assumes "pmm_next_hint s = 0" and "f < pmm_total_frames (boot_state es kend s)"
    and "0x100000 \<le> kend" and "\<not> (\<exists>e \<in> set es. f \<in> entry_frames HVM_MMAP_RAM e)"
  shows "pmm_refcount (boot_state es kend s) f = 0"
proof -
  let ?t = "fold (top_step HVM_MMAP_RAM) es 0"
  let ?s1 = "fold (mark_step HVM_MMAP_RAM) es (pmm_reset (s\<lparr>pmm_total_frames := total_frames_of ?t\<rparr>))"
  let ?s0 = "?s1\<lparr>pmm_next_hint := 0\<rparr>"
  let ?s2 = "region_mark_used 0 0x100000 ?s0"
  note p = parsed_state [OF assms(1), of HVM_MMAP_RAM es ?t]
  have inv0: "pmm_inv ?s0" by (rule pmm_inv_hint [OF p [THEN conjunct1]])
  have tot: "pmm_total_frames ?s1 = total_frames_of ?t"
    using fold_mark_step_spec [OF pmm_reset_ok(1) [OF assms(1)], of HVM_MMAP_RAM es ?t]
    by (simp add: pmm_reset_def)
  have "f \<notin> free_set ?s1" using p assms(4) by simp
  then have "\<not> frame_is_free ?s0 f"
    using assms(2) tot boot_state_spec(2) [OF assms(1,3)] by (auto simp: free_set_def frame_is_free_def)
  then have "\<not> frame_is_free ?s2 f" "pmm_refcount ?s2 f = pmm_refcount ?s0 f"
    using region_mark_used_loop_spec [OF inv0] region_mark_used_loop_refcount [of ?s0 f]
    by (simp_all add: region_mark_used_def Let_def)
  then have "pmm_refcount (boot_state es kend s) f = pmm_refcount ?s1 f"
    unfolding boot_state_def using region_mark_used_loop_refcount [of ?s2 f]
    by (simp add: region_mark_used_def Let_def)
  also have "\<dots> = 0" by (rule fold_mark_step_refcount) (simp add: pmm_reset_def)
  finally show ?thesis .
qed

lemma boot_state_pool:
  assumes "pmm_next_hint s = 0" and "0x100000 \<le> kend"
  shows "pool_within {f. \<exists>e \<in> set es. f \<in> entry_frames HVM_MMAP_RAM e} (boot_state es kend s)"
proof -
  let ?R = "{f. \<exists>e \<in> set es. f \<in> entry_frames HVM_MMAP_RAM e}"
  have "frame_refs (boot_state es kend s) a = 0" if "a \<notin> (\<lambda>f. f * PMM_FRAME_SIZE) ` ?R" for a
  proof (rule ccontr)
    assume "frame_refs (boot_state es kend s) a \<noteq> 0"
    then have pos: "0 < frame_refs (boot_state es kend s) a" by simp
    from frame_refs_pos [OF this] obtain f where "a = f * PMM_FRAME_SIZE" "f < pmm_total_frames (boot_state es kend s)"
      "unat (pmm_refcount (boot_state es kend s) f) = frame_refs (boot_state es kend s) a" by metis
    moreover have "\<not> (\<exists>e \<in> set es. f \<in> entry_frames HVM_MMAP_RAM e)" using that \<open>a = f * PMM_FRAME_SIZE\<close> by blast
    ultimately show False using boot_state_refcount [OF assms(1) _ assms(2), of f es] pos by simp
  qed
  then show ?thesis
    using boot_state_spec(1,3) [OF assms, of es] by (auto simp: pool_within_def avail_frames_def)
qed

lemma contiguous_pool_within:
  assumes J: "pool_within R s" and run: "pmm_alloc_contiguous n s = (a, s')"
  shows "pool_within R s'"
proof (cases "n = 0 \<or> \<not> has_run s n")
  case True
  then have "s' = s"
  proof (cases "n = 0")
    case True
    then show ?thesis using run by (simp add: pmm_alloc_contiguous_def)
  next
    case n: False
    then show ?thesis using True run pmm_alloc_contiguous_spec [OF _ n, of s] J by (simp add: pool_within_def)
  qed
  then show ?thesis using J by simp
next
  case False
  with J have inv: "pmm_inv s" "n \<noteq> 0" "has_run s n" by (auto simp: pool_within_def)
  with run pmm_alloc_contiguous_spec [OF inv(1,2)] obtain r where
    r: "frame_run r n \<subseteq> free_set s" "free_set s' = free_set s - frame_run r n"
      "\<forall>g. pmm_refcount s' g = (if g \<in> frame_run r n then 1 else pmm_refcount s g)"
      "pmm_total_frames s' = pmm_total_frames s" "pmm_inv s'" by auto
  have "b \<notin> avail_frames s' \<and> frame_refs s' b = 0"
    if b: "b \<notin> (\<lambda>f. f * PMM_FRAME_SIZE) ` R" for b
  proof
    have "b \<notin> avail_frames s" using J b by (simp add: pool_within_def)
    then show "b \<notin> avail_frames s'" using r(2) by (auto simp: avail_frames_def)
    show "frame_refs s' b = 0"
    proof (rule ccontr)
      assume "frame_refs s' b \<noteq> 0"
      then have pos: "0 < frame_refs s' b" by simp
      from frame_refs_pos [OF this] obtain f where "b = f * PMM_FRAME_SIZE" "f < pmm_total_frames s'"
        "unat (pmm_refcount s' f) = frame_refs s' b" by metis
      with pos have f: "b = f * PMM_FRAME_SIZE" "f < pmm_total_frames s'" "0 < unat (pmm_refcount s' f)"
        by simp_all
      have max: "f < PMM_MAX_FRAMES" using f(2) r(5) by (auto simp: pmm_inv_def)
      have nf: "f \<notin> free_set s" using f(1) \<open>b \<notin> avail_frames s\<close> by (auto simp: avail_frames_def)
      then have "pmm_refcount s' f = pmm_refcount s f" using r(1,3) by auto
      then have "0 < frame_refs s b" using f nf r(4) max by (simp add: frame_refs_frame free_set_def)
      then show False using J b by (simp add: pool_within_def)
    qed
  qed
  then show ?thesis using r(5) by (simp add: pool_within_def)
qed

lemma pmm_reachable_pool_within:
  assumes "pmm_reachable m kend magic info s" and "0x100000 \<le> kend"
  shows "pool_within {f. \<exists>e \<in> set (boot_entries m magic info). f \<in> entry_frames HVM_MMAP_RAM e} s"
  using assms
proof (induction rule: pmm_reachable.induct)
  case (init s0 s)
  then show ?case using boot_state_pool [of s0 kend "boot_entries m magic info"] pmm_init_boot_state [of m kend magic info s0 s] by simp
next
  case (alloc s a s')
  then have J: "pool_within {f. \<exists>e \<in> set (boot_entries m magic info). f \<in> entry_frames HVM_MMAP_RAM e} s" by blast
  then have inv: "pmm_inv s" by (simp add: pool_within_def)
  show ?case
    using J pmm.alloc_unmanaged [OF inv _ _ alloc(2)] pmm.alloc_keeps_invar [OF inv alloc(2)]
    unfolding pool_within_def by blast
next
  case (free s a s')
  then have J: "pool_within {f. \<exists>e \<in> set (boot_entries m magic info). f \<in> entry_frames HVM_MMAP_RAM e} s" by blast
  then have inv: "pmm_inv s" by (simp add: pool_within_def)
  have "pmm_inv s'" by (rule pmm.free_keeps_invar [OF inv free(2)])
  with J pmm.free_unmanaged [OF inv _ _ free(2)] show ?case unfolding pool_within_def by blast
next
  case (ref s a s')
  then have J: "pool_within {f. \<exists>e \<in> set (boot_entries m magic info). f \<in> entry_frames HVM_MMAP_RAM e} s" by blast
  then have inv: "pmm_inv s" by (simp add: pool_within_def)
  have "pmm_inv s'" by (rule pmm.ref_keeps_invar [OF inv ref(2)])
  with J pmm.ref_unmanaged [OF inv _ _ ref(2)] show ?case unfolding pool_within_def by blast
next
  case (contiguous s n a s')
  then show ?case using contiguous_pool_within by blast
qed

lemma pmm_init_mb2_bad_entry_size:
  assumes "mb2_find_tag m (\<lambda>t. t = MB2_TAG_MMAP) (ucast info + ucast (read_u32 m (ucast info))) (ucast info + 8)
             = Some (Some tag)"
    and "read_u32 m (tag + 8) = 0" and "tag + 16 \<le> tag + ucast (read_u32 m (tag + 4))"
  shows "pmm_init m kend MB2_BOOTLOADER_MAGIC info s = None"
  using assms
  by (simp add: pmm_init_def pmm_parse_mb2_def pmm_calc_total_frames_mb2_def mb2_foreach_size_0)

section \<open>Sample states\<close>

text \<open>A state of \<open>t\<close> frames whose free frames are those from \<open>f\<close> to \<open>lim\<close>, as the code would build
  it; a PVH start_info at 0x1000 with one RAM entry of 4 MiB at 0; and a Multiboot2 information
  structure at 0x1000 with a memory-map tag that holds the same entry.\<close>

definition pmm_zero :: pmm_state where
  "pmm_zero = \<lparr>pmm_bitmap = (\<lambda>_. 0), pmm_refcount = (\<lambda>_. 0), pmm_total_frames = 0,
     pmm_free_frames = 0, pmm_next_hint = 0\<rparr>"

definition pmm_sample :: "u64 \<Rightarrow> u64 \<Rightarrow> u64 \<Rightarrow> pmm_state" where
  "pmm_sample t f lim = region_mark_free_loop f lim (pmm_reset (pmm_zero\<lparr>pmm_total_frames := total_frames_of t\<rparr>))"

definition pvh_sample :: "u64 \<Rightarrow> u8" where
  "pvh_sample = (\<lambda>_. 0)(0x1000 := 0x78, 0x1001 := 0xc5, 0x1002 := 0x6e, 0x1003 := 0x33,
     0x1029 := 0x20, 0x1030 := 1, 0x200A := 0x40, 0x2010 := 1)"

definition mb2_sample :: "u64 \<Rightarrow> u8" where
  "mb2_sample = (\<lambda>_. 0)(0x1000 := 0x38, 0x1008 := 6, 0x100C := 0x28, 0x1010 := 0x18,
     0x1022 := 0x40, 0x1028 := 1, 0x1034 := 8)"

lemma pmm_sample_ok:
  "pmm_inv (pmm_sample t f lim)"
  "free_set (pmm_sample t f lim) = {g. f \<le> g \<and> g < lim \<and> g < total_frames_of t}"
  "pmm_total_frames (pmm_sample t f lim) = total_frames_of t"
proof -
  let ?s = "pmm_zero\<lparr>pmm_total_frames := total_frames_of t\<rparr>"
  have z: "pmm_next_hint pmm_zero = 0" "pmm_next_hint ?s = 0" by (simp_all add: pmm_zero_def)
  note loop = region_mark_free_loop_spec [OF pmm_reset_ok(1) [OF z(1)], of f lim t]
  show "pmm_inv (pmm_sample t f lim)" using loop by (simp add: pmm_sample_def)
  show tf: "pmm_total_frames (pmm_sample t f lim) = total_frames_of t"
    using loop pmm_reset_ok(3) [OF z(2)] by (simp add: pmm_sample_def)
  show "free_set (pmm_sample t f lim) = {g. f \<le> g \<and> g < lim \<and> g < total_frames_of t}"
    using loop pmm_reset_ok(2,3) [OF z(2)] tf by (auto simp: free_set_def pmm_sample_def)
qed

lemma sample_total: "total_frames_of 0x10000 = 16" "total_frames_of 0x1000000 = 4096"
  by (simp_all add: total_frames_of_def PMM_MAX_PHYS_def PMM_FRAME_SIZE_def)

lemma sample_free: "3 \<in> free_set (pmm_sample 0x10000 3 8)"
  by (simp add: pmm_sample_ok sample_total)

lemma pvh_sample_reads:
  "read_u32 pvh_sample 0x1000 = HVM_START_MAGIC" "read_u64 pvh_sample 0x1028 = 0x2000"
  "read_u32 pvh_sample 0x1030 = 1"
  "mmap_entry_at pvh_sample 0x2000 = \<lparr>base_addr = 0, length_of = 0x400000, mmap_type = 1\<rparr>"
  by (simp_all add: read_u64_def read_u32_def read_u16_def pvh_sample_def mmap_entry_at_def HVM_START_MAGIC_def)

lemma pvh_sample_entries: "hvm_entries pvh_sample 0x2000 1 = [\<lparr>base_addr = 0, length_of = 0x400000, mmap_type = 1\<rparr>]"
  by (simp add: hvm_entries_def pvh_sample_reads)

lemma pvh_sample_total: "total_frames_of (fold (top_step HVM_MMAP_RAM) (hvm_entries pvh_sample 0x2000 1) 0) = 1024"
  by (simp add: pvh_sample_entries top_step_def HVM_MMAP_RAM_def total_frames_of_def PMM_MAX_PHYS_def PMM_FRAME_SIZE_def)

lemma pvh_sample_init: "\<exists>s. pmm_init pvh_sample 0x200000 0 0x1000 pmm_zero = Some s"
proof -
  have "pmm_parse_pvh pvh_sample 0x1000 pmm_zero = Some (fold (mark_step HVM_MMAP_RAM) (hvm_entries pvh_sample 0x2000 1)
      (pmm_reset (pmm_zero\<lparr>pmm_total_frames := 1024\<rparr>)))" (is "_ = Some ?s1")
    using pvh_sample_total by (simp add: pmm_parse_pvh_eq pvh_sample_reads)
  moreover have "pmm_total_frames ?s1 = 1024"
    using fold_mark_step_spec [OF pmm_reset_ok(1) [of pmm_zero "0x400000"], of HVM_MMAP_RAM "hvm_entries pvh_sample 0x2000 1"]
    by (simp add: pmm_reset_def pmm_zero_def total_frames_of_def PMM_MAX_PHYS_def PMM_FRAME_SIZE_def)
  ultimately show ?thesis
    by (simp add: pmm_init_def pvh_sample_reads MB2_BOOTLOADER_MAGIC_def)
qed

lemma mb2_sample_reads:
  "read_u32 mb2_sample 0x1000 = 0x38" "read_u32 mb2_sample 0x1008 = 6"
  "read_u32 mb2_sample 0x100C = 0x28" "read_u32 mb2_sample 0x1010 = 0x18"
  "mmap_entry_at mb2_sample 0x1018 = \<lparr>base_addr = 0, length_of = 0x400000, mmap_type = 1\<rparr>"
  by (simp_all add: read_u64_def read_u32_def read_u16_def mb2_sample_def mmap_entry_at_def)

lemma mb2_sample_tag: "mb2_find_tag mb2_sample (\<lambda>t. t = MB2_TAG_MMAP) 0x1038 0x1008 = Some (Some 0x1008)"
  by (subst mb2_find_tag.simps) (simp add: mb2_sample_reads MB2_TAG_MMAP_def MB2_TAG_END_def)

lemma mb2_sample_entries:
  "boot_entries mb2_sample MB2_BOOTLOADER_MAGIC 0x1000 = [\<lparr>base_addr = 0, length_of = 0x400000, mmap_type = 1\<rparr>]"
  by (simp add: boot_entries_def mb2_sample_reads mb2_sample_tag mb2_entries_def)

lemma mb2_sample_foreach: "mb2_foreach mb2_sample 0x18 0x1030 body 0x1018 s =
    Some (body \<lparr>base_addr = 0, length_of = 0x400000, mmap_type = 1\<rparr> s)"
  by (subst mb2_foreach.simps, subst mb2_foreach.simps) (simp add: mb2_sample_reads)

lemma mb2_sample_init: "\<exists>s. pmm_init mb2_sample 0x200000 MB2_BOOTLOADER_MAGIC 0x1000 pmm_zero = Some s"
proof -
  let ?e = "\<lparr>base_addr = 0, length_of = 0x400000, mmap_type = 1\<rparr>"
  have "pmm_parse_mb2 mb2_sample 0x1000 pmm_zero = Some (mark_step HVM_MMAP_RAM ?e
      (pmm_reset (pmm_zero\<lparr>pmm_total_frames := total_frames_of 0x400000\<rparr>)))" (is "_ = Some ?s1")
    by (simp add: pmm_parse_mb2_def pmm_calc_total_frames_mb2_def mb2_sample_reads mb2_sample_tag
        mb2_sample_foreach top_step_def HVM_MMAP_RAM_def)
  moreover have "pmm_total_frames ?s1 = 1024"
    using mark_step_spec [OF pmm_reset_ok(1) [of pmm_zero "0x400000"], of HVM_MMAP_RAM ?e]
    by (simp add: pmm_reset_def pmm_zero_def total_frames_of_def PMM_MAX_PHYS_def PMM_FRAME_SIZE_def)
  ultimately show ?thesis by (simp add: pmm_init_def)
qed

lemma sample_map:
  "page_aligned_map [\<lparr>base_addr = 0, length_of = 0x400000, mmap_type = 1\<rparr>]"
  "ram_frame [\<lparr>base_addr = 0, length_of = 0x400000, mmap_type = 1\<rparr>] g \<longleftrightarrow> unat g < 1024"
  "0x300 < PMM_MAX_FRAMES" "0x300 \<notin> reserved_frames 0x200000"
proof -
  show "ram_frame [\<lparr>base_addr = 0, length_of = 0x400000, mmap_type = 1\<rparr>] g \<longleftrightarrow> unat g < 1024"
    unfolding ram_frame_def by (simp add: HVM_MMAP_RAM_def) arith
qed (simp_all add: page_aligned_map_def PMM_MAX_FRAMES_def PMM_MAX_PHYS_def PMM_FRAME_SIZE_def
      reserved_frames_def ALIGN_UP_def)

section \<open>Properties\<close>

text \<open>C4: pmm_alloc_frame on a well-formed state fails exactly when no frame is free, and then changes
  nothing. Otherwise it hands out a free frame, the lowest one at or after the byte of the hint when
  there is one; that frame alone leaves the pool, with one reference, and the state stays well-formed.\<close>

theorem pmm_alloc_frame_correct:
  assumes "pmm_inv s"
  shows "if free_set s = {} then pmm_alloc_frame s = (PMM_ALLOC_FAILED, s)
    else \<exists>f s'. pmm_alloc_frame s = (f * PMM_FRAME_SIZE, s') \<and> f \<in> free_set s \<and>
      (\<forall>g \<in> free_set s. drop_bit 3 (pmm_next_hint s) \<le> drop_bit 3 g \<longrightarrow>
         drop_bit 3 (pmm_next_hint s) \<le> drop_bit 3 f \<and> f \<le> g) \<and>
      pmm_inv s' \<and> avail_frames s' = avail_frames s - {f * PMM_FRAME_SIZE} \<and>
      frame_refs s' = (frame_refs s)(f * PMM_FRAME_SIZE := 1)"
proof (cases "free_set s = {}")
  case True
  then show ?thesis using pmm_alloc_frame_none [OF assms] by simp
next
  case False
  from pmm_alloc_frame_some [OF assms this] obtain f where
    f: "f \<in> free_set s" "pmm_alloc_frame s = (f * PMM_FRAME_SIZE, claimed f s)" "pmm_find_frame s = Some f"
    by metis
  have "f * PMM_FRAME_SIZE \<noteq> PMM_ALLOC_FAILED"
    using frame_addr_not_failed free_set_below [OF assms f(1)] by blast
  note ok = pmm.alloc_ok [OF assms f(2) this]
  show ?thesis using False f ok pmm_find_frame_spec [OF assms] by auto
qed

theorem pmm_alloc_frame_correct_witness:
  "\<exists>s. pmm_inv s \<and> free_set s \<noteq> {} \<and> (\<exists>f s'. pmm_alloc_frame s = (f * PMM_FRAME_SIZE, s') \<and> f \<in> free_set s \<and> pmm_inv s')"
  using pmm_alloc_frame_correct [OF pmm_sample_ok(1) [of "0x10000" 3 8]] sample_free
    pmm_sample_ok(1) [of "0x10000" 3 8] by (metis empty_iff)

text \<open>C5: pmm_free_frame stops the kernel exactly on an address that is not a referenced frame
  (unaligned, out of range, already free, or never handed out). Otherwise it drops one reference, and
  the frame returns to the pool when that was the last one.\<close>

theorem pmm_free_frame_correct:
  assumes "pmm_inv s"
  shows "if frame_refs s a = 0 then pmm_free_frame a s = None
    else \<exists>s'. pmm_free_frame a s = Some s' \<and> pmm_inv s' \<and>
      frame_refs s' = (frame_refs s)(a := frame_refs s a - 1) \<and>
      avail_frames s' = (if frame_refs s a = 1 then insert a (avail_frames s) else avail_frames s)"
  using pmm.free_owned [OF assms, of a] pmm.free_unowned [OF assms, of a] by simp

theorem pmm_free_frame_correct_witness:
  "pmm_free_frame 0x3000 (pmm_sample 0x10000 3 8) = None \<and>
   (\<exists>a s1 s2. pmm_alloc_frame (pmm_sample 0x10000 3 8) = (a, s1) \<and> pmm_free_frame a s1 = Some s2 \<and>
      a \<notin> avail_frames s1 \<and> a \<in> avail_frames s2)"
proof
  let ?s = "pmm_sample 0x10000 3 8"
  have "frame_refs ?s (3 * PMM_FRAME_SIZE) = 0"
    using sample_free by (simp add: frame_refs_frame PMM_MAX_FRAMES_eq free_set_def)
  then show "pmm_free_frame 0x3000 ?s = None"
    using pmm_free_frame_correct [OF pmm_sample_ok(1), of "0x10000" 3 8 "0x3000"]
    by (simp add: PMM_FRAME_SIZE_def)
  obtain a s1 where a: "pmm_alloc_frame ?s = (a, s1)" by fastforce
  have "avail_frames ?s \<noteq> {}" using sample_free by (auto simp: avail_frames_def)
  then have "a \<noteq> PMM_ALLOC_FAILED"
    using pmm.alloc_failed_iff [OF pmm_sample_ok(1) [of "0x10000" 3 8]] a by simp
  note ok = pmm.alloc_ok [OF pmm_sample_ok(1) a this]
  then show "\<exists>a s1 s2. pmm_alloc_frame ?s = (a, s1) \<and> pmm_free_frame a s1 = Some s2 \<and> a \<notin> avail_frames s1 \<and> a \<in> avail_frames s2"
    using pmm_free_frame_correct [OF ok(2), of a] a by auto
qed

text \<open>C25: a frame that was allocated and is freed again leaves the pool and all reference counts as they
  were, and freeing it a second time stops the kernel.\<close>

theorem pmm_alloc_free_roundtrip:
  assumes "pmm_inv s" and "pmm_alloc_frame s = (a, s1)" and "a \<noteq> PMM_ALLOC_FAILED"
  shows "\<exists>s2. pmm_free_frame a s1 = Some s2 \<and> pmm_inv s2 \<and> avail_frames s2 = avail_frames s \<and>
    frame_refs s2 = frame_refs s \<and> pmm_free_frame a s2 = None"
proof -
  obtain s2 where s2: "pmm_free_frame a s1 = Some s2" "pmm_inv s2" "avail_frames s2 = avail_frames s"
    "frame_refs s2 = frame_refs s" using pmm.alloc_then_free [OF assms] by blast
  note ok = pmm.alloc_ok [OF assms]
  have "frame_refs s1 a = 1" by (simp add: ok(4))
  from pmm.double_free_refused [OF ok(2) this s2(1)] s2 show ?thesis by blast
qed

theorem pmm_alloc_free_roundtrip_witness:
  "\<exists>a s1 s2. pmm_alloc_frame (pmm_sample 0x10000 3 8) = (a, s1) \<and> pmm_free_frame a s1 = Some s2 \<and>
     pmm_free_frame a s2 = None"
proof -
  let ?s = "pmm_sample 0x10000 3 8"
  obtain a s1 where a: "pmm_alloc_frame ?s = (a, s1)" by fastforce
  have "avail_frames ?s \<noteq> {}" using sample_free by (auto simp: avail_frames_def)
  then have "a \<noteq> PMM_ALLOC_FAILED"
    using pmm.alloc_failed_iff [OF pmm_sample_ok(1) [of "0x10000" 3 8]] a by simp
  from pmm_alloc_free_roundtrip [OF pmm_sample_ok(1) a this] a show ?thesis by blast
qed

text \<open>C26: a run of frames is found exactly when the bitmap has one. pmm_alloc_contiguous then returns
  the address of a run of free frames, marks exactly its frames used with one reference each, and
  keeps the state well-formed; otherwise it changes nothing.\<close>

theorem pmm_alloc_contiguous_correct:
  assumes "pmm_inv s" and "count \<noteq> 0"
  shows "if has_run s count then
      \<exists>r s'. pmm_alloc_contiguous count s = (r * PMM_FRAME_SIZE, s') \<and>
        unat r + unat count \<le> unat (pmm_total_frames s) \<and>
        frame_run r count \<subseteq> free_set s \<and> free_set s' = free_set s - frame_run r count \<and>
        (\<forall>g. pmm_refcount s' g = (if g \<in> frame_run r count then 1 else pmm_refcount s g)) \<and>
        pmm_total_frames s' = pmm_total_frames s \<and> pmm_inv s'
    else pmm_alloc_contiguous count s = (PMM_ALLOC_FAILED, s)"
  by (rule pmm_alloc_contiguous_spec [OF assms])

lemma sample_run: "has_run (pmm_sample 0x1000000 1 4096) 16"
  unfolding has_run_def
proof (intro exI conjI allI impI)
  let ?s = "pmm_sample 0x1000000 1 4096"
  show "1 + unat (16::u32) \<le> unat (pmm_total_frames ?s)" by (simp add: pmm_sample_ok sample_total)
  fix k :: nat
  assume k: "1 \<le> k \<and> k < 1 + unat (16::u32)"
  then have "unat (of_nat k :: u64) = k" using unat_of_nat_below [of k "100 :: u64"] by simp
  with k have "of_nat k \<in> free_set ?s"
    by (simp add: pmm_sample_ok sample_total word_le_nat_alt word_less_nat_alt)
  then show "free_at ?s k" by (simp add: free_at_def free_set_def)
qed

theorem pmm_alloc_contiguous_correct_witness:
  "\<exists>r s'. pmm_alloc_contiguous 16 (pmm_sample 0x1000000 1 4096) = (r * PMM_FRAME_SIZE, s') \<and> pmm_inv s'"
  using pmm_alloc_contiguous_correct [OF pmm_sample_ok(1), of 16 "0x1000000" 1 4096] sample_run by auto

text \<open>C27: the boot-time self-test passes on every well-formed state with 1000 free frames and a run of
  16, when frame 0 is not in the pool; no assertion fires, and the pool is afterwards as before.\<close>

theorem pmm_selftest_passes:
  assumes inv: "pmm_inv s" and zero: "0 \<notin> avail_frames s"
    and enough: "1000 \<le> pmm_free_frames s" and run: "has_run s 16"
  shows "\<exists>s'. pmm_selftest s = Some s' \<and> pmm_inv s' \<and> avail_frames s' = avail_frames s"
proof -
  obtain frames t where al: "alloc_list pmm_alloc_frame 1000 s = (frames, t)" by fastforce
  have n: "1000 \<le> card (avail_frames s)"
    using enough by (simp add: pmm_free_frames_card [OF inv, symmetric] word_le_nat_alt)
  note ok = pmm.alloc_list_ok [OF inv n al]
  obtain u where u: "free_list pmm_free_frame frames t = Some u" "pmm_inv u" "avail_frames u = avail_frames s"
    using pmm.alloc_free_list [OF inv n al] by blast
  have "card (avail_frames t) = card (avail_frames s) - 1000"
    using ok distinct_card [of frames] by (simp add: card_Diff_subset)
  then have ct: "pmm_free_frames t = pmm_free_frames s - 1000"
    using ok enough by (simp add: word_unat_eq_iff pmm_free_frames_card inv unat_sub)
  have used: "list_all (\<lambda>a. \<not> frame_is_free t (a div PMM_FRAME_SIZE)) frames"
    using ok owned_frame_used [of t] by (simp add: list_all_iff owned_once_def)
  have cu: "pmm_free_frames u = pmm_free_frames s"
    by (simp add: word_unat_eq_iff pmm_free_frames_card inv u)
  have fu: "free_set u = free_set s" by (rule free_set_eq_avail [OF u(2) inv u(3)])
  then have "has_run u 16" using has_run_mono [OF run] by simp
  then obtain r v where v: "pmm_alloc_contiguous 16 u = (r * PMM_FRAME_SIZE, v)"
      "unat r + 16 \<le> unat (pmm_total_frames u)" "frame_run r 16 \<subseteq> free_set u"
      "free_set v = free_set u - frame_run r 16"
      "\<forall>g. pmm_refcount v g = (if g \<in> frame_run r 16 then 1 else pmm_refcount u g)"
      "pmm_total_frames v = pmm_total_frames u" "pmm_inv v"
    using pmm_alloc_contiguous_spec [OF u(2), of 16] by auto
  have rf: "r < PMM_MAX_FRAMES"
    using v(2) pmm_inv_total [OF u(2)] by (simp add: PMM_MAX_FRAMES_eq word_less_nat_alt)
  have own: "\<forall>f \<in> frame_run r 16. frame_refs v (f * PMM_FRAME_SIZE) = 1"
  proof
    fix f assume f: "f \<in> frame_run r 16"
    then have "f < pmm_total_frames v" "f < PMM_MAX_FRAMES" "\<not> frame_is_free v f"
      using v free_set_below [OF u(2)] by (auto simp: free_set_def)
    then show "frame_refs v (f * PMM_FRAME_SIZE) = 1"
      using v(5) f by (simp add: frame_refs_frame)
  qed
  obtain w where w: "free_list pmm_free_frame (map (\<lambda>i. r * PMM_FRAME_SIZE + of_nat i * PMM_FRAME_SIZE) [0..<16]) v = Some w"
    "pmm_inv w" "avail_frames w = avail_frames v \<union> (\<lambda>f. f * PMM_FRAME_SIZE) ` frame_run r 16"
    using pmm_free_run [OF v(7), of r 16] v(2,6) own by auto
  have aw: "avail_frames w = avail_frames s"
  proof -
    have "avail_frames w = (\<lambda>f. f * PMM_FRAME_SIZE) ` (free_set v \<union> frame_run r 16)"
      using w(3) by (simp add: avail_frames_def image_Un)
    also have "free_set v \<union> frame_run r 16 = free_set s" using v(3,4) fu by blast
    finally show ?thesis by (simp add: avail_frames_def)
  qed
  then have "pmm_free_frames w = pmm_free_frames s"
    by (simp add: word_unat_eq_iff pmm_free_frames_card inv w(2))
  moreover have "r * PMM_FRAME_SIZE \<noteq> PMM_ALLOC_FAILED" "r * PMM_FRAME_SIZE AND (PMM_FRAME_SIZE - 1) = 0"
    using frame_addr_not_failed [of r] frame_addr_aligned [of r] rf by simp_all
  ultimately have "pmm_selftest s = Some w"
    using pmm_selftest_alloc_eq [OF inv zero n] al ct used u(1) cu v(1) w(1)
    unfolding pmm_selftest_def by (simp only: bind.bind_lunit Let_def split kassert_bind if_True) simp
  then show ?thesis using w(2) aw by blast
qed

theorem pmm_selftest_passes_witness:
  "\<exists>s'. pmm_selftest (pmm_sample 0x1000000 1 4096) = Some s' \<and> pmm_inv s'"
proof -
  let ?s = "pmm_sample 0x1000000 1 4096"
  have fs: "free_set ?s = {g. 1 \<le> g \<and> g < 4096}" by (simp add: pmm_sample_ok sample_total)
  have "unat (pmm_free_frames ?s) = card (free_set ?s)"
    using pmm_sample_ok(1) [of "0x1000000" 1 4096] by (simp add: pmm_inv_def)
  also have "\<dots> = 4095" using card_word_range [of "1::u64" 4096] by (simp add: fs)
  finally have "1000 \<le> pmm_free_frames ?s" by (simp add: word_le_nat_alt)
  moreover have "0 \<notin> avail_frames ?s"
  proof
    assume "0 \<in> avail_frames ?s"
    then obtain f where f: "f \<in> free_set ?s" "f * PMM_FRAME_SIZE = 0" by (auto simp: avail_frames_def)
    have "unat (f * PMM_FRAME_SIZE) = unat f * 4096"
      using unat_frame_addr free_set_below [OF pmm_sample_ok(1) f(1)] by blast
    then show False using f by (simp add: fs word_le_nat_alt)
  qed
  ultimately show ?thesis using pmm_selftest_passes [OF pmm_sample_ok(1) _ _ sample_run] by blast
qed

text \<open>C14: after a PVH boot with a page-aligned memory map that lists at least one frame of RAM in the
  managed range, pmm_init succeeds, and its free frames are exactly the frames of that range that lie
  wholly inside a RAM entry, without the first megabyte and the kernel image.\<close>

theorem pmm_init_pvh_free_set:
  assumes "magic \<noteq> MB2_BOOTLOADER_MAGIC" and "info \<noteq> 0" and "read_u32 m (ucast info) = HVM_START_MAGIC"
    and "es = hvm_entries m (read_u64 m (ucast info + 40)) (read_u32 m (ucast info + 48))"
    and "page_aligned_map es" and "\<exists>g. g < PMM_MAX_FRAMES \<and> ram_frame es g"
    and "pmm_next_hint s = 0" and "0x100000 \<le> kend"
  shows "\<exists>s'. pmm_init m kend magic info s = Some s' \<and> pmm_inv s' \<and>
    free_set s' = {g. g < PMM_MAX_FRAMES \<and> 0x100 \<le> g \<and> g \<notin> reserved_frames kend \<and> ram_frame es g}"
proof -
  let ?t = "fold (top_step HVM_MMAP_RAM) es 0"
  let ?s1 = "fold (mark_step HVM_MMAP_RAM) es (pmm_reset (s\<lparr>pmm_total_frames := total_frames_of ?t\<rparr>))"
  have parse: "pmm_parse_pvh m info s = Some ?s1" by (simp add: pmm_parse_pvh_eq assms(3,4) Let_def)
  have "pmm_total_frames ?s1 = total_frames_of ?t"
    using fold_mark_step_spec [OF pmm_reset_ok(1) [OF assms(7)], of HVM_MMAP_RAM es ?t]
    by (simp add: pmm_reset_def)
  moreover from assms(6) obtain g where "g < total_frames_of ?t" using ram_frame_below_total [OF assms(5)] by blast
  ultimately have "0 < pmm_total_frames ?s1" by (metis word_gt_0 word_not_simps(1))
  then have "pmm_init m kend magic info s = Some (boot_state es kend s)"
    using assms(1,2,3) parse by (simp add: pmm_init_def boot_state_def Let_def)
  then show ?thesis
    using boot_state_spec(1) [OF assms(7,8)] boot_state_free_set [OF assms(7,8,5)] by simp
qed

theorem pmm_init_pvh_free_set_witness:
  "\<exists>s'. pmm_init pvh_sample 0x200000 0 0x1000 pmm_zero = Some s' \<and> 0x300 \<in> free_set s' \<and> 0x400 \<notin> free_set s'"
proof -
  have z: "pmm_next_hint pmm_zero = 0" by (simp add: pmm_zero_def)
  have mg: "0 \<noteq> MB2_BOOTLOADER_MAGIC" by (simp add: MB2_BOOTLOADER_MAGIC_def)
  have es: "hvm_entries pvh_sample (read_u64 pvh_sample (ucast (0x1000 :: u32) + 40)) (read_u32 pvh_sample (ucast (0x1000 :: u32) + 48))
      = [\<lparr>base_addr = 0, length_of = 0x400000, mmap_type = 1\<rparr>]"
    by (simp add: pvh_sample_reads pvh_sample_entries)
  have "\<exists>g. g < PMM_MAX_FRAMES \<and> ram_frame [\<lparr>base_addr = 0, length_of = 0x400000, mmap_type = 1\<rparr>] g"
    by (rule exI [of _ "0x300"]) (simp add: sample_map)
  from pmm_init_pvh_free_set [OF mg _ _ es [symmetric] sample_map(1) this z, of "0x200000"]
  show ?thesis using sample_map(3,4) by (auto simp: pvh_sample_reads sample_map(2))
qed

text \<open>C13: under either boot protocol, when pmm_init returns on a page-aligned memory map, the state is
  well-formed and the free frames are exactly the managed frames that lie wholly inside a RAM entry of
  the map, above the first megabyte and outside the kernel image. For Multiboot2 the entries are the
  records that fit in the memory-map tag, one behind the other.\<close>

theorem pmm_init_safe:
  assumes "pmm_init m kend magic info s = Some s'" and "pmm_next_hint s = 0" and "0x100000 \<le> kend"
    and "page_aligned_map (boot_entries m magic info)"
  shows "pmm_inv s' \<and> free_set s' = {g. g < PMM_MAX_FRAMES \<and> 0x100 \<le> g \<and> g \<notin> reserved_frames kend \<and>
           ram_frame (boot_entries m magic info) g}"
  using boot_state_spec(1) [OF assms(2,3)] boot_state_free_set [OF assms(2-4)] pmm_init_boot_state [OF assms(1)]
  by simp

theorem pmm_init_safe_witness:
  "\<exists>s. pmm_init mb2_sample 0x200000 MB2_BOOTLOADER_MAGIC 0x1000 pmm_zero = Some s \<and> pmm_inv s \<and>
     0x300 \<in> free_set s \<and> 0x400 \<notin> free_set s"
proof -
  obtain s where s: "pmm_init mb2_sample 0x200000 MB2_BOOTLOADER_MAGIC 0x1000 pmm_zero = Some s"
    using mb2_sample_init by blast
  have "pmm_next_hint pmm_zero = 0" by (simp add: pmm_zero_def)
  from pmm_init_safe [OF s this] s show ?thesis
    using sample_map by (simp add: mb2_sample_entries)
qed

text \<open>C12: in every state that calls of pmm_alloc_frame, pmm_free_frame, pmm_ref_frame and
  pmm_alloc_contiguous can reach after pmm_init on a page-aligned memory map, under either boot
  protocol, the counters are exact, and every frame that is in the pool or has a reference lies wholly
  inside a RAM entry of the boot loader's map.\<close>

theorem pmm_reachable_safe:
  assumes "pmm_reachable m kend magic info s" and "0x100000 \<le> kend"
    and "page_aligned_map (boot_entries m magic info)"
  shows "pmm_inv s \<and> (\<forall>a. a \<in> avail_frames s \<or> 0 < frame_refs s a \<longrightarrow>
    (\<exists>f. a = f * PMM_FRAME_SIZE \<and> ram_frame (boot_entries m magic info) f))"
  using pmm_reachable_pool_within [OF assms(1,2)]
  unfolding pool_within_def ram_frame_entry_frames [OF assms(3)] by auto

theorem pmm_reachable_safe_witness:
  "\<exists>s. pmm_reachable mb2_sample 0x200000 MB2_BOOTLOADER_MAGIC 0x1000 s \<and> pmm_inv s \<and> 0x400000 \<notin> avail_frames s"
proof -
  obtain s where s: "pmm_init mb2_sample 0x200000 MB2_BOOTLOADER_MAGIC 0x1000 pmm_zero = Some s"
    using mb2_sample_init by blast
  have r: "pmm_reachable mb2_sample 0x200000 MB2_BOOTLOADER_MAGIC 0x1000 s"
    by (rule pmm_reachable.init [OF s]) (simp add: pmm_zero_def)
  have "(0x400000 :: u64) \<noteq> f * PMM_FRAME_SIZE" if "unat f < 1024" for f
  proof
    assume a: "(0x400000 :: u64) = f * PMM_FRAME_SIZE"
    have "unat (f * PMM_FRAME_SIZE) = unat f * 4096" using that by (simp add: unat_word_ariths(2) PMM_FRAME_SIZE_def)
    with that show False unfolding a [symmetric] by simp
  qed
  then have "\<not> (\<exists>f. (0x400000 :: u64) = f * PMM_FRAME_SIZE \<and> unat f < 1024)" by auto
  with pmm_reachable_safe [OF r] r show ?thesis using sample_map(1) by (auto simp: mb2_sample_entries sample_map(2))
qed

end
