(* ===== verification/Ports.thy ===== *)
theory Ports
  imports Prelude
begin

text \<open>
  include/io.h: the port instructions. What a device answers is not code of the kernel, so it is the
  field \<open>port_dev\<close>: the byte that the n-th read gives on each port, for an arbitrary function. The
  writes are kept in order.
\<close>

record ports =
  port_dev :: "nat \<Rightarrow> u16 \<Rightarrow> u8"
  port_reads :: nat
  port_writes :: "(u16 \<times> u8) list"

definition inb :: "u16 \<Rightarrow> ports \<Rightarrow> u8 \<times> ports" where
  "inb port io = (port_dev io (port_reads io) port, io\<lparr>port_reads := Suc (port_reads io)\<rparr>)"

definition outb :: "u16 \<Rightarrow> u8 \<Rightarrow> ports \<Rightarrow> ports" where
  "outb port val io = io\<lparr>port_writes := port_writes io @ [(port, val)]\<rparr>"

definition io_wait :: "ports \<Rightarrow> ports" where
  "io_wait = outb 0x80 0"

text \<open>A device that answers 0 to every read.\<close>

definition ports_idle :: ports where
  "ports_idle = \<lparr>port_dev = (\<lambda>_ _. 0), port_reads = 0, port_writes = []\<rparr>"

lemma inb_fields [simp]:
  "port_writes (snd (inb p io)) = port_writes io" "port_dev (snd (inb p io)) = port_dev io"
  "fst (inb p io) = port_dev io (port_reads io) p"
  by (simp_all add: inb_def)

lemma outb_fields [simp]:
  "port_writes (outb p v io) = port_writes io @ [(p, v)]" "port_dev (outb p v io) = port_dev io"
  "port_reads (outb p v io) = port_reads io"
  by (simp_all add: outb_def)

end
