(* ===== verification/Kstring.thy ===== *)
theory Kstring
  imports Prelude
begin

text \<open>
  lib/string.c: the memory and string routines, over a flat memory of one byte per 64-bit address.
  Pointers are addresses and pointer arithmetic wraps. A loop that ends at a zero byte may run
  forever, so it is a partial function with \<open>None\<close> for no end; a counted loop recurses on the count.
\<close>

type_synonym mem = "u64 \<Rightarrow> u8"

section \<open>Memory blocks\<close>

fun memset_loop :: "nat \<Rightarrow> u64 \<Rightarrow> u8 \<Rightarrow> mem \<Rightarrow> mem" where
  "memset_loop 0 p c m = m"
| "memset_loop (Suc n) p c m = memset_loop n (p + 1) c (m(p := c))"

definition memset :: "u64 \<Rightarrow> u32 \<Rightarrow> u64 \<Rightarrow> mem \<Rightarrow> mem" where
  "memset dst c n m = memset_loop (unat n) dst (ucast c) m"

fun copy_up :: "nat \<Rightarrow> u64 \<Rightarrow> u64 \<Rightarrow> mem \<Rightarrow> mem" where
  "copy_up 0 d s m = m"
| "copy_up (Suc n) d s m = copy_up n (d + 1) (s + 1) (m(d := m s))"

fun copy_down :: "nat \<Rightarrow> u64 \<Rightarrow> u64 \<Rightarrow> mem \<Rightarrow> mem" where
  "copy_down 0 d s m = m"
| "copy_down (Suc n) d s m = (let d = d - 1; s = s - 1 in copy_down n d s (m(d := m s)))"

definition memcpy :: "u64 \<Rightarrow> u64 \<Rightarrow> u64 \<Rightarrow> mem \<Rightarrow> mem" where
  "memcpy dst src n m = copy_up (unat n) dst src m"

definition memmove :: "u64 \<Rightarrow> u64 \<Rightarrow> u64 \<Rightarrow> mem \<Rightarrow> mem" where
  "memmove dst src n m =
     (if dst < src then copy_up (unat n) dst src m else copy_down (unat n) (dst + n) (src + n) m)"

fun memcmp_loop :: "nat \<Rightarrow> u64 \<Rightarrow> u64 \<Rightarrow> mem \<Rightarrow> int" where
  "memcmp_loop 0 p q m = 0"
| "memcmp_loop (Suc n) p q m =
     (if m p \<noteq> m q then uint (m p) - uint (m q) else memcmp_loop n (p + 1) (q + 1) m)"

definition memcmp :: "u64 \<Rightarrow> u64 \<Rightarrow> u64 \<Rightarrow> mem \<Rightarrow> int" where
  "memcmp a b n m = memcmp_loop (unat n) a b m"

section \<open>Strings\<close>

partial_function (option) strlen_loop :: "mem \<Rightarrow> u64 \<Rightarrow> u64 \<Rightarrow> u64 option" where
  "strlen_loop m s n = (if m s \<noteq> 0 then strlen_loop m (s + 1) (n + 1) else Some n)"

definition strlen :: "u64 \<Rightarrow> mem \<Rightarrow> u64 option" where
  "strlen s m = strlen_loop m s 0"

partial_function (option) strcmp :: "mem \<Rightarrow> u64 \<Rightarrow> u64 \<Rightarrow> int option" where
  "strcmp m a b =
     (if m a \<noteq> 0 \<and> m a = m b then strcmp m (a + 1) (b + 1) else Some (uint (m a) - uint (m b)))"

text \<open>The \<open>n--\<close> of strncmp has wrapped to \<open>(size_t)-1\<close> exactly when the count was used up.\<close>

fun strncmp_loop :: "nat \<Rightarrow> mem \<Rightarrow> u64 \<Rightarrow> u64 \<Rightarrow> int" where
  "strncmp_loop 0 m a b = 0"
| "strncmp_loop (Suc n) m a b =
     (if m a \<noteq> 0 \<and> m a = m b then strncmp_loop n m (a + 1) (b + 1) else uint (m a) - uint (m b))"

definition strncmp :: "u64 \<Rightarrow> u64 \<Rightarrow> u64 \<Rightarrow> mem \<Rightarrow> int" where
  "strncmp a b n m = strncmp_loop (unat n) m a b"

partial_function (option) strcpy_loop :: "mem \<Rightarrow> u64 \<Rightarrow> u64 \<Rightarrow> mem option" where
  "strcpy_loop m d s =
     (let c = m s; m' = m(d := c) in if c \<noteq> 0 then strcpy_loop m' (d + 1) (s + 1) else Some m')"

definition strcpy :: "u64 \<Rightarrow> u64 \<Rightarrow> mem \<Rightarrow> mem option" where
  "strcpy dst src m = strcpy_loop m dst src"

partial_function (option) strchr_loop :: "mem \<Rightarrow> u8 \<Rightarrow> u64 \<Rightarrow> (u64 \<times> bool) option" where
  "strchr_loop m c s =
     (if m s \<noteq> 0 then if m s = c then Some (s, True) else strchr_loop m c (s + 1) else Some (s, False))"

text \<open>NULL is the address 0.\<close>

definition strchr :: "u64 \<Rightarrow> u32 \<Rightarrow> mem \<Rightarrow> u64 option" where
  "strchr s c m = do {
     (p, found) \<leftarrow> strchr_loop m (ucast c) s;
     Some (if found then p else if c = 0 then p else 0)
   }"

partial_function (option) strrchr_loop :: "mem \<Rightarrow> u8 \<Rightarrow> u64 \<Rightarrow> u64 \<Rightarrow> (u64 \<times> u64) option" where
  "strrchr_loop m c s lst =
     (if m s \<noteq> 0 then strrchr_loop m c (s + 1) (if m s = c then s else lst) else Some (s, lst))"

definition strrchr :: "u64 \<Rightarrow> u32 \<Rightarrow> mem \<Rightarrow> u64 option" where
  "strrchr s c m = do {
     (p, lst) \<leftarrow> strrchr_loop m (ucast c) s 0;
     Some (if c = 0 then p else lst)
   }"

definition strcat :: "u64 \<Rightarrow> u64 \<Rightarrow> mem \<Rightarrow> mem option" where
  "strcat dst src m = do {
     len \<leftarrow> strlen dst m;
     strcpy_loop m (dst + len) src
   }"

fun strncat_loop :: "nat \<Rightarrow> u64 \<Rightarrow> u64 \<Rightarrow> mem \<Rightarrow> mem" where
  "strncat_loop 0 d s m = m(d := 0)"
| "strncat_loop (Suc n) d s m =
     (if m s \<noteq> 0 then strncat_loop n (d + 1) (s + 1) (m(d := m s)) else m(d := 0))"

definition strncat :: "u64 \<Rightarrow> u64 \<Rightarrow> u64 \<Rightarrow> mem \<Rightarrow> mem option" where
  "strncat dst src n m = do {
     len \<leftarrow> strlen dst m;
     Some (strncat_loop (unat n) (dst + len) src m)
   }"

text \<open>
  strncpy: the first loop leaves the remaining count, which it does not decrement for the terminator
  it copies, and the second loop writes that many zeros.
\<close>

fun strncpy_loop :: "nat \<Rightarrow> u64 \<Rightarrow> u64 \<Rightarrow> mem \<Rightarrow> nat \<times> u64 \<times> mem" where
  "strncpy_loop 0 d s m = (0, d, m)"
| "strncpy_loop (Suc n) d s m =
     (let c = m s; m' = m(d := c) in
      if c \<noteq> 0 then strncpy_loop n (d + 1) (s + 1) m' else (Suc n, d + 1, m'))"

definition strncpy :: "u64 \<Rightarrow> u64 \<Rightarrow> u64 \<Rightarrow> mem \<Rightarrow> mem" where
  "strncpy dst src n m =
     (let (n, d, m) = strncpy_loop (unat n) dst src m in memset_loop n d 0 m)"

section \<open>Specification\<close>

text \<open>The bytes from an address on, and a zero-terminated string there.\<close>

definition bytes_at :: "mem \<Rightarrow> u64 \<Rightarrow> nat \<Rightarrow> u8 list" where
  "bytes_at m p n = map (\<lambda>i. m (p + of_nat i)) [0..<n]"

definition str_at :: "mem \<Rightarrow> u64 \<Rightarrow> u8 list \<Rightarrow> bool" where
  "str_at m p cs \<longleftrightarrow> bytes_at m p (length cs) = cs \<and> 0 \<notin> set cs \<and> m (p + of_nat (length cs)) = 0"

text \<open>The addresses of a block, which does not wrap around the address space.\<close>

definition block :: "u64 \<Rightarrow> nat \<Rightarrow> u64 set" where
  "block p n = {p + of_nat i | i. i < n}"

lemma bytes_at_Suc: "bytes_at m p (Suc n) = m p # bytes_at m (p + 1) n"
  by (simp add: bytes_at_def upt_conv_Cons map_Suc_upt [symmetric] add.assoc del: upt_Suc)

lemma bytes_at_0 [simp]: "bytes_at m p 0 = []"
  by (simp add: bytes_at_def)

lemma length_bytes_at [simp]: "length (bytes_at m p n) = n"
  by (simp add: bytes_at_def)

lemma str_at_Nil [simp]: "str_at m p [] \<longleftrightarrow> m p = 0"
  by (simp add: str_at_def)

lemma str_at_Cons [simp]: "str_at m p (c # cs) \<longleftrightarrow> m p = c \<and> c \<noteq> 0 \<and> str_at m (p + 1) cs"
  by (auto simp: str_at_def bytes_at_Suc add.assoc)

lemma block_Suc: "block p (Suc n) = insert p (block (p + 1) n)"
proof -
  have "q \<in> block p (Suc n) \<longleftrightarrow> q = p \<or> q \<in> block (p + 1) n" for q
  proof
    assume "q \<in> block p (Suc n)"
    then obtain i where i: "q = p + of_nat i" "i < Suc n" by (auto simp: block_def)
    then show "q = p \<or> q \<in> block (p + 1) n"
      by (cases i) (auto simp: block_def add.assoc)
  next
    assume "q = p \<or> q \<in> block (p + 1) n"
    then show "q \<in> block p (Suc n)"
    proof
      assume "q = p"
      then show ?thesis by (auto simp: block_def intro!: exI [of _ 0])
    next
      assume "q \<in> block (p + 1) n"
      then obtain i where "q = p + 1 + of_nat i" "i < n" by (auto simp: block_def)
      then show ?thesis by (auto simp: block_def intro!: exI [of _ "Suc i"])
    qed
  qed
  then show ?thesis by blast
qed

lemma block_0 [simp]: "block p 0 = {}"
  by (simp add: block_def)

lemma block_less:
  assumes "unat p + n \<le> 2 ^ 64"
  shows "q \<in> block p n \<longleftrightarrow> unat p \<le> unat q \<and> unat q < unat p + n"
proof
  assume "q \<in> block p n"
  then obtain i where i: "q = p + of_nat i" "i < n" by (auto simp: block_def)
  have "unat q = unat p + i" using i assms by (simp add: unat_word_ariths(1) unat_of_nat)
  then show "unat p \<le> unat q \<and> unat q < unat p + n" using i by simp
next
  assume q: "unat p \<le> unat q \<and> unat q < unat p + n"
  have "q = p + of_nat (unat q - unat p)" using q by (simp add: of_nat_diff)
  then show "q \<in> block p n" using q unfolding block_def by (intro CollectI exI [of _ "unat q - unat p"]) auto
qed

lemma memset_loop_spec: "memset_loop n p c m q = (if q \<in> block p n then c else m q)"
  by (induction n arbitrary: p m) (auto simp: block_Suc)

lemma unat_ptr_step: "unat p + Suc n \<le> 2 ^ 64 \<Longrightarrow> 0 < n \<Longrightarrow> unat (p + 1 :: u64) = Suc (unat p)"
  by (simp add: unat_word_ariths(1))

lemma copy_up_outside: "q \<notin> block d n \<Longrightarrow> copy_up n d s m q = m q"
  by (induction n arbitrary: d s m) (auto simp: block_Suc)

lemma copy_up_spec:
  assumes "unat d + n \<le> 2 ^ 64" and "unat s + n \<le> 2 ^ 64"
    and "unat d \<le> unat s \<or> unat s + n \<le> unat d" and "i < n"
  shows "copy_up n d s m (d + of_nat i) = m (s + of_nat i)"
  using assms
proof (induction n arbitrary: d s m i)
  case 0
  then show ?case by simp
next
  case (Suc n)
  show ?case
  proof (cases i)
    case 0
    have "d \<notin> block (d + 1) n"
    proof (cases "n = 0")
      case False
      then have u: "unat (d + 1) = Suc (unat d)" using Suc.prems(1) by (intro unat_ptr_step) auto
      then show ?thesis using block_less [of "d + 1" n d] Suc.prems(1) by simp
    qed simp
    then show ?thesis using 0 by (simp add: copy_up_outside)
  next
    case (Suc j)
    then have pos: "0 < n" using \<open>i < _\<close> by simp
    have ud: "unat (d + 1) = Suc (unat d)" and us: "unat (s + 1) = Suc (unat s)"
      using Suc.prems(1,2) pos by (auto intro!: unat_ptr_step)
    have "copy_up n (d + 1) (s + 1) (m(d := m s)) (d + 1 + of_nat j) = (m(d := m s)) (s + 1 + of_nat j)"
      using \<open>i = Suc j\<close> Suc.prems ud us by (intro Suc.IH) auto
    moreover have "s + 1 + of_nat j \<noteq> d"
    proof -
      have "s + 1 + of_nat j \<in> block (s + 1) n" using \<open>i = Suc j\<close> Suc.prems(4) by (auto simp: block_def)
      then have "unat s < unat (s + 1 + of_nat j)" "unat (s + 1 + of_nat j) < unat s + Suc n"
        using block_less [of "s + 1" n] us Suc.prems(2) by auto
      then show ?thesis using Suc.prems(3) by auto
    qed
    ultimately show ?thesis using \<open>i = Suc j\<close> by (simp add: add.assoc)
  qed
qed

lemma block_Suc_last: "block p (Suc n) = insert (p + of_nat n) (block p n)"
  by (auto simp: block_def less_Suc_eq)

lemma copy_down_outside: "q \<notin> block d n \<Longrightarrow> copy_down n (d + of_nat n) (s + of_nat n) m q = m q"
  by (induction n arbitrary: m) (auto simp: block_Suc_last Let_def)

lemma unat_ptr_add: "unat p + n \<le> 2 ^ 64 \<Longrightarrow> i < n \<Longrightarrow> unat (p + of_nat i :: u64) = unat p + i"
  by (simp add: unat_word_ariths(1) unat_of_nat)

lemma copy_down_spec:
  assumes "unat d + n \<le> 2 ^ 64" and "unat s + n \<le> 2 ^ 64" and "unat s \<le> unat d" and "i < n"
  shows "copy_down n (d + of_nat n) (s + of_nat n) m (d + of_nat i) = m (s + of_nat i)"
  using assms
proof (induction n arbitrary: m)
  case 0
  then show ?case by simp
next
  case (Suc n)
  let ?m' = "m(d + of_nat n := m (s + of_nat n))"
  have step: "copy_down (Suc n) (d + of_nat (Suc n)) (s + of_nat (Suc n)) m =
      copy_down n (d + of_nat n) (s + of_nat n) ?m'" by (simp add: Let_def)
  have un: "unat (d + of_nat n) = unat d + n" using Suc.prems(1) unat_ptr_add [of d "Suc n" n] by simp
  show ?case
  proof (cases "i < n")
    case True
    have "unat (s + of_nat i) = unat s + i" using Suc.prems(2) True unat_ptr_add [of s "Suc n" i] by simp
    then have "s + of_nat i \<noteq> d + of_nat n" using un Suc.prems(3) True by (metis add_less_le_mono linorder_not_less order_refl add.commute)
    then have "?m' (s + of_nat i) = m (s + of_nat i)" by simp
    moreover have "copy_down n (d + of_nat n) (s + of_nat n) ?m' (d + of_nat i) = ?m' (s + of_nat i)"
      by (rule Suc.IH) (use Suc.prems True in simp_all)
    ultimately show ?thesis unfolding step by (simp only:)
  next
    case False
    then have i: "i = n" using Suc.prems(4) by simp
    have "d + of_nat n \<notin> block d n" using block_less [of d n] Suc.prems(1) un by simp
    then show ?thesis unfolding step i by (simp add: copy_down_outside)
  qed
qed

lemma bytes_at_eqI: "(\<And>i. i < n \<Longrightarrow> m' (p + of_nat i) = m (q + of_nat i)) \<Longrightarrow> bytes_at m' p n = bytes_at m q n"
  by (simp add: bytes_at_def)

lemma strlen_loop_str: "str_at m s cs \<Longrightarrow> strlen_loop m s n = Some (n + of_nat (length cs))"
proof (induction cs arbitrary: s n)
  case Nil
  then show ?case by (subst strlen_loop.simps) simp
next
  case (Cons c cs)
  then show ?case by (subst strlen_loop.simps) (simp add: add.assoc)
qed

lemma strlen_str: "str_at m s cs \<Longrightarrow> strlen s m = Some (of_nat (length cs))"
  by (simp add: strlen_def strlen_loop_str)

text \<open>The order strcmp computes on byte strings.\<close>

fun bytes_less :: "u8 list \<Rightarrow> u8 list \<Rightarrow> bool" where
  "bytes_less _ [] = False"
| "bytes_less [] (_ # _) = True"
| "bytes_less (x # xs) (y # ys) \<longleftrightarrow> x < y \<or> x = y \<and> bytes_less xs ys"

lemma strcmp_str:
  assumes "str_at m a xs" and "str_at m b ys"
  shows "\<exists>r. strcmp m a b = Some r \<and> (r = 0 \<longleftrightarrow> xs = ys) \<and> (r < 0 \<longleftrightarrow> bytes_less xs ys)"
  using assms
proof (induction xs arbitrary: a b ys)
  case Nil
  then show ?case by (subst strcmp.simps, cases ys) (auto simp: less_le uint_0_iff)
next
  case (Cons x xs)
  show ?case
  proof (cases ys)
    case Nil
    then show ?thesis using Cons.prems by (subst strcmp.simps) (auto simp: uint_0_iff not_less)
  next
    case (Cons y ys')
    show ?thesis
    proof (cases "x = y")
      case True
      then show ?thesis using Cons.IH [of "a + 1" "b + 1" ys'] Cons.prems Cons
        by (subst strcmp.simps) auto
    next
      case False
      then show ?thesis using Cons.prems Cons
        by (subst strcmp.simps) (auto simp: word_less_def dest: unsigned_word_eqI)
    qed
  qed
qed

fun write_bytes :: "u64 \<Rightarrow> u8 list \<Rightarrow> mem \<Rightarrow> mem" where
  "write_bytes d [] m = m"
| "write_bytes d (x # xs) m = write_bytes (d + 1) xs (m(d := x))"

lemma write_bytes_append: "write_bytes d (xs @ ys) m = write_bytes (d + of_nat (length xs)) ys (write_bytes d xs m)"
  by (induction xs arbitrary: d m) (simp_all add: add.assoc)

lemma write_bytes_outside: "q \<notin> block d (length xs) \<Longrightarrow> write_bytes d xs m q = m q"
  by (induction xs arbitrary: d m) (auto simp: block_Suc)

lemma memset_loop_write: "memset_loop n d c m = write_bytes d (replicate n c) m"
  by (induction n arbitrary: d m) simp_all

lemma write_bytes_read:
  assumes "unat d + length xs \<le> 2 ^ 64"
  shows "bytes_at (write_bytes d xs m) d (length xs) = xs"
  using assms
proof (induction xs arbitrary: d m)
  case Nil
  then show ?case by simp
next
  case (Cons x xs)
  show ?case
  proof (cases "xs = []")
    case True
    then show ?thesis by (simp add: bytes_at_Suc)
  next
    case False
    then have u: "unat (d + 1) = Suc (unat d)" using Cons.prems by (intro unat_ptr_step [of _ "length xs"]) auto
    then have "d \<notin> block (d + 1) (length xs)" using block_less [of "d + 1" "length xs" d] Cons.prems by simp
    then have "write_bytes (d + 1) xs (m(d := x)) d = x" by (simp add: write_bytes_outside)
    then show ?thesis using Cons.IH [of "d + 1" "m(d := x)"] Cons.prems u by (simp add: bytes_at_Suc del: fun_upd_apply)
  qed
qed

lemma bytes_at_append: "bytes_at m p (n + k) = bytes_at m p n @ bytes_at m (p + of_nat n) k"
  by (induction n arbitrary: p) (simp_all add: bytes_at_Suc add.assoc)

lemma write_str_at:
  assumes "unat d + Suc (length cs) \<le> 2 ^ 64" and "0 \<notin> set cs"
  shows "str_at (write_bytes d (cs @ [0]) m) d cs"
proof -
  have "bytes_at (write_bytes d (cs @ [0]) m) d (Suc (length cs)) = cs @ [0]"
    using write_bytes_read [of d "cs @ [0]" m] assms(1) by simp
  then have "bytes_at (write_bytes d (cs @ [0]) m) d (length cs) @
      bytes_at (write_bytes d (cs @ [0]) m) (d + of_nat (length cs)) 1 = cs @ [0]"
    using bytes_at_append [of "write_bytes d (cs @ [0]) m" d "length cs" 1] by simp
  then show ?thesis using assms(2) by (simp add: str_at_def bytes_at_Suc)
qed

lemma str_at_upd: "q \<notin> block s (Suc (length cs)) \<Longrightarrow> str_at (m(q := x)) s cs = str_at m s cs"
  by (induction cs arbitrary: s) (auto simp: block_Suc)

lemma str_at_write: "block d (length xs) \<inter> block s (Suc (length cs)) = {} \<Longrightarrow>
    str_at (write_bytes d xs m) s cs = str_at m s cs"
proof (induction xs arbitrary: d m)
  case (Cons x xs)
  then have "d \<notin> block s (Suc (length cs))" "block (d + 1) (length xs) \<inter> block s (Suc (length cs)) = {}"
    by (auto simp: block_Suc [of d])
  then show ?case using Cons.IH [of "d + 1" "m(d := x)"] str_at_upd by (simp del: fun_upd_apply)
qed simp

lemma strcpy_loop_str:
  assumes "str_at m s cs" and "block d (Suc (length cs)) \<inter> block s (Suc (length cs)) = {}"
  shows "strcpy_loop m d s = Some (write_bytes d (cs @ [0]) m)"
  using assms
proof (induction cs arbitrary: d s m)
  case Nil
  then show ?case by (subst strcpy_loop.simps) simp
next
  case (Cons c cs)
  have d: "d \<notin> block (s + 1) (Suc (length cs))" using Cons.prems(2) by (simp add: block_Suc [of s] block_Suc [of d])
  have "block (d + 1) (Suc (length cs)) \<inter> block (s + 1) (Suc (length cs)) = {}"
    using Cons.prems(2) block_Suc [of s "Suc (length cs)"] block_Suc [of d "Suc (length cs)"] by auto
  moreover have "str_at (m(d := c)) (s + 1) cs" using Cons.prems(1) str_at_upd [OF d] by simp
  ultimately have "strcpy_loop (m(d := c)) (d + 1) (s + 1) = Some (write_bytes (d + 1) (cs @ [0]) (m(d := c)))"
    by (rule Cons.IH [rotated])
  then show ?case using Cons.prems(1) by (subst strcpy_loop.simps) (simp add: Let_def)
qed

lemma strncpy_loop_str:
  assumes "str_at m s cs" and "block d (Suc n) \<inter> block s (Suc (length cs)) = {}"
  shows "strncpy_loop n d s m =
    (if length cs < n then (n - length cs, d + of_nat (Suc (length cs)), write_bytes d (cs @ [0]) m)
     else (0, d + of_nat n, write_bytes d (take n cs) m))"
  using assms
proof (induction n arbitrary: d s m cs)
  case 0
  then show ?case by simp
next
  case (Suc n)
  show ?case
  proof (cases cs)
    case Nil
    then show ?thesis using Suc.prems(1) by simp
  next
    case (Cons c cs')
    have d: "d \<notin> block (s + 1) (Suc (length cs'))"
      using Suc.prems(2) Cons by (simp add: block_Suc [of s] block_Suc [of d])
    have "block (d + 1) (Suc n) \<inter> block (s + 1) (Suc (length cs')) = {}"
      using Suc.prems(2) block_Suc [of s "Suc (length cs')"] block_Suc [of d "Suc n"] Cons by auto
    moreover have "str_at (m(d := c)) (s + 1) cs'" using Suc.prems(1) str_at_upd [OF d] Cons by simp
    ultimately show ?thesis using Suc.IH [of "m(d := c)" "s + 1" cs' "d + 1"] Suc.prems(1) Cons
      by (auto simp: Let_def add.assoc simp del: fun_upd_apply)
  qed
qed

lemma block_numeral [simp]: "block p (numeral k) = insert p (block (p + 1) (pred_numeral k))"
  by (simp add: numeral_eq_Suc block_Suc)

lemma bytes_at_numeral [simp]: "bytes_at m p (numeral k) = m p # bytes_at m (p + 1) (pred_numeral k)"
  by (simp add: numeral_eq_Suc bytes_at_Suc)

section \<open>Properties\<close>

text \<open>C31: memmove copies a block onto another one correctly however the two overlap: afterwards the
  destination holds the bytes the source held before, and no other byte has changed.\<close>

theorem memmove_correct:
  assumes "unat dst + unat n \<le> 2 ^ 64" and "unat src + unat n \<le> 2 ^ 64"
  shows "bytes_at (memmove dst src n m) dst (unat n) = bytes_at m src (unat n) \<and>
    (\<forall>q. q \<notin> block dst (unat n) \<longrightarrow> memmove dst src n m q = m q)"
proof (cases "dst < src")
  case True
  then have "unat dst \<le> unat src" by (simp add: word_less_nat_alt)
  then show ?thesis
    using True assms by (auto simp: memmove_def copy_up_outside intro!: bytes_at_eqI copy_up_spec)
next
  case False
  have le: "unat src \<le> unat dst" using False by (simp add: word_less_nat_alt)
  have mv: "memmove dst src n m = copy_down (unat n) (dst + of_nat (unat n)) (src + of_nat (unat n)) m"
    using False by (simp add: memmove_def)
  show ?thesis unfolding mv
    by (intro conjI allI impI bytes_at_eqI) (erule copy_down_spec [OF assms le] copy_down_outside)+
qed

theorem memmove_correct_witness:
  "bytes_at (memmove 0x1001 0x1000 2 (\<lambda>a. ucast a)) 0x1001 2 = [0, 1]"
  using memmove_correct [of "0x1001" 2 "0x1000" "\<lambda>a. ucast a"]
  by (simp add: bytes_at_Suc)

text \<open>C32: on zero-terminated strings strcmp returns, its result is 0 exactly for equal strings and
  negative exactly when the first string is smaller, byte by byte as unsigned values.\<close>

theorem strcmp_correct:
  assumes "str_at m a xs" and "str_at m b ys"
  shows "\<exists>r. strcmp m a b = Some r \<and> (r = 0 \<longleftrightarrow> xs = ys) \<and> (r < 0 \<longleftrightarrow> bytes_less xs ys)"
  by (rule strcmp_str [OF assms])

theorem strcmp_correct_witness:
  "\<exists>r. strcmp ((\<lambda>_. 0)(1 := 97, 10 := 98)) 1 10 = Some r \<and> r < 0"
  using strcmp_correct [of "(\<lambda>_. 0)(1 := 97, 10 := 98)" 1 "[97]" 10 "[98]"] by auto

text \<open>C33: strcat of two separate strings returns and leaves their concatenation at the destination.\<close>

theorem strcat_correct:
  assumes "str_at m dst xs" and "str_at m src ys"
    and "unat dst + length xs + Suc (length ys) \<le> 2 ^ 64"
    and "block (dst + of_nat (length xs)) (Suc (length ys)) \<inter> block src (Suc (length ys)) = {}"
  shows "\<exists>m'. strcat dst src m = Some m' \<and> str_at m' dst (xs @ ys)"
proof -
  let ?p = "dst + of_nat (length xs)"
  let ?m' = "write_bytes ?p (ys @ [0]) m"
  have cat: "strcat dst src m = Some ?m'"
    using strcpy_loop_str [OF assms(2,4)] by (simp add: strcat_def strlen_str [OF assms(1)])
  have up: "unat ?p = unat dst + length xs"
    using unat_ptr_add [of dst "length xs + Suc (length ys)" "length xs"] assms(3) by simp
  have ny: "0 \<notin> set ys" using assms(2) by (simp add: str_at_def)
  have tail: "str_at ?m' ?p ys" using write_str_at [OF _ ny, of ?p m] up assms(3) by simp
  have "?m' (dst + of_nat i) = m (dst + of_nat i)" if "i < length xs" for i
  proof -
    have "unat (dst + of_nat i) = unat dst + i"
      using unat_ptr_add [of dst "length xs + Suc (length ys)" i] assms(3) that by simp
    then have "dst + of_nat i \<notin> block ?p (length (ys @ [0]))"
      using block_less [of ?p "Suc (length ys)"] up assms(3) that by simp
    then show ?thesis by (rule write_bytes_outside)
  qed
  then have "bytes_at ?m' dst (length xs) = xs"
    using bytes_at_eqI [of "length xs" ?m' dst m dst] assms(1) by (simp add: str_at_def)
  then have "str_at ?m' dst (xs @ ys)"
    using tail assms(1) ny by (simp add: str_at_def bytes_at_append add.assoc)
  then show ?thesis using cat by blast
qed

theorem strcat_correct_witness:
  "\<exists>m'. strcat 1 10 ((\<lambda>_. 0)(1 := 97, 10 := 98)) = Some m' \<and> str_at m' 1 [97, 98]"
proof -
  have "block (1 + of_nat (length [97 :: u8])) (Suc (length [98 :: u8])) \<inter> block 10 (Suc (length [98 :: u8])) = {}"
    by (simp add: block_Suc)
  from strcat_correct [OF _ _ _ this, of "(\<lambda>_. 0)(1 := 97, 10 := 98)"] show ?thesis by simp
qed

text \<open>C34: strncpy writes one byte more than its bound when the source is shorter than the bound: the
  terminator it copies is not counted, so \<open>n + 1\<close> bytes of the destination change. With a source of
  at least \<open>n\<close> bytes it writes exactly \<open>n\<close>, without a terminator.\<close>

theorem strncpy_writes:
  assumes "str_at m src cs" and "block dst (Suc (unat n)) \<inter> block src (Suc (length cs)) = {}"
  shows "strncpy dst src n m =
    (if length cs < unat n then write_bytes dst (cs @ replicate (Suc (unat n) - length cs) 0) m
     else write_bytes dst (take (unat n) cs) m)"
proof (cases "length cs < unat n")
  case True
  then have "Suc (unat n) - length cs = Suc (unat n - length cs)" by simp
  then have "cs @ replicate (Suc (unat n) - length cs) 0 = (cs @ [0]) @ replicate (unat n - length cs) 0"
    by (simp add: replicate_app_Cons_same)
  then show ?thesis
    using strncpy_loop_str [OF assms] True
    by (simp add: strncpy_def memset_loop_write write_bytes_append ac_simps)
next
  case False
  then show ?thesis using strncpy_loop_str [OF assms] by (simp add: strncpy_def)
qed

theorem strncpy_writes_witness: "strncpy 1 10 2 ((\<lambda>_. 7)(10 := 97, 11 := 0)) 3 = 0"
proof -
  have b: "block 1 (Suc (unat (2::u64))) \<inter> block 10 (Suc (length [97 :: u8])) = {}"
    by (simp add: block_Suc)
  have "replicate 2 (0::u8) = [0, 0]" by (simp add: numeral_2_eq_2)
  with strncpy_writes [OF _ b, of "(\<lambda>_. 7)(10 := 97, 11 := 0)"] show ?thesis
    by simp
qed

end
