(* ===== verification/Vmm.thy ===== *)
theory Vmm
  imports Pmm Kstring
begin

text \<open>
  kernel/mm/vmm.c: the four-level page tables. Page tables live in physical memory, which the
  kernel reaches through its identity map, so a table pointer is a physical address of the flat
  memory \<open>vm_mem\<close> and an entry the little-endian 64-bit word stored there. The frames come from the
  allocator state \<open>vm_pmm\<close>. The register CR3 and the sequence of invlpg instructions (latest first)
  are fields of the state; the linker symbols stack_bottom and _kernel_end are arguments of
  vmm_init. NULL is 0. Console output is left out.
\<close>

section \<open>Memory words and loops\<close>

definition write_u64 :: "u64 \<Rightarrow> u64 \<Rightarrow> mem \<Rightarrow> mem" where
  "write_u64 a v m = (\<lambda>b. if b - a < 8 then ucast (drop_bit (8 * unat (b - a)) v) else m b)"

text \<open>A counted loop whose body may panic, and one whose body may also leave through a \<open>goto\<close>.\<close>

fun for_each :: "'a list \<Rightarrow> ('a \<Rightarrow> 's \<Rightarrow> 's option) \<Rightarrow> 's \<Rightarrow> 's option" where
  "for_each [] body s = Some s"
| "for_each (x # xs) body s = do { s \<leftarrow> body x s; for_each xs body s }"

fun for_while_ok :: "'a list \<Rightarrow> ('a \<Rightarrow> 's \<Rightarrow> (bool \<times> 's) option) \<Rightarrow> 's \<Rightarrow> (bool \<times> 's) option" where
  "for_while_ok [] body s = Some (True, s)"
| "for_while_ok (x # xs) body s = do {
     (ok, s) \<leftarrow> body x s;
     if ok then for_while_ok xs body s else Some (False, s)
   }"

section \<open>Constants and state (vmm.h, vmm.c)\<close>

definition KERNEL_VMA :: u64 where "KERNEL_VMA = 0xFFFFFFFF80000000"
definition USER_SPACE_TOP :: u64 where "USER_SPACE_TOP = 0x0000800000000000"
definition PAGE_SIZE :: u64 where "PAGE_SIZE = 4096"

definition VMM_PRESENT :: u64 where "VMM_PRESENT = push_bit 0 1"
definition VMM_WRITE :: u64 where "VMM_WRITE = push_bit 1 1"
definition VMM_USER :: u64 where "VMM_USER = push_bit 2 1"
definition VMM_HUGE :: u64 where "VMM_HUGE = push_bit 7 1"
definition VMM_COW :: u64 where "VMM_COW = push_bit 9 1"
definition VMM_NX :: u64 where "VMM_NX = push_bit 63 1"
definition VMM_PHYS_MASK :: u64 where "VMM_PHYS_MASK = 0x000FFFFFFFFFF000"

record vmm_state =
  vm_pmm :: pmm_state
  vm_mem :: mem
  vm_cr3 :: u64
  vm_invlpg :: "u64 list"
  kernel_pml4 :: u64
  kheap_next :: u64

section \<open>Entries\<close>

definition pte_addr :: "u64 \<Rightarrow> u64 \<Rightarrow> u64" where
  "pte_addr t i = t + 8 * i"

definition pte :: "mem \<Rightarrow> u64 \<Rightarrow> u64 \<Rightarrow> u64" where
  "pte m t i = read_u64 m (pte_addr t i)"

definition pte_has :: "u64 \<Rightarrow> u64 \<Rightarrow> bool" where
  "pte_has e fl \<longleftrightarrow> e AND fl \<noteq> 0"

definition set_mem :: "u64 \<Rightarrow> u64 \<Rightarrow> vmm_state \<Rightarrow> vmm_state" where
  "set_mem a v s = s\<lparr>vm_mem := write_u64 a v (vm_mem s)\<rparr>"

definition invlpg :: "u64 \<Rightarrow> vmm_state \<Rightarrow> vmm_state" where
  "invlpg v s = s\<lparr>vm_invlpg := v # vm_invlpg s\<rparr>"

definition zero_page :: "u64 \<Rightarrow> vmm_state \<Rightarrow> vmm_state" where
  "zero_page p s = s\<lparr>vm_mem := memset p 0 PAGE_SIZE (vm_mem s)\<rparr>"

definition vmm_alloc_frame :: "vmm_state \<Rightarrow> u64 \<times> vmm_state" where
  "vmm_alloc_frame s = (let (phys, p) = pmm_alloc_frame (vm_pmm s) in (phys, s\<lparr>vm_pmm := p\<rparr>))"

definition vmm_free_frame :: "u64 \<Rightarrow> vmm_state \<Rightarrow> vmm_state option" where
  "vmm_free_frame a s = do { p \<leftarrow> pmm_free_frame a (vm_pmm s); Some (s\<lparr>vm_pmm := p\<rparr>) }"

section \<open>Internal helpers\<close>

definition pt_walk_or_alloc :: "u64 \<Rightarrow> vmm_state \<Rightarrow> u64 \<times> vmm_state" where
  "pt_walk_or_alloc entry s =
     (if pte_has (read_u64 (vm_mem s) entry) VMM_PRESENT
      then (read_u64 (vm_mem s) entry AND VMM_PHYS_MASK, s)
      else
        (let (phys, s) = vmm_alloc_frame s in
         if phys = PMM_ALLOC_FAILED then (0, s)
         else (phys, set_mem entry (phys OR VMM_PRESENT OR VMM_WRITE) (zero_page phys s))))"

definition pml4_idx :: "u64 \<Rightarrow> u64" where "pml4_idx v = drop_bit 39 v AND 0x1FF"
definition pdpt_idx :: "u64 \<Rightarrow> u64" where "pdpt_idx v = drop_bit 30 v AND 0x1FF"
definition pd_idx :: "u64 \<Rightarrow> u64" where "pd_idx v = drop_bit 21 v AND 0x1FF"
definition pt_idx :: "u64 \<Rightarrow> u64" where "pt_idx v = drop_bit 12 v AND 0x1FF"

definition make_virt :: "u64 \<Rightarrow> u64 \<Rightarrow> u64 \<Rightarrow> u64 \<Rightarrow> u64" where
  "make_virt pml4 pdpt pd pt = push_bit 39 pml4 OR push_bit 30 pdpt OR push_bit 21 pd OR push_bit 12 pt"

definition vmm_get_pte :: "u64 \<Rightarrow> u64 \<Rightarrow> vmm_state \<Rightarrow> u64" where
  "vmm_get_pte pml4 virt s =
     (let m = vm_mem s; e4 = pte m pml4 (pml4_idx virt) in
      if \<not> pte_has e4 VMM_PRESENT then 0
      else let e3 = pte m (e4 AND VMM_PHYS_MASK) (pdpt_idx virt) in
      if \<not> pte_has e3 VMM_PRESENT \<or> pte_has e3 VMM_HUGE then 0
      else let e2 = pte m (e3 AND VMM_PHYS_MASK) (pd_idx virt) in
      if \<not> pte_has e2 VMM_PRESENT \<or> pte_has e2 VMM_HUGE then 0
      else pte_addr (e2 AND VMM_PHYS_MASK) (pt_idx virt))"

section \<open>Public API\<close>

definition vmm_switch :: "u64 \<Rightarrow> vmm_state \<Rightarrow> vmm_state" where
  "vmm_switch pml4 s = s\<lparr>vm_cr3 := pml4\<rparr>"

definition vmm_current_pml4 :: "vmm_state \<Rightarrow> u64" where
  "vmm_current_pml4 s = vm_cr3 s AND NOT 0xFFF"

text \<open>\<open>if (flags & VMM_USER) entry |= VMM_USER;\<close>\<close>

definition or_user :: "u64 \<Rightarrow> u64 \<Rightarrow> vmm_state \<Rightarrow> vmm_state" where
  "or_user flags entry s =
     (if pte_has flags VMM_USER then set_mem entry (read_u64 (vm_mem s) entry OR VMM_USER) s else s)"

definition vmm_map_page :: "u64 \<Rightarrow> u64 \<Rightarrow> u64 \<Rightarrow> u64 \<Rightarrow> vmm_state \<Rightarrow> int \<times> vmm_state" where
  "vmm_map_page pml4 virt phys flags s =
     (let (pdpt, s) = pt_walk_or_alloc (pte_addr pml4 (pml4_idx virt)) s in
      if pdpt = 0 then (-1, s)
      else
        (let s = or_user flags (pte_addr pml4 (pml4_idx virt)) s;
             (pd, s) = pt_walk_or_alloc (pte_addr pdpt (pdpt_idx virt)) s in
         if pd = 0 then (-1, s)
         else
           (let s = or_user flags (pte_addr pdpt (pdpt_idx virt)) s in
            if pte_has (pte (vm_mem s) pd (pd_idx virt)) VMM_HUGE then (-1, s)
            else
              (let (pt, s) = pt_walk_or_alloc (pte_addr pd (pd_idx virt)) s in
               if pt = 0 then (-1, s)
               else
                 (let s = or_user flags (pte_addr pd (pd_idx virt)) s;
                      s = set_mem (pte_addr pt (pt_idx virt))
                            (phys AND VMM_PHYS_MASK OR flags AND NOT VMM_PHYS_MASK OR VMM_PRESENT) s
                  in (0, invlpg virt s))))))"

definition vmm_unmap_page :: "u64 \<Rightarrow> u64 \<Rightarrow> vmm_state \<Rightarrow> vmm_state" where
  "vmm_unmap_page pml4 virt s =
     (let m = vm_mem s; e4 = pte m pml4 (pml4_idx virt) in
      if \<not> pte_has e4 VMM_PRESENT then s
      else let e3 = pte m (e4 AND VMM_PHYS_MASK) (pdpt_idx virt) in
      if \<not> pte_has e3 VMM_PRESENT then s
      else let e2 = pte m (e3 AND VMM_PHYS_MASK) (pd_idx virt) in
      if \<not> pte_has e2 VMM_PRESENT \<or> pte_has e2 VMM_HUGE then s
      else invlpg virt (set_mem (pte_addr (e2 AND VMM_PHYS_MASK) (pt_idx virt)) 0 s))"

definition vmm_get_physical :: "u64 \<Rightarrow> u64 \<Rightarrow> vmm_state \<Rightarrow> u64" where
  "vmm_get_physical pml4 virt s =
     (let m = vm_mem s; e4 = pte m pml4 (pml4_idx virt) in
      if \<not> pte_has e4 VMM_PRESENT then PMM_ALLOC_FAILED
      else let e3 = pte m (e4 AND VMM_PHYS_MASK) (pdpt_idx virt) in
      if \<not> pte_has e3 VMM_PRESENT then PMM_ALLOC_FAILED
      else if pte_has e3 VMM_HUGE then e3 AND 0x000FFFFFC0000000 OR virt AND 0x3FFFFFFF
      else let e2 = pte m (e3 AND VMM_PHYS_MASK) (pd_idx virt) in
      if \<not> pte_has e2 VMM_PRESENT then PMM_ALLOC_FAILED
      else if pte_has e2 VMM_HUGE then e2 AND 0x000FFFFFFFE00000 OR virt AND 0x1FFFFF
      else let e1 = pte m (e2 AND VMM_PHYS_MASK) (pt_idx virt) in
      if \<not> pte_has e1 VMM_PRESENT then PMM_ALLOC_FAILED
      else e1 AND VMM_PHYS_MASK OR virt AND 0xFFF)"

definition vmm_get_flags :: "u64 \<Rightarrow> u64 \<Rightarrow> vmm_state \<Rightarrow> u64" where
  "vmm_get_flags pml4 virt s =
     (let m = vm_mem s; e4 = pte m pml4 (pml4_idx virt) in
      if \<not> pte_has e4 VMM_PRESENT then 0
      else let e3 = pte m (e4 AND VMM_PHYS_MASK) (pdpt_idx virt) in
      if \<not> pte_has e3 VMM_PRESENT then 0
      else if pte_has e3 VMM_HUGE then e3 AND NOT VMM_PHYS_MASK
      else let e2 = pte m (e3 AND VMM_PHYS_MASK) (pd_idx virt) in
      if \<not> pte_has e2 VMM_PRESENT then 0
      else if pte_has e2 VMM_HUGE then e2 AND NOT VMM_PHYS_MASK
      else let e1 = pte m (e2 AND VMM_PHYS_MASK) (pt_idx virt) in
      if \<not> pte_has e1 VMM_PRESENT then 0
      else e1 AND NOT VMM_PHYS_MASK)"

definition vmm_create_address_space :: "vmm_state \<Rightarrow> (u64 \<times> vmm_state) option" where
  "vmm_create_address_space s =
     (let (phys, s) = vmm_alloc_frame s in
      if phys = PMM_ALLOC_FAILED then Some (0, s)
      else
        (let s = zero_page phys s;
             cur = vmm_current_pml4 s;
             s = fold (\<lambda>i s. set_mem (pte_addr phys (of_nat i)) (pte (vm_mem s) cur (of_nat i)) s) [256..<512] s
         in
         if pte_has (pte (vm_mem s) cur 0) VMM_PRESENT then
           (let (low_pdpt_phys, s) = vmm_alloc_frame s in
            if low_pdpt_phys = PMM_ALLOC_FAILED then do {
              s \<leftarrow> vmm_free_frame phys s;
              Some (0, s)
            }
            else
              (let cur_low_pdpt = pte (vm_mem s) cur 0 AND VMM_PHYS_MASK;
                   s = zero_page low_pdpt_phys s;
                   s = set_mem (pte_addr low_pdpt_phys 0) (pte (vm_mem s) cur_low_pdpt 0) s;
                   s = set_mem (pte_addr phys 0) (low_pdpt_phys OR VMM_PRESENT OR VMM_WRITE OR VMM_USER) s
               in Some (phys, s)))
         else Some (phys, s)))"

definition destroy_pt :: "u64 \<Rightarrow> vmm_state \<Rightarrow> vmm_state option" where
  "destroy_pt pt = for_each [0..<512] (\<lambda>i s.
     let e = pte (vm_mem s) pt (of_nat i) in
     if e AND (VMM_PRESENT OR VMM_USER) \<noteq> VMM_PRESENT OR VMM_USER then Some s
     else do {
       s \<leftarrow> vmm_free_frame (e AND VMM_PHYS_MASK) s;
       Some (set_mem (pte_addr pt (of_nat i)) 0 s)
     })"

text \<open>The three nested loops of vmm_destroy_user_address_space, innermost first.\<close>

definition destroy_pd :: "u64 \<Rightarrow> vmm_state \<Rightarrow> vmm_state option" where
  "destroy_pd pd = for_each [0..<512] (\<lambda>k s.
     let e = pte (vm_mem s) pd (of_nat k) in
     if \<not> pte_has e VMM_PRESENT then Some s
     else if pte_has e VMM_HUGE then do {
       s \<leftarrow> (if pte_has e VMM_USER then vmm_free_frame (e AND VMM_PHYS_MASK) s else Some s);
       Some (set_mem (pte_addr pd (of_nat k)) 0 s)
     }
     else do {
       s \<leftarrow> destroy_pt (e AND VMM_PHYS_MASK) s;
       s \<leftarrow> vmm_free_frame (pte (vm_mem s) pd (of_nat k) AND VMM_PHYS_MASK) s;
       Some (set_mem (pte_addr pd (of_nat k)) 0 s)
     })"

definition destroy_pdpt :: "nat \<Rightarrow> u64 \<Rightarrow> vmm_state \<Rightarrow> vmm_state option" where
  "destroy_pdpt i pdpt = for_each [0..<512] (\<lambda>j s.
     let e = pte (vm_mem s) pdpt (of_nat j) in
     if i = 0 \<and> j = 0 then Some s
     else if \<not> pte_has e VMM_PRESENT then Some s
     else if pte_has e VMM_HUGE then do {
       s \<leftarrow> (if pte_has e VMM_USER then vmm_free_frame (e AND VMM_PHYS_MASK) s else Some s);
       Some (set_mem (pte_addr pdpt (of_nat j)) 0 s)
     }
     else do {
       s \<leftarrow> destroy_pd (e AND VMM_PHYS_MASK) s;
       s \<leftarrow> vmm_free_frame (pte (vm_mem s) pdpt (of_nat j) AND VMM_PHYS_MASK) s;
       Some (set_mem (pte_addr pdpt (of_nat j)) 0 s)
     })"

definition vmm_destroy_user_address_space :: "u64 \<Rightarrow> vmm_state \<Rightarrow> vmm_state option" where
  "vmm_destroy_user_address_space pml4 s =
     (if pml4 = 0 then Some s
      else do {
        s \<leftarrow> for_each [0..<256] (\<lambda>i s.
          let e = pte (vm_mem s) pml4 (of_nat i) in
          if \<not> pte_has e VMM_PRESENT then Some s
          else do {
            s \<leftarrow> destroy_pdpt i (e AND VMM_PHYS_MASK) s;
            s \<leftarrow> vmm_free_frame (pte (vm_mem s) pml4 (of_nat i) AND VMM_PHYS_MASK) s;
            Some (set_mem (pte_addr pml4 (of_nat i)) 0 s)
          }) s;
        vmm_free_frame pml4 s
      })"

text \<open>
  vmm_clone_user_address_space: the body of the innermost loop, then the loops around it. The
  Boolean is false where the code jumps to \<open>fail\<close>.
\<close>

definition clone_page :: "u64 \<Rightarrow> u64 \<Rightarrow> u64 \<Rightarrow> u64 \<Rightarrow> vmm_state \<Rightarrow> (bool \<times> vmm_state) option" where
  "clone_page dst_pml4 virt src_pt l s =
     (let e = pte (vm_mem s) src_pt l in
      if e AND (VMM_PRESENT OR VMM_USER) \<noteq> VMM_PRESENT OR VMM_USER then Some (True, s)
      else do {
        let src_phys = e AND VMM_PHYS_MASK;
        let flags = e AND NOT VMM_PHYS_MASK;
        p \<leftarrow> pmm_ref_frame src_phys (vm_pmm s);
        let s = s\<lparr>vm_pmm := p\<rparr>;
        let (flags, s) =
          (if pte_has flags VMM_WRITE then
             (let flags = flags AND NOT VMM_WRITE OR VMM_COW in
              (flags, invlpg virt (set_mem (pte_addr src_pt l) (src_phys OR flags) s)))
           else (flags, s));
        let (r, s) = vmm_map_page dst_pml4 virt src_phys flags s;
        if r \<noteq> 0 then do {
          s \<leftarrow> vmm_free_frame src_phys s;
          Some (False, s)
        }
        else Some (True, s)
      })"

definition clone_pt :: "u64 \<Rightarrow> nat \<Rightarrow> nat \<Rightarrow> nat \<Rightarrow> u64 \<Rightarrow> vmm_state \<Rightarrow> (bool \<times> vmm_state) option" where
  "clone_pt dst_pml4 i j k src_pt = for_while_ok [0..<512] (\<lambda>l.
     clone_page dst_pml4 (make_virt (of_nat i) (of_nat j) (of_nat k) (of_nat l)) src_pt (of_nat l))"

definition clone_pd :: "u64 \<Rightarrow> nat \<Rightarrow> nat \<Rightarrow> u64 \<Rightarrow> vmm_state \<Rightarrow> (bool \<times> vmm_state) option" where
  "clone_pd dst_pml4 i j src_pd = for_while_ok [0..<512] (\<lambda>k s.
     let e = pte (vm_mem s) src_pd (of_nat k) in
     if \<not> pte_has e VMM_PRESENT then Some (True, s)
     else if pte_has e VMM_HUGE then Some (\<not> pte_has e VMM_USER, s)
     else clone_pt dst_pml4 i j k (e AND VMM_PHYS_MASK) s)"

definition clone_pdpt :: "u64 \<Rightarrow> nat \<Rightarrow> u64 \<Rightarrow> vmm_state \<Rightarrow> (bool \<times> vmm_state) option" where
  "clone_pdpt dst_pml4 i src_pdpt = for_while_ok [0..<512] (\<lambda>j s.
     let e = pte (vm_mem s) src_pdpt (of_nat j) in
     if i = 0 \<and> j = 0 then Some (True, s)
     else if \<not> pte_has e VMM_PRESENT then Some (True, s)
     else if pte_has e VMM_HUGE then Some (\<not> pte_has e VMM_USER, s)
     else clone_pd dst_pml4 i j (e AND VMM_PHYS_MASK) s)"

definition vmm_clone_user_address_space :: "u64 \<Rightarrow> vmm_state \<Rightarrow> (u64 \<times> vmm_state) option" where
  "vmm_clone_user_address_space src_pml4 s =
     (if src_pml4 = 0 then Some (0, s)
      else do {
        (dst_pml4, s) \<leftarrow> vmm_create_address_space s;
        if dst_pml4 = 0 then Some (0, s)
        else do {
          (ok, s) \<leftarrow> for_while_ok [0..<256] (\<lambda>i s.
            let e = pte (vm_mem s) src_pml4 (of_nat i) in
            if \<not> pte_has e VMM_PRESENT then Some (True, s)
            else clone_pdpt dst_pml4 i (e AND VMM_PHYS_MASK) s) s;
          if ok then Some (dst_pml4, s)
          else do {
            s \<leftarrow> vmm_destroy_user_address_space dst_pml4 s;
            Some (0, s)
          }
        }
      })"

definition vmm_handle_page_fault :: "u64 \<Rightarrow> u64 \<Rightarrow> vmm_state \<Rightarrow> (bool \<times> vmm_state) option" where
  "vmm_handle_page_fault fault_addr error_code s =
     (if error_code AND 3 \<noteq> 3 \<or> fault_addr \<ge> USER_SPACE_TOP then Some (False, s)
      else
        (let page = ALIGN_DOWN fault_addr PAGE_SIZE;
             p = vmm_get_pte (vmm_current_pml4 s) page s;
             e = read_u64 (vm_mem s) p
         in
         if p = 0 \<or> e AND (VMM_PRESENT OR VMM_USER OR VMM_COW) \<noteq> VMM_PRESENT OR VMM_USER OR VMM_COW
         then Some (False, s)
         else do {
           let old_phys = e AND VMM_PHYS_MASK;
           let flags = e AND NOT VMM_PHYS_MASK AND NOT VMM_COW OR VMM_WRITE;
           n \<leftarrow> pmm_frame_refcount old_phys (vm_pmm s);
           if n \<le> 1 then Some (True, invlpg page (set_mem p (old_phys OR flags) s))
           else do {
             let (new_phys, s) = vmm_alloc_frame s;
             if new_phys = PMM_ALLOC_FAILED then Some (False, s)
             else do {
               let s = s\<lparr>vm_mem := memcpy new_phys old_phys PAGE_SIZE (vm_mem s)\<rparr>;
               let s = set_mem p (new_phys OR flags) s;
               s \<leftarrow> vmm_free_frame old_phys s;
               Some (True, invlpg page s)
             }
           }
         }))"

definition vmm_alloc_kernel :: "u64 \<Rightarrow> vmm_state \<Rightarrow> u64 \<times> vmm_state" where
  "vmm_alloc_kernel sz s =
     (let sz = ALIGN_UP sz PAGE_SIZE; addr = kheap_next s
      in (addr, s\<lparr>kheap_next := kheap_next s + sz\<rparr>))"

section \<open>Initialisation\<close>

text \<open>\<open>pmm_alloc_frame\<close>, the assertion that it succeeded, and the clearing of the frame.\<close>

definition vmm_new_table :: "vmm_state \<Rightarrow> (u64 \<times> vmm_state) option" where
  "vmm_new_table s = do {
     let (phys, s) = vmm_alloc_frame s;
     kassert (phys \<noteq> PMM_ALLOC_FAILED);
     Some (phys, zero_page phys s)
   }"

definition vmm_init :: "u64 \<Rightarrow> u64 \<Rightarrow> vmm_state \<Rightarrow> vmm_state option" where
  "vmm_init stack_bottom kend s = do {
     let guard_phys = stack_bottom - PAGE_SIZE;
     (pml4, s) \<leftarrow> vmm_new_table s;
     (pt0, s) \<leftarrow> vmm_new_table s;
     let s = fold (\<lambda>i s.
         let phys = of_nat i * PAGE_SIZE in
         if phys = guard_phys then s
         else set_mem (pte_addr pt0 (of_nat i)) (phys OR VMM_PRESENT OR VMM_WRITE) s) [1..<512] s;
     (pd0, s) \<leftarrow> vmm_new_table s;
     let s = set_mem (pte_addr pd0 0) (pt0 OR VMM_PRESENT OR VMM_WRITE) s;
     let s = fold (\<lambda>i. set_mem (pte_addr pd0 (of_nat i))
         (of_nat i * 0x200000 OR VMM_PRESENT OR VMM_WRITE OR VMM_HUGE)) [1..<512] s;
     (pdpt_id, s) \<leftarrow> vmm_new_table s;
     let s = set_mem (pte_addr pdpt_id 0) (pd0 OR VMM_PRESENT OR VMM_WRITE) s;
     let s = set_mem (pte_addr pml4 0) (pdpt_id OR VMM_PRESENT OR VMM_WRITE) s;
     (pdpt_hh, s) \<leftarrow> vmm_new_table s;
     (pd_hh, s) \<leftarrow> vmm_new_table s;
     let s = set_mem (pte_addr pd_hh 0) (0 OR VMM_PRESENT OR VMM_WRITE OR VMM_HUGE) s;
     let s = set_mem (pte_addr pdpt_hh 510) (pd_hh OR VMM_PRESENT OR VMM_WRITE) s;
     let s = set_mem (pte_addr pml4 511) (pdpt_hh OR VMM_PRESENT OR VMM_WRITE) s;
     let s = s\<lparr>kernel_pml4 := pml4\<rparr>;
     let s = vmm_switch pml4 s;
     let kend_hh = KERNEL_VMA + kend;
     Some (s\<lparr>kheap_next := ALIGN_UP kend_hh 0x200000\<rparr>)
   }"

end
