(* ===== verification/Irq.thy ===== *)
theory Irq
  imports Ports Vmm
begin

text \<open>
  arch/x86_64/cpu/idt.c: the gate descriptors, the two 8259 interrupt controllers, the table of
  hardware interrupt handlers and the dispatcher. The addresses of the assembly stubs are an argument
  \<open>isr_table\<close>, the address of the table itself is \<open>idt_addr\<close>. Handlers act on the kernel's state, a
  type parameter, and on the ports; the dispatcher sees the part of the state that the page-fault
  handler of vmm.c works on. \<open>None\<close> in its result is a panic.
\<close>

section \<open>Gates\<close>

definition IDT_INT_GATE :: u8 where "IDT_INT_GATE = 0x0E"
definition IDT_TRAP_GATE :: u8 where "IDT_TRAP_GATE = 0x0F"
definition IDT_PRESENT :: u8 where "IDT_PRESENT = 0x80"
definition GDT_KERNEL_CODE :: u16 where "GDT_KERNEL_CODE = 0x08"

record idt_entry =
  offset_lo :: u16
  gate_cs :: u16
  gate_ist :: u8
  gate_flags :: u8
  offset_mid :: u16
  offset_hi :: u32
  gate_reserved :: u32

record idtr =
  idtr_limit :: u16
  idtr_base :: u64

definition idt_set_entry ::
    "nat \<Rightarrow> u64 \<Rightarrow> u16 \<Rightarrow> u8 \<Rightarrow> u8 \<Rightarrow> (nat \<Rightarrow> idt_entry) \<Rightarrow> nat \<Rightarrow> idt_entry" where
  "idt_set_entry vec handler cs flags ist idt =
     idt(vec := \<lparr>offset_lo = ucast (handler AND 0xFFFF), gate_cs = cs, gate_ist = ist AND 0x07,
       gate_flags = flags, offset_mid = ucast (drop_bit 16 handler AND 0xFFFF),
       offset_hi = ucast (drop_bit 32 handler), gate_reserved = 0\<rparr>)"

section \<open>The interrupt controllers\<close>

definition PIC_MASTER_CMD :: u16 where "PIC_MASTER_CMD = 0x20"
definition PIC_MASTER_DATA :: u16 where "PIC_MASTER_DATA = 0x21"
definition PIC_SLAVE_CMD :: u16 where "PIC_SLAVE_CMD = 0xA0"
definition PIC_SLAVE_DATA :: u16 where "PIC_SLAVE_DATA = 0xA1"
definition PIC_EOI :: u8 where "PIC_EOI = 0x20"

definition pic_remap :: "ports \<Rightarrow> ports" where
  "pic_remap io =
     (let io = io_wait (outb PIC_MASTER_CMD 0x11 io);
          io = io_wait (outb PIC_SLAVE_CMD 0x11 io);
          io = io_wait (outb PIC_MASTER_DATA 0x20 io);
          io = io_wait (outb PIC_SLAVE_DATA 0x28 io);
          io = io_wait (outb PIC_MASTER_DATA 0x04 io);
          io = io_wait (outb PIC_SLAVE_DATA 0x02 io);
          io = io_wait (outb PIC_MASTER_DATA 0x01 io);
          io = io_wait (outb PIC_SLAVE_DATA 0x01 io);
          io = outb PIC_MASTER_DATA 0xFF io
      in outb PIC_SLAVE_DATA 0xFF io)"

text \<open>The second result is the register that \<open>lidt\<close> loads: the table of 256 gates of 16 bytes.\<close>

definition idt_init ::
    "(nat \<Rightarrow> u64) \<Rightarrow> u64 \<Rightarrow> (nat \<Rightarrow> idt_entry) \<Rightarrow> ports \<Rightarrow> (nat \<Rightarrow> idt_entry) \<times> idtr \<times> ports" where
  "idt_init isr_table idt_addr idt io =
     (let io = pic_remap io;
          idt = fold (\<lambda>i. idt_set_entry i (isr_table i) GDT_KERNEL_CODE
                  (IDT_PRESENT OR (if i = 3 then IDT_TRAP_GATE else IDT_INT_GATE)) 0) [0..<256] idt
      in (idt, \<lparr>idtr_limit = 256 * 16 - 1, idtr_base = idt_addr\<rparr>, io))"

definition irq_mask :: "u8 \<Rightarrow> ports \<Rightarrow> ports" where
  "irq_mask irq io =
     (if irq < 8 then
        (let (v, io) = inb PIC_MASTER_DATA io in outb PIC_MASTER_DATA (v OR push_bit (unat irq) 1) io)
      else
        (let (v, io) = inb PIC_SLAVE_DATA io in outb PIC_SLAVE_DATA (v OR push_bit (unat (irq - 8)) 1) io))"

definition irq_unmask :: "u8 \<Rightarrow> ports \<Rightarrow> ports" where
  "irq_unmask irq io =
     (if irq < 8 then
        (let (v, io) = inb PIC_MASTER_DATA io in outb PIC_MASTER_DATA (v AND NOT (push_bit (unat irq) 1)) io)
      else
        (let (v, io) = inb PIC_SLAVE_DATA io;
             io = outb PIC_SLAVE_DATA (v AND NOT (push_bit (unat (irq - 8)) 1)) io;
             (v, io) = inb PIC_MASTER_DATA io
         in outb PIC_MASTER_DATA (v AND NOT (push_bit 2 1)) io))"

definition pic_eoi :: "u8 \<Rightarrow> ports \<Rightarrow> ports" where
  "pic_eoi vector io =
     (let io = (if vector \<ge> 40 then outb PIC_SLAVE_CMD PIC_EOI io else io)
      in outb PIC_MASTER_CMD PIC_EOI io)"

section \<open>Handlers and dispatch\<close>

record interrupt_frame =
  frame_r15 :: u64
  frame_r14 :: u64
  frame_r13 :: u64
  frame_r12 :: u64
  frame_r11 :: u64
  frame_r10 :: u64
  frame_r9 :: u64
  frame_r8 :: u64
  frame_rbp :: u64
  frame_rdi :: u64
  frame_rsi :: u64
  frame_rdx :: u64
  frame_rcx :: u64
  frame_rbx :: u64
  frame_rax :: u64
  vector :: u64
  error_code :: u64
  frame_rip :: u64
  frame_cs :: u64
  frame_rflags :: u64
  frame_rsp :: u64
  frame_ss :: u64

type_synonym 'w irq_handler = "u8 \<Rightarrow> interrupt_frame \<Rightarrow> 'w \<times> ports \<Rightarrow> 'w \<times> ports"

definition irq_register :: "u8 \<Rightarrow> 'h \<Rightarrow> (u8 \<Rightarrow> 'h option) \<Rightarrow> (u8 \<Rightarrow> 'h option) option" where
  "irq_register irq handler hs = do { kassert (irq < 16); Some (hs(irq := Some handler)) }"

definition irq_unregister :: "u8 \<Rightarrow> (u8 \<Rightarrow> 'h option) \<Rightarrow> (u8 \<Rightarrow> 'h option) option" where
  "irq_unregister irq hs = do { kassert (irq < 16); Some (hs(irq := None)) }"

definition irq_dispatch ::
    "u8 \<Rightarrow> interrupt_frame \<Rightarrow> (u8 \<Rightarrow> 'w irq_handler option) \<Rightarrow> 'w \<times> ports \<Rightarrow> 'w \<times> ports" where
  "irq_dispatch irq frame hs w =
     (if irq < 16 then case hs irq of Some h \<Rightarrow> h irq frame w | None \<Rightarrow> w else w)"

text \<open>\<open>cr2\<close> is the control register that holds the address of a page fault.\<close>

definition isr_handler ::
    "u64 \<Rightarrow> interrupt_frame \<Rightarrow> (u8 \<Rightarrow> (vmm_state \<times> 'w) irq_handler option) \<Rightarrow>
     (vmm_state \<times> 'w) \<times> ports \<Rightarrow> ((vmm_state \<times> 'w) \<times> ports) option" where
  "isr_handler cr2 frame hs w =
     (if vector frame < 32 then
        if vector frame = 14 then do {
          let ((vm, k), io) = w;
          (handled, vm) \<leftarrow> vmm_handle_page_fault cr2 (error_code frame) vm;
          if handled then Some ((vm, k), io) else None
        }
        else None
      else if vector frame < 48 then
        (let irq = ucast (vector frame - 32); (w, io) = irq_dispatch irq frame hs w
         in Some (w, pic_eoi (ucast (vector frame)) io))
      else Some w)"

section \<open>Properties\<close>

text \<open>C30: the processor finds in every gate of idt_init the address of its stub: the three offset
  fields of entry \<open>i\<close> put together are \<open>isr_table i\<close>, and the loaded register covers exactly the 256
  gates. Every gate is present, in the kernel code
  segment, without an interrupt stack, and an interrupt gate except for the breakpoint.\<close>

lemma gate_offset:
  fixes h :: u64
  shows "ucast (ucast (h AND 0xFFFF) :: u16) OR push_bit 16 (ucast (ucast (drop_bit 16 h AND 0xFFFF) :: u16)) OR
     push_bit 32 (ucast (ucast (drop_bit 32 h) :: u32)) = h" (is "?l = h")
proof (rule bit_word_eqI)
  fix n assume n: "n < LENGTH(64)"
  have m: "(0xFFFF :: u64) = mask 16" by (simp add: mask_eq_exp_minus_1)
  consider "n < 16" | "16 \<le> n" "n < 32" | "32 \<le> n" by linarith
  then show "bit ?l n = bit h n"
    using n unfolding m by cases (auto simp: bit_simps)
qed

lemma fold_idt_set_entry:
  "fold (\<lambda>i. idt_set_entry i (h i) cs (fl i) ist) [0..<n] idt j =
     (if j < n then idt_set_entry j (h j) cs (fl j) ist idt j else idt j)"
  by (induction n) (auto simp: idt_set_entry_def less_Suc_eq)

theorem idt_init_gates:
  assumes "i < 256"
  shows "let e = fst (idt_init isr_table idt_addr idt io) i in
    ucast (offset_lo e) OR push_bit 16 (ucast (offset_mid e)) OR push_bit 32 (ucast (offset_hi e)) = isr_table i \<and>
    gate_cs e = GDT_KERNEL_CODE \<and> gate_ist e = 0 \<and>
    gate_flags e = (if i = 3 then 0x8F else 0x8E) \<and>
    (let r = fst (snd (idt_init isr_table idt_addr idt io)) in idtr_base r = idt_addr \<and> unat (idtr_limit r) + 1 = 256 * 16)"
  using assms gate_offset [of "isr_table i"]
  by (simp add: idt_init_def Let_def fold_idt_set_entry idt_set_entry_def IDT_PRESENT_def
      IDT_TRAP_GATE_def IDT_INT_GATE_def)

theorem idt_init_gates_witness:
  "gate_flags (fst (idt_init (\<lambda>i. 0x100000 + of_nat i * 16) 0x108000
     (\<lambda>_. \<lparr>offset_lo = 0, gate_cs = 0, gate_ist = 0, gate_flags = 0, offset_mid = 0, offset_hi = 0, gate_reserved = 0\<rparr>)
     ports_idle) 3) = 0x8F"
  using idt_init_gates [of 3 "\<lambda>i. 0x100000 + of_nat i * 16" "0x108000"
    "\<lambda>_. \<lparr>offset_lo = 0, gate_cs = 0, gate_ist = 0, gate_flags = 0, offset_mid = 0, offset_hi = 0, gate_reserved = 0\<rparr>"
    ports_idle] by (simp add: Let_def)

end
