(* ===== verification/Queue.thy ===== *)
theory Queue
  imports Prelude
begin

text \<open>
  The contract of a bounded first-in first-out queue that drops what does not fit, as the keyboard
  driver offers it to the readers of the console.
\<close>

locale dropping_queue =
  fixes contents :: "'s \<Rightarrow> 'a list"
    and push :: "'a \<Rightarrow> 's \<Rightarrow> 's"
    and take_front :: "'s \<Rightarrow> 'a \<times> 's"
    and avail :: "'s \<Rightarrow> bool"
    and invar :: "'s \<Rightarrow> bool"
    and cap :: nat
  assumes contents_bound: "invar s \<Longrightarrow> length (contents s) \<le> cap"
    and avail_iff: "invar s \<Longrightarrow> avail s \<longleftrightarrow> contents s \<noteq> []"
    and push_invar: "invar s \<Longrightarrow> invar (push x s)"
    and push_contents: "invar s \<Longrightarrow> contents (push x s) =
      (if length (contents s) < cap then contents s @ [x] else contents s)"
    and take_invar: "invar s \<Longrightarrow> avail s \<Longrightarrow> invar (snd (take_front s))"
    and take_contents: "invar s \<Longrightarrow> avail s \<Longrightarrow> contents s = fst (take_front s) # contents (snd (take_front s))"
begin

lemma fold_push:
  assumes "invar s"
  shows "invar (fold push xs s) \<and> contents (fold push xs s) = take cap (contents s @ xs)"
  using assms
proof (induction xs arbitrary: s)
  case Nil
  then show ?case using contents_bound by simp
next
  case (Cons x xs)
  note IH = Cons.IH [OF push_invar [OF Cons.prems, of x]]
  show ?case
  proof (cases "length (contents s) < cap")
    case True
    then show ?thesis using IH push_contents [OF Cons.prems, of x] by simp
  next
    case False
    then have "length (contents s) = cap" using contents_bound [OF Cons.prems] by simp
    then show ?thesis using IH push_contents [OF Cons.prems, of x] by simp
  qed
qed

lemma push_then_take:
  assumes "invar s" and "contents s = []" and "0 < cap"
  shows "fst (take_front (push x s)) = x \<and> contents (snd (take_front (push x s))) = []"
proof -
  have c: "contents (push x s) = [x]" using push_contents [OF assms(1)] assms by simp
  then have "avail (push x s)" using avail_iff [OF push_invar [OF assms(1)]] by simp
  from take_contents [OF push_invar [OF assms(1)] this] c show ?thesis by simp
qed

end

end
