(* ===== verification/Kbd.thy ===== *)
theory Kbd
  imports Irq Queue
begin

text \<open>
  drivers/char/ps2kbd.c: the scancode decoder for sets 1 and 2, the ring buffer of characters, the
  controller handshake and the polling and reading entry points. The static variables of the file are
  the fields of \<open>kbd_state\<close>; the device is behind \<open>ports\<close>. A C char is a \<^typ>\<open>char\<close>, with
  \<open>CHR 0x00\<close> for 0.
\<close>

section \<open>State and constants\<close>

definition KBD_DATA :: u16 where "KBD_DATA = 0x60"
definition KBD_STATUS :: u16 where "KBD_STATUS = 0x64"
definition KBD_CMD :: u16 where "KBD_CMD = 0x64"
definition KBD_STAT_OUT :: u8 where "KBD_STAT_OUT = 0x01"
definition KBD_STAT_IN :: u8 where "KBD_STAT_IN = 0x02"
definition KBD_STAT_AUX :: u8 where "KBD_STAT_AUX = 0x20"
definition KBD_CMD_READ_CONFIG :: u8 where "KBD_CMD_READ_CONFIG = 0x20"
definition KBD_CMD_WRITE_CONFIG :: u8 where "KBD_CMD_WRITE_CONFIG = 0x60"
definition KBD_CMD_ENABLE_PORT1 :: u8 where "KBD_CMD_ENABLE_PORT1 = 0xAE"
definition KBD_CONFIG_IRQ1 :: u8 where "KBD_CONFIG_IRQ1 = 0x01"
definition KBD_CONFIG_DISABLE1 :: u8 where "KBD_CONFIG_DISABLE1 = 0x10"
definition KBD_CONFIG_TRANSLATE :: u8 where "KBD_CONFIG_TRANSLATE = 0x40"
definition KBD_BUF_SIZE :: u32 where "KBD_BUF_SIZE = 256"

record kbd_state =
  kbd_buf :: "u32 \<Rightarrow> char"
  kbd_head :: u32
  kbd_tail :: u32
  kbd_ctrl_held :: bool
  kbd_alt_held :: bool
  kbd_shift :: bool
  kbd_caps :: bool
  kbd_set2_release :: bool
  kbd_extended :: bool
  kbd_scancode_set :: u8

abbreviation BS :: char where "BS \<equiv> CHR 0x08"
abbreviation TAB :: char where "TAB \<equiv> CHR 0x09"
abbreviation LF :: char where "LF \<equiv> CHR 0x0A"

section \<open>Tables\<close>

text \<open>An array with an initialiser: what the initialiser leaves out is 0.\<close>

definition array_init :: "char list \<Rightarrow> u8 \<Rightarrow> char" where
  "array_init xs k = (if unat k < length xs then xs ! unat k else NUL)"

definition array_designated :: "(u8 \<times> char) list \<Rightarrow> u8 \<Rightarrow> char" where
  "array_designated xs k = (case map_of xs k of Some c \<Rightarrow> c | None \<Rightarrow> NUL)"

definition sc1_normal :: "u8 \<Rightarrow> char" where
  "sc1_normal = array_init
     ([NUL, NUL] @ ''1234567890-='' @ [BS] @
      [TAB] @ ''qwertyuiop[]'' @ [LF] @
      [NUL] @ ''asdfghjkl;'' @ [CHR 0x27, CHR 0x60] @
      [NUL, CHR 0x5C] @ ''zxcvbnm,./'' @
      [NUL, CHR ''*'', NUL, CHR '' ''])"

definition sc1_shifted :: "u8 \<Rightarrow> char" where
  "sc1_shifted = array_init
     ([NUL, NUL] @ ''!@#$%^&*()_+'' @ [BS] @
      [TAB] @ ''QWERTYUIOP{}'' @ [LF] @
      [NUL] @ ''ASDFGHJKL:'' @ [CHR 0x22, CHR ''~''] @
      [NUL, CHR ''|''] @ ''ZXCVBNM<>?'' @
      [NUL, CHR ''*'', NUL, CHR '' ''])"

definition sc2_normal :: "u8 \<Rightarrow> char" where
  "sc2_normal = array_designated
     [(0x0D, TAB),
      (0x0E, CHR 0x60),
      (0x15, CHR ''q''), (0x16, CHR ''1''),
      (0x1A, CHR ''z''), (0x1B, CHR ''s''), (0x1C, CHR ''a''), (0x1D, CHR ''w''),
      (0x1E, CHR ''2''),
      (0x21, CHR ''c''), (0x22, CHR ''x''), (0x23, CHR ''d''), (0x24, CHR ''e''),
      (0x25, CHR ''4''), (0x26, CHR ''3''),
      (0x29, CHR '' ''),
      (0x2A, CHR ''v''), (0x2B, CHR ''f''), (0x2C, CHR ''t''), (0x2D, CHR ''r''),
      (0x2E, CHR ''5''),
      (0x31, CHR ''n''), (0x32, CHR ''b''), (0x33, CHR ''h''), (0x34, CHR ''g''),
      (0x35, CHR ''y''), (0x36, CHR ''6''),
      (0x3A, CHR ''m''), (0x3B, CHR ''j''), (0x3C, CHR ''u''), (0x3D, CHR ''7''),
      (0x3E, CHR ''8''),
      (0x41, CHR '',''), (0x42, CHR ''k''), (0x43, CHR ''i''), (0x44, CHR ''o''),
      (0x45, CHR ''0''), (0x46, CHR ''9''),
      (0x49, CHR ''.''), (0x4A, CHR ''/''), (0x4B, CHR ''l''), (0x4C, CHR '';''),
      (0x4D, CHR ''p''), (0x4E, CHR ''-''),
      (0x52, CHR 0x27), (0x54, CHR ''[''), (0x55, CHR ''=''),
      (0x5A, LF), (0x5B, CHR '']''), (0x5D, CHR 0x5C),
      (0x66, BS)]"

definition sc2_shifted :: "u8 \<Rightarrow> char" where
  "sc2_shifted = array_designated
     [(0x0D, TAB),
      (0x0E, CHR ''~''),
      (0x15, CHR ''Q''), (0x16, CHR ''!''),
      (0x1A, CHR ''Z''), (0x1B, CHR ''S''), (0x1C, CHR ''A''), (0x1D, CHR ''W''),
      (0x1E, CHR ''@''),
      (0x21, CHR ''C''), (0x22, CHR ''X''), (0x23, CHR ''D''), (0x24, CHR ''E''),
      (0x25, CHR ''$''), (0x26, CHR ''#''),
      (0x29, CHR '' ''),
      (0x2A, CHR ''V''), (0x2B, CHR ''F''), (0x2C, CHR ''T''), (0x2D, CHR ''R''),
      (0x2E, CHR ''%''),
      (0x31, CHR ''N''), (0x32, CHR ''B''), (0x33, CHR ''H''), (0x34, CHR ''G''),
      (0x35, CHR ''Y''), (0x36, CHR ''^''),
      (0x3A, CHR ''M''), (0x3B, CHR ''J''), (0x3C, CHR ''U''), (0x3D, CHR ''&''),
      (0x3E, CHR ''*''),
      (0x41, CHR ''<''), (0x42, CHR ''K''), (0x43, CHR ''I''), (0x44, CHR ''O''),
      (0x45, CHR '')''), (0x46, CHR ''(''),
      (0x49, CHR ''>''), (0x4A, CHR ''?''), (0x4B, CHR ''L''), (0x4C, CHR '':''),
      (0x4D, CHR ''P''), (0x4E, CHR ''_''),
      (0x52, CHR 0x22), (0x54, CHR ''{''), (0x55, CHR ''+''),
      (0x5A, LF), (0x5B, CHR ''}''), (0x5D, CHR ''|''),
      (0x66, BS)]"

section \<open>The decoder\<close>

definition is_alpha :: "char \<Rightarrow> bool" where
  "is_alpha c \<longleftrightarrow> (CHR ''a'' \<le> c \<and> c \<le> CHR ''z'') \<or> (CHR ''A'' \<le> c \<and> c \<le> CHR ''Z'')"

definition is_alnum :: "char \<Rightarrow> bool" where
  "is_alnum c \<longleftrightarrow> is_alpha c \<or> (CHR ''0'' \<le> c \<and> c \<le> CHR ''9'')"

definition is_modifier_set1 :: "u8 \<Rightarrow> bool" where
  "is_modifier_set1 key \<longleftrightarrow> key = 0x2A \<or> key = 0x36 \<or> key = 0x3A \<or> key = 0x1D \<or> key = 0x38"

definition is_modifier_set2 :: "u8 \<Rightarrow> bool" where
  "is_modifier_set2 key \<longleftrightarrow> key = 0x12 \<or> key = 0x59 \<or> key = 0x58 \<or> key = 0x14 \<or> key = 0x11"

definition update_modifier :: "u8 \<Rightarrow> u8 \<Rightarrow> bool \<Rightarrow> kbd_state \<Rightarrow> kbd_state" where
  "update_modifier sc key release s =
     (if sc = 1 then
        if key = 0x2A \<or> key = 0x36 then s\<lparr>kbd_shift := \<not> release\<rparr>
        else if key = 0x3A \<and> \<not> release then s\<lparr>kbd_caps := \<not> kbd_caps s\<rparr>
        else if key = 0x1D then s\<lparr>kbd_ctrl_held := \<not> release\<rparr>
        else if key = 0x38 then s\<lparr>kbd_alt_held := \<not> release\<rparr>
        else s
      else
        if key = 0x12 \<or> key = 0x59 then s\<lparr>kbd_shift := \<not> release\<rparr>
        else if key = 0x58 \<and> \<not> release then s\<lparr>kbd_caps := \<not> kbd_caps s\<rparr>
        else if key = 0x14 then s\<lparr>kbd_ctrl_held := \<not> release\<rparr>
        else if key = 0x11 then s\<lparr>kbd_alt_held := \<not> release\<rparr>
        else s)"

definition translate :: "u8 \<Rightarrow> u8 \<Rightarrow> kbd_state \<Rightarrow> char" where
  "translate sc key s =
     (if key \<ge> 128 then NUL
      else
        let shifted = kbd_shift s in
        if sc = 1 then
          (let normal = sc1_normal key;
               use_upper = (if is_alpha normal then kbd_shift s \<noteq> kbd_caps s else shifted)
           in if use_upper then sc1_shifted key else normal)
        else
          (let normal = sc2_normal key;
               use_upper = (if is_alpha normal then kbd_shift s \<noteq> kbd_caps s else shifted)
           in if use_upper then sc2_shifted key else normal))"

definition infer_set :: "u8 \<Rightarrow> u8" where
  "infer_set key =
     (let c1 = sc1_normal key; c2 = sc2_normal key in
      if c2 \<noteq> NUL \<and> c1 = NUL then 2
      else if c1 \<noteq> NUL \<and> c2 = NUL then 1
      else if c1 \<noteq> NUL \<and> c2 \<noteq> NUL then
        (if (c1 = LF \<or> c1 = BS \<or> c1 = TAB) \<and> is_alpha c2 then 2
         else if (c1 = LF \<or> c1 = BS \<or> c1 = TAB) \<and> \<not> is_alpha c2 then 1
         else if \<not> is_alnum c1 \<and> is_alnum c2 then 2
         else 1)
      else if is_modifier_set2 key \<and> \<not> is_modifier_set1 key then 2
      else 1)"

definition kbd_decode_reset :: "kbd_state \<Rightarrow> kbd_state" where
  "kbd_decode_reset s = s\<lparr>kbd_shift := False, kbd_caps := False, kbd_ctrl_held := False,
     kbd_alt_held := False, kbd_set2_release := False, kbd_extended := False, kbd_scancode_set := 0\<rparr>"

definition kbd_decode_set_scancode_set :: "u8 \<Rightarrow> kbd_state \<Rightarrow> kbd_state" where
  "kbd_decode_set_scancode_set sc s = (if sc \<le> 2 then s\<lparr>kbd_scancode_set := sc\<rparr> else s)"

text \<open>
  kbd_decode_scancode up to the extended-key test: the set, the release flag and the key of a byte,
  and the state with the pending release consumed.
\<close>

definition kbd_classify :: "u8 \<Rightarrow> kbd_state \<Rightarrow> u8 \<times> bool \<times> u8 \<times> kbd_state" where
  "kbd_classify scancode s =
     (let sc = kbd_scancode_set s in
      if sc = 2 \<or> kbd_set2_release s then
        (2, kbd_set2_release s, scancode, s\<lparr>kbd_set2_release := False\<rparr>)
      else if sc = 1 then (1, scancode AND 0x80 \<noteq> 0, scancode AND 0x7F, s)
      else if scancode AND 0x80 \<noteq> 0 then (1, True, scancode AND 0x7F, s)
      else (infer_set scancode, False, scancode, s))"

text \<open>The result is the returned flag, the character stored through \<open>out\<close>, and the new state.\<close>

definition kbd_decode_scancode :: "u8 \<Rightarrow> kbd_state \<Rightarrow> bool \<times> char \<times> kbd_state" where
  "kbd_decode_scancode scancode s =
     (if scancode = 0xE0 then (False, NUL, s\<lparr>kbd_extended := True\<rparr>)
      else if scancode = 0xF0 then (False, NUL, s\<lparr>kbd_set2_release := True, kbd_scancode_set := 2\<rparr>)
      else
        let (sc, release, key, s) = kbd_classify scancode s in
        if kbd_extended s then
          (let s = s\<lparr>kbd_extended := False\<rparr>;
               s = (if sc = 2 \<and> key = 0x14 then s\<lparr>kbd_ctrl_held := \<not> release\<rparr> else s)
           in (False, NUL, s))
        else
          let s = update_modifier sc key release s in
          if sc = 1 \<and> is_modifier_set1 key \<or> sc = 2 \<and> is_modifier_set2 key \<or> release then (False, NUL, s)
          else if kbd_ctrl_held s \<and> (sc = 1 \<and> key = 0x2E \<or> sc = 2 \<and> key = 0x21) then (True, CHR 0x03, s)
          else
            let c = translate sc key s in
            if c \<noteq> NUL then (True, c, s\<lparr>kbd_scancode_set := sc\<rparr>) else (False, NUL, s))"

section \<open>The ring buffer\<close>

definition buf_push :: "char \<Rightarrow> kbd_state \<Rightarrow> kbd_state" where
  "buf_push c s =
     (let next = (kbd_tail s + 1) AND (KBD_BUF_SIZE - 1) in
      if next \<noteq> kbd_head s then s\<lparr>kbd_buf := (kbd_buf s)(kbd_tail s := c), kbd_tail := next\<rparr> else s)"

definition handle_scancode :: "u8 \<Rightarrow> kbd_state \<Rightarrow> kbd_state" where
  "handle_scancode scancode s =
     (let (ok, c, s) = kbd_decode_scancode scancode s in if ok \<and> c \<noteq> NUL then buf_push c s else s)"

definition kbd_available :: "kbd_state \<Rightarrow> bool" where
  "kbd_available s \<longleftrightarrow> kbd_head s \<noteq> kbd_tail s"

section \<open>The controller\<close>

text \<open>A status loop of at most \<open>n\<close> reads.\<close>

fun kbd_wait :: "(u8 \<Rightarrow> bool) \<Rightarrow> nat \<Rightarrow> ports \<Rightarrow> bool \<times> ports" where
  "kbd_wait ready 0 io = (False, io)"
| "kbd_wait ready (Suc n) io =
     (let (st, io) = inb KBD_STATUS io in if ready st then (True, io) else kbd_wait ready n io)"

definition kbd_wait_input_clear :: "ports \<Rightarrow> bool \<times> ports" where
  "kbd_wait_input_clear = kbd_wait (\<lambda>st. st AND KBD_STAT_IN = 0) 100000"

definition kbd_wait_output_full :: "ports \<Rightarrow> bool \<times> ports" where
  "kbd_wait_output_full = kbd_wait (\<lambda>st. st AND KBD_STAT_OUT \<noteq> 0) 100000"

definition kbd_send_cmd :: "u8 \<Rightarrow> ports \<Rightarrow> ports" where
  "kbd_send_cmd cmd io = (let (ok, io) = kbd_wait_input_clear io in if ok then outb KBD_CMD cmd io else io)"

definition kbd_send_data :: "u8 \<Rightarrow> ports \<Rightarrow> ports" where
  "kbd_send_data data io = (let (ok, io) = kbd_wait_input_clear io in if ok then outb KBD_DATA data io else io)"

fun kbd_drain_loop :: "nat \<Rightarrow> ports \<Rightarrow> ports" where
  "kbd_drain_loop 0 io = io"
| "kbd_drain_loop (Suc n) io =
     (let (st, io) = inb KBD_STATUS io in
      if st AND KBD_STAT_OUT \<noteq> 0 then kbd_drain_loop n (snd (inb KBD_DATA io)) else io)"

definition kbd_drain :: "ports \<Rightarrow> ports" where
  "kbd_drain = kbd_drain_loop 32"

fun kbd_poll_loop :: "nat \<Rightarrow> kbd_state \<Rightarrow> ports \<Rightarrow> kbd_state \<times> ports" where
  "kbd_poll_loop 0 s io = (s, io)"
| "kbd_poll_loop (Suc n) s io =
     (let (status, io) = inb KBD_STATUS io in
      if status AND KBD_STAT_OUT = 0 then (s, io)
      else
        let (scancode, io) = inb KBD_DATA io in
        if status AND KBD_STAT_AUX \<noteq> 0 then kbd_poll_loop n s io
        else kbd_poll_loop n (handle_scancode scancode s) io)"

definition kbd_poll :: "kbd_state \<Rightarrow> ports \<Rightarrow> kbd_state \<times> ports" where
  "kbd_poll = kbd_poll_loop 16"

definition kbd_irq :: "kbd_state irq_handler" where
  "kbd_irq irq frame w = (case w of (s, io) \<Rightarrow> kbd_poll s io)"

text \<open>kbd_init, with the configuration byte it computes on its own.\<close>

definition kbd_config :: "u8 \<Rightarrow> u8" where
  "kbd_config config = (config OR KBD_CONFIG_IRQ1 OR KBD_CONFIG_TRANSLATE) AND NOT KBD_CONFIG_DISABLE1"

definition kbd_init :: "(u8 \<Rightarrow> kbd_state irq_handler option) \<Rightarrow> kbd_state \<Rightarrow> ports \<Rightarrow>
    ((u8 \<Rightarrow> kbd_state irq_handler option) \<times> kbd_state \<times> ports) option" where
  "kbd_init hs s io =
     (let s = kbd_decode_reset s;
          io = kbd_drain io;
          io = kbd_send_cmd KBD_CMD_ENABLE_PORT1 io;
          io = kbd_send_cmd KBD_CMD_READ_CONFIG io;
          config = KBD_CONFIG_IRQ1 OR KBD_CONFIG_TRANSLATE;
          (full, io) = kbd_wait_output_full io;
          (config, io) = (if full then inb KBD_DATA io else (config, io));
          config = kbd_config config;
          io = kbd_send_cmd KBD_CMD_WRITE_CONFIG io;
          io = kbd_send_data config io;
          io = kbd_drain io;
          s = kbd_decode_set_scancode_set 0 s
      in do {
        hs \<leftarrow> irq_register 1 kbd_irq hs;
        Some (hs, s, irq_unmask 1 io)
      })"

definition kbd_take :: "kbd_state \<Rightarrow> char \<times> kbd_state" where
  "kbd_take s = (kbd_buf s (kbd_head s), s\<lparr>kbd_head := (kbd_head s + 1) AND (KBD_BUF_SIZE - 1)\<rparr>)"

definition kbd_trygetchar :: "kbd_state \<Rightarrow> ports \<Rightarrow> char \<times> kbd_state \<times> ports" where
  "kbd_trygetchar s io =
     (let (s, io) = kbd_poll s io in
      if \<not> kbd_available s then (NUL, s, io)
      else let (c, s) = kbd_take s in (c, s, io))"

text \<open>kbd_getchar waits without a bound. The \<open>n\<close>-th \<open>hlt\<close> of the wait sleeps until the hardware
  interrupt \<open>intr n\<close> arrives and its handler has run; \<open>None\<close> is a wait that never ends.\<close>

definition kbd_hlt :: "(nat \<Rightarrow> interrupt_frame option) \<Rightarrow> (u8 \<Rightarrow> kbd_state irq_handler option) \<Rightarrow> nat \<Rightarrow>
    kbd_state \<Rightarrow> ports \<Rightarrow> (kbd_state \<times> ports) option" where
  "kbd_hlt intr hs n s io = do {
     frame \<leftarrow> intr n;
     let (s, io) = irq_dispatch (ucast (vector frame - 32)) frame hs (s, io);
     Some (s, pic_eoi (ucast (vector frame)) io)
   }"

partial_function (option) kbd_wait_char :: "(nat \<Rightarrow> interrupt_frame option) \<Rightarrow> (u8 \<Rightarrow> kbd_state irq_handler option) \<Rightarrow>
    nat \<Rightarrow> kbd_state \<Rightarrow> ports \<Rightarrow> (kbd_state \<times> ports) option" where
  "kbd_wait_char intr hs n s io =
     (if \<not> kbd_available s then
        (case kbd_poll s io of (s, io) \<Rightarrow>
           if \<not> kbd_available s then do {
             (s, io) \<leftarrow> kbd_hlt intr hs n s io;
             kbd_wait_char intr hs (Suc n) s io
           }
           else kbd_wait_char intr hs n s io)
      else Some (s, io))"

definition kbd_getchar :: "(nat \<Rightarrow> interrupt_frame option) \<Rightarrow> (u8 \<Rightarrow> kbd_state irq_handler option) \<Rightarrow>
    kbd_state \<Rightarrow> ports \<Rightarrow> (char \<times> kbd_state \<times> ports) option" where
  "kbd_getchar intr hs s io = do {
     (s, io) \<leftarrow> kbd_wait_char intr hs 0 s io;
     Some (kbd_trygetchar s io)
   }"

section \<open>The ring buffer as a queue\<close>

definition kbd_count :: "kbd_state \<Rightarrow> nat" where
  "kbd_count s = (if kbd_head s \<le> kbd_tail s then unat (kbd_tail s) - unat (kbd_head s)
     else 256 + unat (kbd_tail s) - unat (kbd_head s))"

definition ring_index :: "nat \<Rightarrow> nat \<Rightarrow> nat" where
  "ring_index h i = (if h + i < 256 then h + i else h + i - 256)"

definition kbd_contents :: "kbd_state \<Rightarrow> char list" where
  "kbd_contents s = map (\<lambda>i. kbd_buf s (of_nat (ring_index (unat (kbd_head s)) i))) [0..<kbd_count s]"

definition ring_inv :: "kbd_state \<Rightarrow> bool" where
  "ring_inv s \<longleftrightarrow> kbd_head s < KBD_BUF_SIZE \<and> kbd_tail s < KBD_BUF_SIZE"

lemma unat_ring_next: "unat ((x + 1 :: u32) AND (KBD_BUF_SIZE - 1)) = Suc (unat x) mod 256" if "x < KBD_BUF_SIZE"
proof -
  have "(KBD_BUF_SIZE - 1 :: u32) = mask 8" by (simp add: KBD_BUF_SIZE_def mask_eq_exp_minus_1)
  then have "unat ((x + 1) AND (KBD_BUF_SIZE - 1)) = unat (x + 1) mod 256"
    by (simp add: take_bit_eq_mask [symmetric] take_bit_eq_mod unat_mod_distrib)
  also have "unat (x + 1) = Suc (unat x)" by (rule unat_plus1_less [OF that])
  finally show ?thesis .
qed

lemma ring_next_less: "((x + 1 :: u32) AND (KBD_BUF_SIZE - 1)) < KBD_BUF_SIZE"
proof -
  have "(x + 1) AND (KBD_BUF_SIZE - 1) \<le> KBD_BUF_SIZE - 1" by (rule word_and_le1)
  then show ?thesis by (simp add: KBD_BUF_SIZE_def word_le_nat_alt word_less_nat_alt)
qed

lemma ring_bounds: "ring_inv s \<Longrightarrow> unat (kbd_head s) < 256 \<and> unat (kbd_tail s) < 256"
  by (simp add: ring_inv_def KBD_BUF_SIZE_def word_less_nat_alt)

lemma unat_ring_next': "x < KBD_BUF_SIZE \<Longrightarrow>
    unat ((x + 1 :: u32) AND (KBD_BUF_SIZE - 1)) = (if unat x = 255 then 0 else Suc (unat x))"
  by (simp add: unat_ring_next mod_Suc) (simp add: KBD_BUF_SIZE_def word_less_nat_alt)

lemma kbd_available_iff: "ring_inv s \<Longrightarrow> kbd_available s \<longleftrightarrow> kbd_count s \<noteq> 0"
  using ring_bounds [of s]
  by (auto simp: kbd_available_def kbd_count_def word_unat_eq_iff word_le_nat_alt)

lemma length_kbd_contents [simp]: "length (kbd_contents s) = kbd_count s"
  by (simp add: kbd_contents_def)

lemma kbd_count_less: "ring_inv s \<Longrightarrow> kbd_count s \<le> 255"
  using ring_bounds [of s] by (auto simp: kbd_count_def word_le_nat_alt)

lemma buf_push_fields [simp]:
  "kbd_head (buf_push c s) = kbd_head s" "ring_inv s \<Longrightarrow> ring_inv (buf_push c s)"
  by (simp_all add: buf_push_def ring_inv_def ring_next_less Let_def)

lemma unat_ring_index:
  "h < 256 \<Longrightarrow> i < 256 \<Longrightarrow> unat (of_nat (ring_index h i) :: u32) = ring_index h i"
  by (rule unat_of_nat_below [where t = "512 :: u32"]) (auto simp: ring_index_def)

lemma buf_push_contents:
  assumes "ring_inv s"
  shows "kbd_contents (buf_push c s) =
    (if length (kbd_contents s) < 255 then kbd_contents s @ [c] else kbd_contents s)"
proof -
  let ?h = "unat (kbd_head s)" and ?t = "unat (kbd_tail s)" and ?n = "kbd_count s"
  have b: "?h < 256" "?t < 256" using ring_bounds [OF assms] by auto
  have next_t: "unat ((kbd_tail s + 1) AND (KBD_BUF_SIZE - 1)) = (if ?t = 255 then 0 else Suc ?t)"
    using unat_ring_next' assms by (simp add: ring_inv_def)
  have full: "(kbd_tail s + 1) AND (KBD_BUF_SIZE - 1) = kbd_head s \<longleftrightarrow> ?n = 255"
    unfolding word_unat_eq_iff next_t kbd_count_def word_le_nat_alt using b by auto
  show ?thesis
  proof (cases "?n = 255")
    case True
    then show ?thesis using full by (simp add: buf_push_def Let_def)
  next
    case False
    let ?s' = "s\<lparr>kbd_buf := (kbd_buf s)(kbd_tail s := c), kbd_tail := (kbd_tail s + 1) AND (KBD_BUF_SIZE - 1)\<rparr>"
    have push: "buf_push c s = ?s'" using False full by (simp add: buf_push_def Let_def)
    have n': "kbd_count ?s' = Suc ?n"
      using False b by (auto simp: kbd_count_def word_le_nat_alt next_t split: if_splits)
    have "ring_index ?h ?n = ?t" using b by (auto simp: ring_index_def kbd_count_def word_le_nat_alt)
    then have tail: "of_nat (ring_index ?h ?n) = kbd_tail s" by simp
    have old: "of_nat (ring_index ?h i) \<noteq> kbd_tail s" if "i < ?n" for i
    proof
      assume "of_nat (ring_index ?h i) = kbd_tail s"
      then have "ring_index ?h i = ?t"
        using unat_ring_index [OF b(1), of i] that kbd_count_less [OF assms] by simp
      then show False using that b by (auto simp: ring_index_def kbd_count_def word_le_nat_alt split: if_splits)
    qed
    have "kbd_contents ?s' = kbd_contents s @ [c]"
      using old by (simp add: kbd_contents_def n' tail)
    then show ?thesis using False kbd_count_less [OF assms] push by simp
  qed
qed

lemma kbd_take_contents:
  assumes "ring_inv s" and "kbd_available s"
  shows "ring_inv (snd (kbd_take s)) \<and> kbd_contents s = fst (kbd_take s) # kbd_contents (snd (kbd_take s))"
proof -
  let ?h = "unat (kbd_head s)" and ?t = "unat (kbd_tail s)" and ?n = "kbd_count s"
  have b: "?h < 256" "?t < 256" using ring_bounds [OF assms(1)] by auto
  have next_h: "unat ((kbd_head s + 1) AND (KBD_BUF_SIZE - 1)) = (if ?h = 255 then 0 else Suc ?h)"
    using unat_ring_next' assms by (simp add: ring_inv_def)
  let ?s' = "s\<lparr>kbd_head := (kbd_head s + 1) AND (KBD_BUF_SIZE - 1)\<rparr>"
  have pos: "?n \<noteq> 0" using assms kbd_available_iff by blast
  have n': "?n = Suc (kbd_count ?s')"
    using pos b by (auto simp: kbd_count_def word_le_nat_alt next_h split: if_splits)
  have shift: "ring_index ?h (Suc i) = ring_index (unat (kbd_head ?s')) i" if "i < kbd_count ?s'" for i
    using b that n' kbd_count_less [OF assms(1)] by (auto simp: ring_index_def next_h)
  have "kbd_contents s = kbd_buf s (of_nat (ring_index ?h 0)) #
      map (\<lambda>i. kbd_buf s (of_nat (ring_index ?h (Suc i)))) [0..<kbd_count ?s']"
    unfolding kbd_contents_def n' by (simp add: upt_conv_Cons map_Suc_upt [symmetric] del: upt_Suc)
  also have "\<dots> = kbd_buf s (kbd_head s) # kbd_contents ?s'"
    using shift b by (simp add: kbd_contents_def ring_index_def)
  finally show ?thesis
    using assms(1) ring_next_less by (simp add: kbd_take_def ring_inv_def)
qed

interpretation kbdq: dropping_queue kbd_contents buf_push kbd_take kbd_available ring_inv 255
  using kbd_count_less kbd_available_iff buf_push_contents kbd_take_contents
  by unfold_locales (auto simp: length_0_conv [symmetric] simp del: length_0_conv)

section \<open>Decoding as a stream function\<close>

text \<open>The characters that a list of bytes produces, as the driver collects them.\<close>

fun kbd_feed :: "u8 list \<Rightarrow> kbd_state \<Rightarrow> char list \<times> kbd_state" where
  "kbd_feed [] s = ([], s)"
| "kbd_feed (b # bs) s =
     (let (ok, c, s) = kbd_decode_scancode b s; (cs, s) = kbd_feed bs s
      in ((if ok \<and> c \<noteq> NUL then [c] else []) @ cs, s))"

text \<open>What a keyboard means: keys go down and up, and a key that goes down produces a character under
  the modifiers held at that moment.\<close>

datatype key_event = Press u8 | Release u8

datatype key_role = Shift | Caps | Ctrl | Alt | Plain

record kbd_mods =
  m_shift :: bool
  m_caps :: bool
  m_ctrl :: bool
  m_alt :: bool

definition key_role_of :: "bool \<Rightarrow> u8 \<Rightarrow> key_role" where
  "key_role_of set1 k =
     (if k \<in> (if set1 then {0x2A, 0x36} else {0x12, 0x59}) then Shift
      else if k = (if set1 then 0x3A else 0x58) then Caps
      else if k = (if set1 then 0x1D else 0x14) then Ctrl
      else if k = (if set1 then 0x38 else 0x11) then Alt
      else Plain)"

definition key_chars :: "bool \<Rightarrow> u8 \<Rightarrow> kbd_mods \<Rightarrow> char list" where
  "key_chars set1 k m =
     (let n = (if set1 then sc1_normal k else sc2_normal k);
          u = (if set1 then sc1_shifted k else sc2_shifted k);
          c = (if (if is_alpha n then m_shift m \<noteq> m_caps m else m_shift m) then u else n)
      in if m_ctrl m \<and> k = (if set1 then 0x2E else 0x21) then [CHR 0x03]
         else if 128 \<le> k \<or> c = NUL then [] else [c])"

fun key_step :: "bool \<Rightarrow> key_event \<Rightarrow> kbd_mods \<Rightarrow> char list \<times> kbd_mods" where
  "key_step set1 (Press k) m =
     (case key_role_of set1 k of
        Shift \<Rightarrow> ([], m\<lparr>m_shift := True\<rparr>) | Caps \<Rightarrow> ([], m\<lparr>m_caps := \<not> m_caps m\<rparr>)
      | Ctrl \<Rightarrow> ([], m\<lparr>m_ctrl := True\<rparr>) | Alt \<Rightarrow> ([], m\<lparr>m_alt := True\<rparr>)
      | Plain \<Rightarrow> (key_chars set1 k m, m))"
| "key_step set1 (Release k) m =
     (case key_role_of set1 k of
        Shift \<Rightarrow> ([], m\<lparr>m_shift := False\<rparr>) | Ctrl \<Rightarrow> ([], m\<lparr>m_ctrl := False\<rparr>)
      | Alt \<Rightarrow> ([], m\<lparr>m_alt := False\<rparr>) | _ \<Rightarrow> ([], m))"

fun key_run :: "bool \<Rightarrow> key_event list \<Rightarrow> kbd_mods \<Rightarrow> char list \<times> kbd_mods" where
  "key_run set1 [] m = ([], m)"
| "key_run set1 (e # es) m =
     (let (cs, m) = key_step set1 e m; (ds, m) = key_run set1 es m in (cs @ ds, m))"

text \<open>The bytes of an event in the two scancode sets, and the keys whose bytes are not prefixes.\<close>

fun event_bytes :: "bool \<Rightarrow> key_event \<Rightarrow> u8 list" where
  "event_bytes set1 (Press k) = [k]"
| "event_bytes set1 (Release k) = (if set1 then [k OR 0x80] else [0xF0, k])"

fun event_ok :: "bool \<Rightarrow> key_event \<Rightarrow> bool" where
  "event_ok set1 (Press k) \<longleftrightarrow> (if set1 then k < 0x80 \<and> k \<noteq> 0x60 \<and> k \<noteq> 0x70 else k \<noteq> 0xE0 \<and> k \<noteq> 0xF0)"
| "event_ok set1 (Release k) \<longleftrightarrow> (if set1 then k < 0x80 \<and> k \<noteq> 0x60 \<and> k \<noteq> 0x70 else k \<noteq> 0xE0 \<and> k \<noteq> 0xF0)"

definition mods_of :: "kbd_state \<Rightarrow> kbd_mods" where
  "mods_of s = \<lparr>m_shift = kbd_shift s, m_caps = kbd_caps s, m_ctrl = kbd_ctrl_held s, m_alt = kbd_alt_held s\<rparr>"

definition decoder_ready :: "bool \<Rightarrow> kbd_state \<Rightarrow> bool" where
  "decoder_ready set1 s \<longleftrightarrow> \<not> kbd_extended s \<and> \<not> kbd_set2_release s \<and>
     kbd_scancode_set s = (if set1 then 1 else 2)"

lemma kbd_feed_append:
  "kbd_feed (as @ bs) s = (let (cs, s) = kbd_feed as s; (ds, s) = kbd_feed bs s in (cs @ ds, s))"
  by (induction as arbitrary: s) (auto simp: Let_def split: prod.splits)

lemma low7: "(k::u8) < 0x80 \<Longrightarrow> k AND 0x80 = 0 \<and> k AND 0x7F = k \<and> (k OR 0x80) AND 0x80 \<noteq> 0 \<and> (k OR 0x80) AND 0x7F = k"
proof -
  assume k: "k < 0x80"
  have m: "(0x7F :: u8) = mask 7" by (simp add: mask_eq_exp_minus_1)
  have e: "(0x80 :: u8) = 2 ^ 7" by simp
  have "take_bit 7 k = k" using k by (simp add: word_unat_eq_iff take_bit_eq_mod unat_mod_distrib word_less_nat_alt)
  then have b: "bit k n \<Longrightarrow> n < 7" for n by (metis bit_take_bit_iff)
  have 1: "k AND 0x80 = 0" unfolding e using and_exp_eq_0 [of 7 k] b [of 7] by simp blast
  have 2: "k AND 0x7F = k" unfolding m by (rule bit_word_eqI) (auto simp: bit_simps dest: b)
  have 3: "(k OR 0x80) AND 0x7F = k" unfolding m e
    by (rule bit_word_eqI) (simp only: bit_simps, auto dest: b)
  have 4: "(k OR 0x80) AND 0x80 \<noteq> 0" unfolding e using and_exp_eq_0 [of 7 "k OR 2 ^ 7"] by (simp add: bit_simps)
  show ?thesis using 1 2 3 4 by blast
qed


text \<open>The decoder after framing: a plain byte in a state that is neither extended nor in a release.\<close>

definition decode_key :: "bool \<Rightarrow> u8 \<Rightarrow> bool \<Rightarrow> kbd_state \<Rightarrow> bool \<times> char \<times> kbd_state" where
  "decode_key set1 key release s =
     (let sc = (if set1 then 1 else 2); s = update_modifier sc key release s in
      if (if set1 then is_modifier_set1 key else is_modifier_set2 key) \<or> release then (False, NUL, s)
      else if kbd_ctrl_held s \<and> key = (if set1 then 0x2E else 0x21) then (True, CHR 0x03, s)
      else let c = translate sc key s in
        if c \<noteq> NUL then (True, c, s\<lparr>kbd_scancode_set := sc\<rparr>) else (False, NUL, s))"

lemma decode_set1:
  assumes "decoder_ready True s" and "b \<noteq> 0xE0" and "b \<noteq> 0xF0"
  shows "kbd_decode_scancode b s = decode_key True (b AND 0x7F) (b AND 0x80 \<noteq> 0) s"
  using assms by (simp add: kbd_decode_scancode_def kbd_classify_def decoder_ready_def decode_key_def Let_def)

lemma decode_set2:
  assumes "\<not> kbd_extended s" and "kbd_scancode_set s = 2" and "b \<noteq> 0xE0" and "b \<noteq> 0xF0"
  shows "kbd_decode_scancode b s = decode_key False b (kbd_set2_release s) (s\<lparr>kbd_set2_release := False\<rparr>)"
  using assms by (simp add: kbd_decode_scancode_def kbd_classify_def decode_key_def Let_def)

lemma decode_key_step:
  assumes "decoder_ready set1 s"
  shows "case decode_key set1 k release s of (ok, c, s') \<Rightarrow>
    key_step set1 (if release then Release k else Press k) (mods_of s) =
      (if ok \<and> c \<noteq> NUL then [c] else [], mods_of s') \<and> decoder_ready set1 s'"
proof (cases "key_role_of set1 k = Plain")
  case True
  then have mod: "\<not> (if set1 then is_modifier_set1 k else is_modifier_set2 k)"
    by (cases set1) (simp_all add: key_role_of_def is_modifier_set1_def is_modifier_set2_def split: if_splits)
  then have "update_modifier (if set1 then 1 else 2) k release s = s"
    by (cases set1) (simp_all add: update_modifier_def is_modifier_set1_def is_modifier_set2_def)
  then have "decode_key set1 k release s =
     (if release then (False, NUL, s)
      else if kbd_ctrl_held s \<and> k = (if set1 then 0x2E else 0x21) then (True, CHR 0x03, s)
      else let c = translate (if set1 then 1 else 2) k s in
        if c \<noteq> NUL then (True, c, s\<lparr>kbd_scancode_set := (if set1 then 1 else 2)\<rparr>) else (False, NUL, s))"
    using mod unfolding decode_key_def Let_def by (simp only: simp_thms if_False)
  moreover have "s\<lparr>kbd_scancode_set := (if set1 then 1 else 2)\<rparr> = s" using assms by (simp add: decoder_ready_def)
  moreover have "key_chars set1 k (mods_of s) =
     (if kbd_ctrl_held s \<and> k = (if set1 then 0x2E else 0x21) then [CHR 0x03]
      else let c = translate (if set1 then 1 else 2) k s in if c = NUL then [] else [c])"
  proof -
    have tr: "translate (if set1 then 1 else 2) k s =
      (if 128 \<le> k then NUL
       else if (if is_alpha (if set1 then sc1_normal k else sc2_normal k) then kbd_shift s \<noteq> kbd_caps s else kbd_shift s)
       then (if set1 then sc1_shifted k else sc2_shifted k) else (if set1 then sc1_normal k else sc2_normal k))"
      by (cases set1) (simp_all add: translate_def Let_def)
    have guard: "(if 128 \<le> k \<or> C = NUL then [] else [C]) =
        (if (if 128 \<le> k then NUL else C) = NUL then [] else [if 128 \<le> k then NUL else C])" for C by simp
    show ?thesis unfolding key_chars_def mods_of_def kbd_mods.simps Let_def tr guard ..
  qed
  ultimately show ?thesis
    using assms True by (cases release) (simp_all add: Let_def)
next
  case False
  then have mod: "(if set1 then is_modifier_set1 k else is_modifier_set2 k)"
    by (cases set1) (auto simp: key_role_of_def is_modifier_set1_def is_modifier_set2_def split: if_splits)
  then have "decode_key set1 k release s = (False, NUL, update_modifier (if set1 then 1 else 2) k release s)"
    unfolding decode_key_def Let_def by (cases set1) simp_all
  then show ?thesis
    using assms False
    by (cases set1) (auto simp: key_role_of_def update_modifier_def mods_of_def decoder_ready_def split: if_splits)
qed

lemma kbd_feed_event:
  assumes "decoder_ready set1 s" and "event_ok set1 e"
  shows "case kbd_feed (event_bytes set1 e) s of (cs, s') \<Rightarrow>
    key_step set1 e (mods_of s) = (cs, mods_of s') \<and> decoder_ready set1 s'"
proof -
  obtain k r where e: "e = (if r then Release k else Press k)" by (cases e) (metis (full_types))+
  have key: "kbd_feed (event_bytes set1 e) s =
      (case decode_key set1 k r s of (ok, c, s') \<Rightarrow> (if ok \<and> c \<noteq> NUL then [c] else [], s'))"
  proof (cases set1)
    case True
    then have k: "k < 0x80" "k \<noteq> 0x60" "k \<noteq> 0x70" using assms(2) e by (cases r; simp)+
    have "kbd_decode_scancode (if r then k OR 0x80 else k) s = decode_key True k r s"
    proof (cases r)
      case r: True
      have "k OR 0x80 \<noteq> 0xE0" "k OR 0x80 \<noteq> 0xF0"
      proof -
        have "(k OR 0x80) AND 0x7F \<noteq> 0x60" "(k OR 0x80) AND 0x7F \<noteq> 0x70" using low7 [OF k(1)] k(2,3) by simp_all
        then show "k OR 0x80 \<noteq> 0xE0" "k OR 0x80 \<noteq> 0xF0" by auto
      qed
      then show ?thesis using decode_set1 [of s "k OR 0x80"] assms(1) True low7 [OF k(1)] r by simp
    next
      case r: False
      have "k \<noteq> 0xE0" "k \<noteq> 0xF0" using k(1) by auto
      then show ?thesis using decode_set1 [of s k] assms(1) True low7 [OF k(1)] r by simp
    qed
    then show ?thesis using True e by (cases r) (auto split: prod.splits)
  next
    case False
    then have k: "k \<noteq> 0xE0" "k \<noteq> 0xF0" using assms(2) e by (cases r; simp)+
    have rd: "\<not> kbd_extended s" "kbd_scancode_set s = 2" "\<not> kbd_set2_release s"
      using assms(1) False by (simp_all add: decoder_ready_def)
    have f0: "kbd_decode_scancode 0xF0 s = (False, NUL, s\<lparr>kbd_set2_release := True\<rparr>)"
      using rd by (simp add: kbd_decode_scancode_def)
    have s: "s\<lparr>kbd_set2_release := False\<rparr> = s" using rd(3) by simp
    have press: "kbd_decode_scancode k s = decode_key False k False s"
      using decode_set2 [OF rd(1,2) k] rd(3) unfolding s by simp
    have release: "kbd_decode_scancode k (s\<lparr>kbd_set2_release := True\<rparr>) = decode_key False k True s"
    proof -
      have "s\<lparr>kbd_set2_release := True\<rparr>\<lparr>kbd_set2_release := False\<rparr> = s" using s by simp
      then show ?thesis using decode_set2 [of "s\<lparr>kbd_set2_release := True\<rparr>" k] rd(1,2) k by simp
    qed
    obtain ok c s' where d: "decode_key False k r s = (ok, c, s')" by (metis prod_cases3)
    show ?thesis using False e d by (cases r) (simp_all add: f0 press release)
  qed
  obtain ok c s' where d: "decode_key set1 k r s = (ok, c, s')" by (metis prod_cases3)
  show ?thesis
    using decode_key_step [OF assms(1), where k = k and release = r]
    unfolding key d prod.case e [symmetric] .
qed

lemma kbd_feed_run:
  assumes "decoder_ready set1 s" and "list_all (event_ok set1) es"
  shows "case kbd_feed (concat (map (event_bytes set1) es)) s of (cs, s') \<Rightarrow>
    key_run set1 es (mods_of s) = (cs, mods_of s') \<and> decoder_ready set1 s'"
  using assms
proof (induction es arbitrary: s)
  case Nil
  then show ?case by simp
next
  case (Cons e es)
  obtain cs s1 where 1: "kbd_feed (event_bytes set1 e) s = (cs, s1)" by fastforce
  with kbd_feed_event [OF Cons.prems(1), of e] Cons.prems(2)
  have 2: "key_step set1 e (mods_of s) = (cs, mods_of s1)" "decoder_ready set1 s1" by auto
  with Cons.IH [OF 2(2)] Cons.prems(2) 1 show ?case
    by (auto simp: kbd_feed_append split: prod.splits)
qed

section \<open>Polling\<close>

text \<open>The bytes that a poll of at most \<open>n\<close> rounds takes from the keyboard, mouse bytes left out.\<close>

fun polled_bytes :: "nat \<Rightarrow> ports \<Rightarrow> u8 list" where
  "polled_bytes 0 io = []"
| "polled_bytes (Suc n) io =
     (let (status, io) = inb KBD_STATUS io in
      if status AND KBD_STAT_OUT = 0 then []
      else let (b, io) = inb KBD_DATA io in
        (if status AND KBD_STAT_AUX \<noteq> 0 then [] else [b]) @ polled_bytes n io)"

definition set_ring :: "(u32 \<Rightarrow> char) \<Rightarrow> u32 \<Rightarrow> kbd_state \<Rightarrow> kbd_state" where
  "set_ring B T s = s\<lparr>kbd_buf := B, kbd_tail := T\<rparr>"

lemma set_ring_fields [simp]:
  "kbd_shift (set_ring B T s) = kbd_shift s" "kbd_caps (set_ring B T s) = kbd_caps s"
  "kbd_ctrl_held (set_ring B T s) = kbd_ctrl_held s" "kbd_alt_held (set_ring B T s) = kbd_alt_held s"
  "kbd_set2_release (set_ring B T s) = kbd_set2_release s" "kbd_extended (set_ring B T s) = kbd_extended s"
  "kbd_scancode_set (set_ring B T s) = kbd_scancode_set s"
  by (simp_all add: set_ring_def)

lemma set_ring_commute:
  "set_ring B T s\<lparr>kbd_shift := x\<rparr> = set_ring B T (s\<lparr>kbd_shift := x\<rparr>)"
  "set_ring B T s\<lparr>kbd_caps := x\<rparr> = set_ring B T (s\<lparr>kbd_caps := x\<rparr>)"
  "set_ring B T s\<lparr>kbd_ctrl_held := x\<rparr> = set_ring B T (s\<lparr>kbd_ctrl_held := x\<rparr>)"
  "set_ring B T s\<lparr>kbd_alt_held := x\<rparr> = set_ring B T (s\<lparr>kbd_alt_held := x\<rparr>)"
  "set_ring B T s\<lparr>kbd_set2_release := x\<rparr> = set_ring B T (s\<lparr>kbd_set2_release := x\<rparr>)"
  "set_ring B T s\<lparr>kbd_extended := x\<rparr> = set_ring B T (s\<lparr>kbd_extended := x\<rparr>)"
  "set_ring B T s\<lparr>kbd_scancode_set := y\<rparr> = set_ring B T (s\<lparr>kbd_scancode_set := y\<rparr>)"
  by (simp_all add: set_ring_def)

lemma set_ring_parts:
  "update_modifier sc k r (set_ring B T s) = set_ring B T (update_modifier sc k r s)"
  "translate sc k (set_ring B T s) = translate sc k s"
  "kbd_classify b (set_ring B T s) = (case kbd_classify b s of (sc, r, k, s) \<Rightarrow> (sc, r, k, set_ring B T s))"
  by (simp_all add: update_modifier_def translate_def kbd_classify_def set_ring_commute Let_def)

lemma decode_set_ring:
  "kbd_decode_scancode b (set_ring B T s) =
     (case kbd_decode_scancode b s of (ok, c, s) \<Rightarrow> (ok, c, set_ring B T s))"
proof -
  obtain sc r k s1 where c: "kbd_classify b s = (sc, r, k, s1)" by (metis prod_cases4)
  show ?thesis
    unfolding kbd_decode_scancode_def set_ring_parts c prod.case set_ring_commute Let_def set_ring_fields
      if_distrib [where f = "\<lambda>p. case p of (ok, c, s) \<Rightarrow> (ok, c, set_ring B T s)"]
      if_distrib [where f = "set_ring B T"] ..
qed

lemma decode_ring_fields:
  "kbd_decode_scancode b s = (ok, c, s') \<Longrightarrow>
     kbd_buf s' = kbd_buf s \<and> kbd_head s' = kbd_head s \<and> kbd_tail s' = kbd_tail s"
  by (auto simp: kbd_decode_scancode_def kbd_classify_def update_modifier_def Let_def split: if_splits)


lemma buf_push_set_ring: "\<exists>B T. buf_push c s = set_ring B T s"
proof (cases "(kbd_tail s + 1) AND (KBD_BUF_SIZE - 1) = kbd_head s")
  case True
  then have "buf_push c s = set_ring (kbd_buf s) (kbd_tail s) s" by (simp add: buf_push_def set_ring_def)
  then show ?thesis by blast
next
  case False
  then have "buf_push c s = set_ring ((kbd_buf s)(kbd_tail s := c)) ((kbd_tail s + 1) AND (KBD_BUF_SIZE - 1)) s"
    by (simp add: buf_push_def set_ring_def Let_def)
  then show ?thesis by blast
qed

lemma feed_set_ring: "fst (kbd_feed bs (set_ring B T s)) = fst (kbd_feed bs s)"
proof (induction bs arbitrary: s)
  case (Cons b bs)
  obtain ok c s1 where "kbd_decode_scancode b s = (ok, c, s1)" by (metis prod_cases3)
  then show ?case using Cons.IH [of s1] by (simp add: decode_set_ring split_def Let_def)
qed simp

lemma feed_buf_push: "fst (kbd_feed bs (buf_push c s)) = fst (kbd_feed bs s)"
  using buf_push_set_ring [of c s] feed_set_ring by metis

lemma contents_cong:
  "kbd_buf s' = kbd_buf s \<Longrightarrow> kbd_head s' = kbd_head s \<Longrightarrow> kbd_tail s' = kbd_tail s \<Longrightarrow>
     kbd_contents s' = kbd_contents s \<and> ring_inv s' = ring_inv s"
  by (simp add: kbd_contents_def kbd_count_def ring_inv_def)

lemma handle_scancodes_contents:
  assumes "ring_inv s"
  shows "ring_inv (fold handle_scancode bs s) \<and>
    kbd_contents (fold handle_scancode bs s) = take 255 (kbd_contents s @ fst (kbd_feed bs s))"
  using assms
proof (induction bs arbitrary: s)
  case Nil
  then show ?case using kbdq.contents_bound [of s] by simp
next
  case (Cons b bs)
  obtain ok c s1 where d: "kbd_decode_scancode b s = (ok, c, s1)" by (metis prod_cases3)
  have r1: "ring_inv s1" "kbd_contents s1 = kbd_contents s"
    using decode_ring_fields [OF d] contents_cong [of s1 s] Cons.prems by simp_all
  have feed: "fst (kbd_feed (b # bs) s) = (if ok \<and> c \<noteq> NUL then [c] else []) @ fst (kbd_feed bs s1)"
    by (simp add: d split: prod.splits)
  show ?case
  proof (cases "ok \<and> c \<noteq> NUL")
    case True
    then have h: "handle_scancode b s = buf_push c s1" by (simp add: handle_scancode_def d)
    have "kbd_contents (buf_push c s1) = take 255 (kbd_contents s @ [c])"
      using kbdq.fold_push [OF r1(1), of "[c]"] r1(2) by simp
    moreover have "take n (take n xs @ ys) = take n (xs @ ys)" for n and xs ys :: "char list"
      by (cases "length xs \<le> n") (simp_all add: min_def)
    ultimately have "take 255 (kbd_contents (buf_push c s1) @ ys) = take 255 (kbd_contents s @ c # ys)" for ys
      by (metis append.assoc append_Cons append_Nil)
    then show ?thesis
      using Cons.IH [OF kbdq.push_invar [OF r1(1)], of c] True
      by (simp add: h feed feed_buf_push del: kbd_feed.simps)
  next
    case False
    then have "handle_scancode b s = s1" by (auto simp: handle_scancode_def d)
    moreover have "fst (kbd_feed (b # bs) s) = fst (kbd_feed bs s1)" using feed False by auto
    ultimately show ?thesis using Cons.IH [OF r1(1)] r1(2) by (simp del: kbd_feed.simps)
  qed
qed

lemma kbd_poll_loop_fold: "fst (kbd_poll_loop n s io) = fold handle_scancode (polled_bytes n io) s"
  by (induction n arbitrary: s io) (auto simp: Let_def split: prod.splits)

lemma length_polled_bytes: "length (polled_bytes n io) \<le> n"
  by (induction n arbitrary: io) (auto simp: Let_def le_SucI split: prod.splits)

section \<open>Properties\<close>

definition kbd_zero :: kbd_state where
  "kbd_zero = \<lparr>kbd_buf = (\<lambda>_. NUL), kbd_head = 0, kbd_tail = 0, kbd_ctrl_held = False, kbd_alt_held = False,
     kbd_shift = False, kbd_caps = False, kbd_set2_release = False, kbd_extended = False, kbd_scancode_set = 0\<rparr>"

text \<open>A controller that always has the set-1 make code of the letter h ready.\<close>

definition ports_key_h :: ports where
  "ports_key_h = \<lparr>port_dev = (\<lambda>_ p. if p = KBD_STATUS then 1 else 0x23), port_reads = 0, port_writes = []\<rparr>"

lemma kbd_zero_ring: "ring_inv kbd_zero" "kbd_contents kbd_zero = []"
  by (simp_all add: kbd_zero_def ring_inv_def KBD_BUF_SIZE_def kbd_contents_def kbd_count_def)

text \<open>C24: for both scancode sets, a decoder that knows its set turns the bytes of any sequence of key
  presses and releases into exactly the characters that the keyboard's reference meaning gives, keeps
  the modifiers in step with it, and is ready for the next event.\<close>

theorem kbd_decoder_refines_keyboard:
  assumes "decoder_ready set1 s" and "list_all (event_ok set1) es"
  shows "case kbd_feed (concat (map (event_bytes set1) es)) s of (cs, s') \<Rightarrow>
    key_run set1 es (mods_of s) = (cs, mods_of s') \<and> decoder_ready set1 s'"
  by (rule kbd_feed_run [OF assms])

theorem kbd_decoder_refines_keyboard_witness:
  "fst (kbd_feed [0x12, 0x1C, 0xF0, 0x1C, 0xF0, 0x12] (kbd_zero\<lparr>kbd_scancode_set := 2\<rparr>)) = ''A''"
proof -
  let ?s = "kbd_zero\<lparr>kbd_scancode_set := 2\<rparr>" and ?es = "[Press 0x12, Press 0x1C, Release 0x1C, Release 0x12]"
  have "decoder_ready False ?s" by (simp add: decoder_ready_def kbd_zero_def)
  from kbd_decoder_refines_keyboard [OF this, of ?es]
  have "key_run False ?es (mods_of ?s) = (fst (kbd_feed [0x12, 0x1C, 0xF0, 0x1C, 0xF0, 0x12] ?s),
      mods_of (snd (kbd_feed [0x12, 0x1C, 0xF0, 0x1C, 0xF0, 0x12] ?s)))"
    by (simp del: kbd_feed.simps key_run.simps split: prod.splits)
  moreover have "fst (key_run False ?es (mods_of ?s)) = ''A''"
    by (simp add: mods_of_def kbd_zero_def key_role_of_def key_chars_def Let_def is_alpha_def
        sc2_normal_def sc2_shifted_def array_designated_def less_char_def less_eq_char_def)
  ultimately show ?thesis by simp
qed

text \<open>C28: one poll takes at most 16 bytes from the controller, decodes them in order and appends the
  characters to the queue; what exceeds 255 characters is dropped and nothing is overwritten.\<close>

theorem kbd_poll_queue:
  assumes "ring_inv s" and "kbd_poll s io = (s', io')"
  shows "ring_inv s' \<and> kbd_contents s' = take 255 (kbd_contents s @ fst (kbd_feed (polled_bytes 16 io) s)) \<and>
    length (polled_bytes 16 io) \<le> 16"
proof -
  have "s' = fold handle_scancode (polled_bytes 16 io) s"
    using assms(2) kbd_poll_loop_fold [of 16 s io] by (simp add: kbd_poll_def)
  then show ?thesis using handle_scancodes_contents [OF assms(1)] length_polled_bytes by blast
qed

theorem kbd_poll_queue_witness:
  "\<exists>s' io'. kbd_poll kbd_zero ports_idle = (s', io') \<and> ring_inv s' \<and> kbd_contents s' = []"
proof -
  obtain s' io' where p: "kbd_poll kbd_zero ports_idle = (s', io')" by fastforce
  have "polled_bytes 16 ports_idle = []"
    using polled_bytes.simps(2) [of 15 ports_idle]
    by (simp add: eval_nat_numeral ports_idle_def inb_def KBD_STAT_OUT_def)
  with kbd_poll_queue [OF kbd_zero_ring(1) p] p show ?thesis by (simp add: kbd_zero_ring)
qed

text \<open>The queue never holds a zero character, so 0 is an unambiguous answer of kbd_trygetchar.\<close>

definition kbd_inv :: "kbd_state \<Rightarrow> bool" where
  "kbd_inv s \<longleftrightarrow> ring_inv s \<and> NUL \<notin> set (kbd_contents s)"

lemma feed_nonzero: "NUL \<notin> set (fst (kbd_feed bs s))"
proof (induction bs arbitrary: s)
  case (Cons b bs)
  obtain ok c s1 where "kbd_decode_scancode b s = (ok, c, s1)" by (metis prod_cases3)
  then show ?case using Cons.IH [of s1] by (auto simp: split_def Let_def)
qed simp

text \<open>C29: kbd_trygetchar gives 0 exactly when no character is waiting after the poll; otherwise it gives
  the oldest character and removes only that one. The queue stays free of zero characters.\<close>

theorem kbd_trygetchar_fifo:
  assumes "kbd_inv s" and "kbd_trygetchar s io = (c, s', io')"
  shows "kbd_inv s' \<and>
    (let q = take 255 (kbd_contents s @ fst (kbd_feed (polled_bytes 16 io) s)) in
     if q = [] then c = NUL \<and> kbd_contents s' = [] else c \<noteq> NUL \<and> q = c # kbd_contents s')"
proof -
  obtain s1 io1 where p: "kbd_poll s io = (s1, io1)" by fastforce
  let ?q = "take 255 (kbd_contents s @ fst (kbd_feed (polled_bytes 16 io) s))"
  have "s1 = fold handle_scancode (polled_bytes 16 io) s"
    using p kbd_poll_loop_fold [of 16 s io] by (simp add: kbd_poll_def)
  then have q: "ring_inv s1" "kbd_contents s1 = ?q"
    using handle_scancodes_contents assms(1) by (simp_all add: kbd_inv_def)
  have nz: "NUL \<notin> set ?q"
    using assms(1) feed_nonzero by (auto simp: kbd_inv_def dest: in_set_takeD)
  show ?thesis
  proof (cases "kbd_available s1")
    case False
    have "?q = []" using kbdq.avail_iff [OF q(1)] False q(2) by metis
    moreover have "c = NUL" "s' = s1" using False assms(2) p by (simp_all add: kbd_trygetchar_def)
    ultimately show ?thesis using q unfolding Let_def kbd_inv_def by (simp only: if_True list.set empty_iff) simp
  next
    case True
    have "?q = fst (kbd_take s1) # kbd_contents (snd (kbd_take s1))"
      using kbdq.take_contents [OF q(1) True] q(2) by simp
    moreover have "c = fst (kbd_take s1)" "s' = snd (kbd_take s1)"
      using assms(2) p True by (auto simp: kbd_trygetchar_def split: prod.splits)
    ultimately have "?q = c # kbd_contents s'" "ring_inv s'" using kbdq.take_invar [OF q(1) True] by simp_all
    then show ?thesis using nz by (auto simp: kbd_inv_def Let_def simp del: take_append)
  qed
qed

theorem kbd_trygetchar_fifo_witness:
  "\<exists>s' io'. kbd_trygetchar kbd_zero ports_idle = (NUL, s', io') \<and> kbd_inv s'"
proof -
  obtain c s' io' where t: "kbd_trygetchar kbd_zero ports_idle = (c, s', io')" by (metis prod_cases3)
  have "polled_bytes 16 ports_idle = []"
    using polled_bytes.simps(2) [of 15 ports_idle]
    by (simp add: eval_nat_numeral ports_idle_def inb_def KBD_STAT_OUT_def)
  moreover have "kbd_inv kbd_zero" by (simp add: kbd_inv_def kbd_zero_ring)
  ultimately show ?thesis using kbd_trygetchar_fifo [OF _ t] t by (simp add: kbd_zero_ring Let_def)
qed

end
