(* ===== verification/Console.thy ===== *)
theory Console
  imports Ports
begin

text \<open>
  The kernel's console: drivers/char/vga.c (the text screen), drivers/char/serial.c (the first serial
  port) and lib/kprintf.c (formatted output to both). The screen memory is a function of the cell
  index and the C ints are \<^typ>\<open>int\<close>. A wait for the serial port may never end: \<open>None\<close>.
\<close>

section \<open>The text screen\<close>

definition VGA_WIDTH :: int where "VGA_WIDTH = 80"
definition VGA_HEIGHT :: int where "VGA_HEIGHT = 25"

record vga_state =
  vga_buf :: "int \<Rightarrow> u16"
  vga_row :: int
  vga_col :: int
  vga_color :: u8

definition char_u8 :: "char \<Rightarrow> u8" where
  "char_u8 c = of_char c"

definition vga_entry :: "char \<Rightarrow> u8 \<Rightarrow> u16" where
  "vga_entry c color = ucast (char_u8 c) OR push_bit 8 (ucast color)"

definition vga_set_color :: "u8 \<Rightarrow> u8 \<Rightarrow> vga_state \<Rightarrow> vga_state" where
  "vga_set_color fg bg v = v\<lparr>vga_color := push_bit 4 (bg AND 0xF) OR (fg AND 0xF)\<rparr>"

text \<open>The loops \<open>for (int i = 0; i < n; i++)\<close>.\<close>

definition for_upto :: "int \<Rightarrow> (int \<Rightarrow> 's \<Rightarrow> 's) \<Rightarrow> 's \<Rightarrow> 's" where
  "for_upto n body s = fold body [0..n - 1] s"

definition vga_clear :: "vga_state \<Rightarrow> vga_state" where
  "vga_clear v =
     (let v = for_upto VGA_HEIGHT (\<lambda>y. for_upto VGA_WIDTH (\<lambda>x v.
          v\<lparr>vga_buf := (vga_buf v)(y * VGA_WIDTH + x := vga_entry (CHR '' '') (vga_color v))\<rparr>)) v
      in v\<lparr>vga_row := 0, vga_col := 0\<rparr>)"

definition vga_init :: "vga_state \<Rightarrow> vga_state" where
  "vga_init = vga_clear"

definition vga_scroll :: "vga_state \<Rightarrow> vga_state" where
  "vga_scroll v =
     (let v = for_upto (VGA_HEIGHT - 1) (\<lambda>y. for_upto VGA_WIDTH (\<lambda>x v.
          v\<lparr>vga_buf := (vga_buf v)(y * VGA_WIDTH + x := vga_buf v ((y + 1) * VGA_WIDTH + x))\<rparr>)) v;
          v = for_upto VGA_WIDTH (\<lambda>x v.
          v\<lparr>vga_buf := (vga_buf v)((VGA_HEIGHT - 1) * VGA_WIDTH + x := vga_entry (CHR '' '') (vga_color v))\<rparr>) v
      in v\<lparr>vga_row := VGA_HEIGHT - 1\<rparr>)"

text \<open>\<open>if (++vga_row >= VGA_HEIGHT) vga_scroll();\<close>\<close>

definition vga_next_row :: "vga_state \<Rightarrow> vga_state" where
  "vga_next_row v =
     (let v = v\<lparr>vga_row := vga_row v + 1\<rparr> in if vga_row v \<ge> VGA_HEIGHT then vga_scroll v else v)"

definition vga_putchar :: "char \<Rightarrow> vga_state \<Rightarrow> vga_state" where
  "vga_putchar c v =
     (if c = CHR 0x0A then vga_next_row (v\<lparr>vga_col := 0\<rparr>)
      else if c = CHR 0x0D then v\<lparr>vga_col := 0\<rparr>
      else if c = CHR 0x09 then
        (let v = v\<lparr>vga_col := (vga_col v + 8) AND NOT 7\<rparr> in
         if vga_col v \<ge> VGA_WIDTH then vga_next_row (v\<lparr>vga_col := 0\<rparr>) else v)
      else
        (let v = v\<lparr>vga_buf := (vga_buf v)(vga_row v * VGA_WIDTH + vga_col v := vga_entry c (vga_color v))\<rparr>;
             v = v\<lparr>vga_col := vga_col v + 1\<rparr>
         in if vga_col v \<ge> VGA_WIDTH then vga_next_row (v\<lparr>vga_col := 0\<rparr>) else v))"

definition vga_puts :: "string \<Rightarrow> vga_state \<Rightarrow> vga_state" where
  "vga_puts s v = fold vga_putchar s v"

section \<open>The serial port\<close>

definition COM1_BASE :: u16 where "COM1_BASE = 0x3F8"
definition UART_DATA :: u16 where "UART_DATA = 0"
definition UART_IER :: u16 where "UART_IER = 1"
definition UART_BAUD_LO :: u16 where "UART_BAUD_LO = 0"
definition UART_BAUD_HI :: u16 where "UART_BAUD_HI = 1"
definition UART_IIR_FCR :: u16 where "UART_IIR_FCR = 2"
definition UART_LCR :: u16 where "UART_LCR = 3"
definition UART_MCR :: u16 where "UART_MCR = 4"
definition UART_LSR :: u16 where "UART_LSR = 5"
definition LCR_DLAB :: u8 where "LCR_DLAB = 0x80"
definition LCR_8N1 :: u8 where "LCR_8N1 = 0x03"
definition LSR_TX_EMPTY :: u8 where "LSR_TX_EMPTY = 0x20"

definition serial_init :: "ports \<Rightarrow> ports" where
  "serial_init io =
     (let io = outb (COM1_BASE + UART_IER) 0x00 io;
          io = outb (COM1_BASE + UART_LCR) LCR_DLAB io;
          io = outb (COM1_BASE + UART_BAUD_LO) 0x03 io;
          io = outb (COM1_BASE + UART_BAUD_HI) 0x00 io;
          io = outb (COM1_BASE + UART_LCR) LCR_8N1 io;
          io = outb (COM1_BASE + UART_IIR_FCR) 0xC7 io
      in outb (COM1_BASE + UART_MCR) 0x0B io)"

definition serial_ready :: "ports \<Rightarrow> bool \<times> ports" where
  "serial_ready io = (let (v, io) = inb (COM1_BASE + UART_LSR) io in (v AND LSR_TX_EMPTY \<noteq> 0, io))"

partial_function (option) serial_wait :: "ports \<Rightarrow> ports option" where
  "serial_wait io = (let (ok, io') = serial_ready io in if ok then Some io' else serial_wait io')"

text \<open>serial_putchar calls itself once, with a carriage return, for a newline.\<close>

definition serial_send :: "char \<Rightarrow> ports \<Rightarrow> ports option" where
  "serial_send c io = do { io \<leftarrow> serial_wait io; Some (outb (COM1_BASE + UART_DATA) (char_u8 c) io) }"

definition serial_putchar :: "char \<Rightarrow> ports \<Rightarrow> ports option" where
  "serial_putchar c io = do {
     io \<leftarrow> (if c = CHR 0x0A then serial_send (CHR 0x0D) io else Some io);
     serial_send c io
   }"

fun serial_puts :: "string \<Rightarrow> ports \<Rightarrow> ports option" where
  "serial_puts [] io = Some io"
| "serial_puts (c # s) io = do { io \<leftarrow> serial_putchar c io; serial_puts s io }"

section \<open>Formatted output\<close>

record console =
  con_vga :: vga_state
  con_io :: ports

definition kputchar :: "char \<Rightarrow> console \<Rightarrow> console option" where
  "kputchar c k = do {
     let k = k\<lparr>con_vga := vga_putchar c (con_vga k)\<rparr>;
     io \<leftarrow> serial_putchar c (con_io k);
     Some (k\<lparr>con_io := io\<rparr>)
   }"

fun kputs :: "string \<Rightarrow> console \<Rightarrow> console option" where
  "kputs [] k = Some k"
| "kputs (c # s) k = do { k \<leftarrow> kputchar c k; kputs s k }"

text \<open>
  The digits of a number, least significant first, as print_uint collects them in \<open>buf\<close>, and what
  print_uint and print_int send to kputchar.
\<close>

definition digit_char :: "bool \<Rightarrow> u64 \<Rightarrow> char" where
  "digit_char upper d = (if upper then ''0123456789ABCDEF'' else ''0123456789abcdef'') ! unat d"

function uint_digits :: "u64 \<Rightarrow> u64 \<Rightarrow> bool \<Rightarrow> char list" where
  "uint_digits n base upper =
     (if n > 0 \<and> base > 1 then digit_char upper (n mod base) # uint_digits (n div base) base upper else [])"
  by pat_completeness auto
termination
proof (relation "measure (\<lambda>(n, base, upper). unat n)", goal_cases)
  case (2 n base upper)
  then have "unat n div unat base < unat n"
    by (intro div_less_dividend) (simp_all add: word_less_nat_alt)
  then show ?case by (simp add: unat_div_distrib)
qed simp

declare uint_digits.simps [simp del]

definition print_uint :: "u64 \<Rightarrow> u64 \<Rightarrow> bool \<Rightarrow> nat \<Rightarrow> char \<Rightarrow> string" where
  "print_uint n base upper width pad =
     (let buf = (if n = 0 then ''0'' else uint_digits n base upper)
      in replicate (width - length buf) pad @ rev buf)"

definition print_int :: "u64 \<Rightarrow> nat \<Rightarrow> char \<Rightarrow> string" where
  "print_int n width pad =
     (if n <s 0 then
        CHR ''-'' # print_uint (- (n + 1) + 1) 10 False (if width > 0 then width - 1 else width) pad
      else print_uint n 10 False width pad)"

text \<open>
  A variadic argument is a machine word or a string pointer (\<open>None\<close> is NULL); taking an argument that
  is not there, or not of the kind the conversion wants, has no defined result.
\<close>

datatype karg = Num u64 | Str "string option"

fun va_num :: "bool \<Rightarrow> bool \<Rightarrow> karg list \<Rightarrow> (u64 \<times> karg list) option" where
  "va_num lng sx (Num v # ap) =
     Some (if lng then v else if sx then scast (ucast v :: u32) else ucast (ucast v :: u32), ap)"
| "va_num lng sx _ = None"

text \<open>
  The format is the memory from the pointer on, with the terminator and what lies behind it; to read
  behind the end of the list is to leave the memory (\<open>None\<close>). The width is a C \<open>int\<close>, whose overflow
  has no defined result either.
\<close>

definition INT_MAX :: nat where "INT_MAX = 0x7FFFFFFF"

fun kwidth :: "string \<Rightarrow> nat \<Rightarrow> (nat \<times> string) option" where
  "kwidth (c # fmt) w =
     (if CHR ''0'' \<le> c \<and> c \<le> CHR ''9'' then
        (let w = w * 10 + (of_char c - of_char (CHR ''0'')) in if w \<le> INT_MAX then kwidth fmt w else None)
      else Some (w, c # fmt))"
| "kwidth [] w = None"

definition kflags :: "string \<Rightarrow> (char \<times> nat \<times> bool \<times> string) option" where
  "kflags fmt = do {
     let (pad, fmt) = (if fmt \<noteq> [] \<and> hd fmt = CHR ''0'' then (CHR ''0'', tl fmt) else (CHR '' '', fmt));
     (width, fmt) \<leftarrow> kwidth fmt 0;
     let (lng, fmt) = (if hd fmt = CHR ''l'' then (True, tl fmt) else (False, fmt));
     Some (pad, width, lng, fmt)
   }"

definition kconv :: "char \<Rightarrow> char \<Rightarrow> nat \<Rightarrow> bool \<Rightarrow> karg list \<Rightarrow> (string \<times> karg list) option" where
  "kconv spec pad width lng ap =
     (if spec = CHR ''d'' \<or> spec = CHR ''i'' then do {
        (v, ap) \<leftarrow> va_num lng True ap; Some (print_int v width pad, ap) }
      else if spec = CHR ''u'' then do {
        (v, ap) \<leftarrow> va_num lng False ap; Some (print_uint v 10 False width pad, ap) }
      else if spec = CHR ''x'' then do {
        (v, ap) \<leftarrow> va_num lng False ap; Some (print_uint v 16 False width pad, ap) }
      else if spec = CHR ''X'' then do {
        (v, ap) \<leftarrow> va_num lng False ap; Some (print_uint v 16 True width pad, ap) }
      else if spec = CHR ''p'' then do {
        (v, ap) \<leftarrow> va_num True False ap; Some (''0x'' @ print_uint v 16 False 16 (CHR ''0''), ap) }
      else if spec = CHR ''s'' then
        (case ap of Str (Some s) # ap \<Rightarrow> Some (s, ap) | Str None # ap \<Rightarrow> Some (''(null)'', ap) | _ \<Rightarrow> None)
      else if spec = CHR ''c'' then do {
        (v, ap) \<leftarrow> va_num False True ap; Some ([char_of (unat (ucast v :: u8))], ap) }
      else if spec = CHR ''%'' then Some (''%'', ap)
      else Some ([CHR ''%'', spec], ap))"

lemma length_kwidth: "kwidth fmt w = Some (n, rest) \<Longrightarrow> length rest \<le> length fmt"
  by (induction fmt w rule: kwidth.induct) (auto simp: Let_def le_SucI split: if_splits)

lemma length_kflags: "kflags fmt = Some (pad, width, lng, rest) \<Longrightarrow> length rest \<le> length fmt"
  using length_kwidth [of fmt 0] length_kwidth [of "tl fmt" 0]
  by (fastforce simp: kflags_def Let_def split: if_splits bind_splits)

text \<open>
  The characters kprintf sends out. The loop looks for the terminator only between conversions: in a
  conversion it is an unknown specifier like any other, and the loop goes on behind it.
\<close>

function kformat :: "string \<Rightarrow> karg list \<Rightarrow> string option" where
  "kformat [] ap = None"
| "kformat (c # fmt) ap =
     (if c = NUL then Some []
      else if c \<noteq> CHR ''%'' then do { out \<leftarrow> kformat fmt ap; Some (c # out) }
      else
        (case kflags fmt of
           Some (pad, width, lng, spec # rest) \<Rightarrow> do {
             (s, ap) \<leftarrow> kconv spec pad width lng ap;
             out \<leftarrow> kformat rest ap;
             Some (s @ out)
           }
         | _ \<Rightarrow> None))"
  by pat_completeness auto
termination
proof (relation "measure (\<lambda>(fmt, ap). length fmt)", goal_cases)
  case (3 c fmt ap x pad y width z lng u spec rest)
  then have "kflags fmt = Some (pad, width, lng, spec # rest)" by simp
  from length_kflags [OF this] show ?case by simp
qed simp_all

definition kprintf :: "string \<Rightarrow> karg list \<Rightarrow> console \<Rightarrow> console option" where
  "kprintf fmt ap k = do { out \<leftarrow> kformat fmt ap; kputs out k }"

section \<open>The screen\<close>

definition vga_inv :: "vga_state \<Rightarrow> bool" where
  "vga_inv v \<longleftrightarrow> 0 \<le> vga_row v \<and> vga_row v < VGA_HEIGHT \<and> 0 \<le> vga_col v \<and> vga_col v < VGA_WIDTH"

text \<open>The cell at a row and a column, and the cells of the screen.\<close>

definition vga_cell :: "vga_state \<Rightarrow> int \<Rightarrow> int \<Rightarrow> u16" where
  "vga_cell v y x = vga_buf v (y * VGA_WIDTH + x)"

definition on_screen :: "int \<Rightarrow> bool" where
  "on_screen i \<longleftrightarrow> 0 \<le> i \<and> i < VGA_HEIGHT * VGA_WIDTH"

lemmas vga_dims = VGA_WIDTH_def VGA_HEIGHT_def

lemma for_upto_0 [simp]: "for_upto 0 body s = s"
  by (simp add: for_upto_def)

lemma for_upto_Suc: "for_upto (int (Suc n)) body s = body (int n) (for_upto (int n) body s)"
proof -
  have "[0..int (Suc n) - 1] = [0..int n - 1] @ [int n]"
    using upto_rec2 [of 0 "int n"] by simp
  then show ?thesis by (simp add: for_upto_def)
qed

text \<open>Cells \<open>a\<close> to \<open>b\<close> replaced, and the two row loops of the driver in these terms.\<close>

definition vga_set :: "int \<Rightarrow> int \<Rightarrow> (int \<Rightarrow> u16) \<Rightarrow> vga_state \<Rightarrow> vga_state" where
  "vga_set a b h v = v\<lparr>vga_buf := (\<lambda>i. if a \<le> i \<and> i < b then h i else vga_buf v i)\<rparr>"

lemma vga_set_fields [simp]:
  "vga_row (vga_set a b h v) = vga_row v" "vga_col (vga_set a b h v) = vga_col v"
  "vga_color (vga_set a b h v) = vga_color v"
  "vga_buf (vga_set a b h v) i = (if a \<le> i \<and> i < b then h i else vga_buf v i)"
  by (simp_all add: vga_set_def)

lemma vga_set_empty [simp]: "b \<le> a \<Longrightarrow> vga_set a b h v = v"
proof -
  assume "b \<le> a"
  then have "(\<lambda>i. if a \<le> i \<and> i < b then h i else vga_buf v i) = vga_buf v" by (auto simp: fun_eq_iff)
  then show ?thesis by (simp add: vga_set_def)
qed

lemma vga_set_snoc:
  "a \<le> b \<Longrightarrow> (vga_set a b h v)\<lparr>vga_buf := (vga_buf (vga_set a b h v))(b := h b)\<rparr> = vga_set a (b + 1) h v"
  by (auto simp: vga_set_def fun_eq_iff)

lemma clear_row_loop:
  "for_upto (int n) (\<lambda>x v. v\<lparr>vga_buf := (vga_buf v)(base + x := vga_entry c (vga_color v))\<rparr>) v =
     vga_set base (base + int n) (\<lambda>_. vga_entry c (vga_color v)) v"
proof (induction n)
  case (Suc n)
  show ?case
    unfolding for_upto_Suc Suc
    using vga_set_snoc [of base "base + int n" "\<lambda>_. vga_entry c (vga_color v)" v]
    by (simp add: algebra_simps del: fun_upd_apply)
qed simp

lemma copy_row_loop:
  assumes "int n \<le> d"
  shows "for_upto (int n) (\<lambda>x v. v\<lparr>vga_buf := (vga_buf v)(base + x := vga_buf v (base + d + x))\<rparr>) v =
     vga_set base (base + int n) (\<lambda>i. vga_buf v (i + d)) v"
  using assms
proof (induction n)
  case (Suc n)
  then have IH: "for_upto (int n) (\<lambda>x v. v\<lparr>vga_buf := (vga_buf v)(base + x := vga_buf v (base + d + x))\<rparr>) v =
     vga_set base (base + int n) (\<lambda>i. vga_buf v (i + d)) v" by (simp del: fun_upd_apply)
  have "vga_buf (vga_set base (base + int n) (\<lambda>i. vga_buf v (i + d)) v) (base + d + int n) = vga_buf v (base + int n + d)"
    using Suc.prems by (simp add: algebra_simps)
  then show ?case
    unfolding for_upto_Suc IH
    using vga_set_snoc [of base "base + int n" "\<lambda>i. vga_buf v (i + d)" v]
    by (simp add: algebra_simps del: fun_upd_apply vga_set_fields)
qed simp

lemma vga_set_join:
  assumes "a \<le> b" "b \<le> c" "\<And>i. b \<le> i \<Longrightarrow> i < c \<Longrightarrow> h' i = h i"
  shows "vga_set b c h' (vga_set a b h v) = vga_set a c h v"
  using assms by (auto simp: vga_set_def fun_eq_iff)

lemma vga_clear_eq:
  "vga_clear v = (vga_set 0 (VGA_HEIGHT * VGA_WIDTH) (\<lambda>_. vga_entry (CHR '' '') (vga_color v)) v)\<lparr>vga_row := 0, vga_col := 0\<rparr>"
proof -
  let ?e = "\<lambda>_. vga_entry (CHR '' '') (vga_color v)"
  let ?row = "\<lambda>y. for_upto VGA_WIDTH (\<lambda>x v.
      v\<lparr>vga_buf := (vga_buf v)(y * VGA_WIDTH + x := vga_entry (CHR '' '') (vga_color v))\<rparr>)"
  have W: "VGA_WIDTH = int 80" by (simp add: vga_dims)
  have "for_upto (int n) ?row v = vga_set 0 (int n * VGA_WIDTH) ?e v" for n
  proof (induction n)
    case (Suc n)
    have "?row (int n) (vga_set 0 (int n * VGA_WIDTH) ?e v) =
        vga_set (int n * VGA_WIDTH) (int n * VGA_WIDTH + int 80) ?e (vga_set 0 (int n * VGA_WIDTH) ?e v)"
      using clear_row_loop [of 80 "int n * VGA_WIDTH" "CHR '' ''" "vga_set 0 (int n * VGA_WIDTH) ?e v"]
      by (simp add: vga_dims)
    also have "\<dots> = vga_set 0 (int n * VGA_WIDTH + int 80) ?e v" by (rule vga_set_join) (simp_all add: vga_dims)
    also have "int n * VGA_WIDTH + int 80 = int (Suc n) * VGA_WIDTH" by (simp add: vga_dims)
    finally show ?case unfolding for_upto_Suc Suc .
  qed simp
  from this [of 25] show ?thesis by (simp add: vga_clear_def vga_dims Let_def)
qed

lemma vga_scroll_eq:
  "vga_scroll v = (vga_set ((VGA_HEIGHT - 1) * VGA_WIDTH) (VGA_HEIGHT * VGA_WIDTH) (\<lambda>_. vga_entry (CHR '' '') (vga_color v))
     (vga_set 0 ((VGA_HEIGHT - 1) * VGA_WIDTH) (\<lambda>i. vga_buf v (i + VGA_WIDTH)) v))\<lparr>vga_row := VGA_HEIGHT - 1\<rparr>"
proof -
  let ?h = "\<lambda>i. vga_buf v (i + VGA_WIDTH)"
  let ?row = "\<lambda>y. for_upto VGA_WIDTH (\<lambda>x v.
      v\<lparr>vga_buf := (vga_buf v)(y * VGA_WIDTH + x := vga_buf v ((y + 1) * VGA_WIDTH + x))\<rparr>)"
  have up: "for_upto (int n) ?row v = vga_set 0 (int n * VGA_WIDTH) ?h v" for n
  proof (induction n)
    case (Suc n)
    let ?v = "vga_set 0 (int n * VGA_WIDTH) ?h v"
    have "?row (int n) ?v =
        vga_set (int n * VGA_WIDTH) (int n * VGA_WIDTH + int 80) (\<lambda>i. vga_buf ?v (i + VGA_WIDTH)) ?v"
      using copy_row_loop [of 80 VGA_WIDTH "int n * VGA_WIDTH" ?v]
      by (simp add: vga_dims algebra_simps del: vga_set_fields)
    also have "\<dots> = vga_set 0 (int n * VGA_WIDTH + int 80) ?h v" by (rule vga_set_join) (simp_all add: vga_dims)
    also have "int n * VGA_WIDTH + int 80 = int (Suc n) * VGA_WIDTH" by (simp add: vga_dims)
    finally show ?case unfolding for_upto_Suc Suc .
  qed simp
  have "for_upto (VGA_HEIGHT - 1) ?row v = vga_set 0 ((VGA_HEIGHT - 1) * VGA_WIDTH) ?h v"
    using up [of 24] by (simp add: vga_dims)
  moreover have "for_upto VGA_WIDTH (\<lambda>x v.
          v\<lparr>vga_buf := (vga_buf v)((VGA_HEIGHT - 1) * VGA_WIDTH + x := vga_entry (CHR '' '') (vga_color v))\<rparr>) w =
      vga_set ((VGA_HEIGHT - 1) * VGA_WIDTH) (VGA_HEIGHT * VGA_WIDTH) (\<lambda>_. vga_entry (CHR '' '') (vga_color w)) w" for w
    using clear_row_loop [of 80 "(VGA_HEIGHT - 1) * VGA_WIDTH" "CHR '' ''" w] by (simp add: vga_dims)
  ultimately show ?thesis by (simp add: vga_scroll_def Let_def)
qed

lemma and_not7: "(x::int) AND NOT 7 = x div 8 * 8"
proof -
  have "x AND NOT (mask 3) = push_bit 3 (drop_bit 3 x)"
    by (rule bit_eqI) (auto simp: bit_simps)
  then show ?thesis by (simp add: push_bit_eq_mult drop_bit_eq_div mask_eq_exp_minus_1)
qed

lemma vga_next_row_ok:
  assumes "0 \<le> vga_row v" "vga_row v < VGA_HEIGHT" "vga_col v = 0"
  shows "vga_inv (vga_next_row v) \<and> (\<forall>i. \<not> on_screen i \<longrightarrow> vga_buf (vga_next_row v) i = vga_buf v i)"
  using assms by (auto simp: vga_next_row_def vga_inv_def Let_def vga_scroll_eq on_screen_def vga_dims)

lemma vga_putchar_ok:
  assumes "vga_inv v"
  shows "vga_inv (vga_putchar c v) \<and> (\<forall>i. \<not> on_screen i \<longrightarrow> vga_buf (vga_putchar c v) i = vga_buf v i)"
proof -
  have inv: "0 \<le> vga_row v" "vga_row v < VGA_HEIGHT" "0 \<le> vga_col v" "vga_col v < VGA_WIDTH"
    using assms by (simp_all add: vga_inv_def)
  let ?w = "v\<lparr>vga_buf := (vga_buf v)(vga_row v * VGA_WIDTH + vga_col v := vga_entry c (vga_color v))\<rparr>"
  have nl: "vga_inv (vga_next_row (v\<lparr>vga_col := 0\<rparr>)) \<and>
      (\<forall>i. \<not> on_screen i \<longrightarrow> vga_buf (vga_next_row (v\<lparr>vga_col := 0\<rparr>)) i = vga_buf v i)"
    using vga_next_row_ok [of "v\<lparr>vga_col := 0\<rparr>"] inv by simp
  have cell: "on_screen (vga_row v * VGA_WIDTH + vga_col v)"
    using inv by (simp add: on_screen_def vga_dims)
  have wr: "vga_inv (vga_next_row (?w\<lparr>vga_col := 0\<rparr>)) \<and>
      (\<forall>i. \<not> on_screen i \<longrightarrow> vga_buf (vga_next_row (?w\<lparr>vga_col := 0\<rparr>)) i = vga_buf v i)"
    using vga_next_row_ok [of "?w\<lparr>vga_col := 0\<rparr>"] inv cell by auto
  consider "c = CHR 0x0A" | "c = CHR 0x0D" | "c = CHR 0x09" | "c \<noteq> CHR 0x0A" "c \<noteq> CHR 0x0D" "c \<noteq> CHR 0x09" by blast
  then show ?thesis
  proof cases
    case 1
    then show ?thesis using nl by (simp add: vga_putchar_def)
  next
    case 2
    then show ?thesis using inv by (simp add: vga_putchar_def vga_inv_def vga_dims)
  next
    case 3
    have "vga_inv (v\<lparr>vga_col := (vga_col v + 8) AND NOT 7\<rparr>)" if "(vga_col v + 8) AND NOT 7 < VGA_WIDTH"
      using that inv by (simp add: vga_inv_def and_not7)
    then show ?thesis using 3 nl by (auto simp: vga_putchar_def Let_def not_le)
  next
    case 4
    have "vga_inv (?w\<lparr>vga_col := vga_col v + 1\<rparr>)" if "vga_col v + 1 < VGA_WIDTH"
      using that inv by (simp add: vga_inv_def)
    then show ?thesis using 4 wr cell
      by (auto simp: vga_putchar_def Let_def not_le simp del: fun_upd_apply) (auto)
  qed
qed

section \<open>Serial output\<close>

fun crlf :: "string \<Rightarrow> string" where
  "crlf [] = []"
| "crlf (c # s) = (if c = CHR 0x0A then [CHR 0x0D, CHR 0x0A] else [c]) @ crlf s"

text \<open>A port that is ready again and again: from every read on, some later status read says so.\<close>

definition serial_responsive :: "ports \<Rightarrow> bool" where
  "serial_responsive io \<longleftrightarrow> (\<forall>n. \<exists>k \<ge> n. port_dev io k (COM1_BASE + UART_LSR) AND LSR_TX_EMPTY \<noteq> 0)"

lemma serial_wait_returns:
  assumes "port_dev io (port_reads io + k) (COM1_BASE + UART_LSR) AND LSR_TX_EMPTY \<noteq> 0"
  shows "\<exists>n. serial_wait io = Some (io\<lparr>port_reads := n\<rparr>)"
  using assms
proof (induction k arbitrary: io)
  case 0
  then show ?case
    by (subst serial_wait.simps) (auto simp: serial_ready_def inb_def intro: exI [of _ "Suc (port_reads io)"])
next
  case (Suc k)
  let ?io = "io\<lparr>port_reads := Suc (port_reads io)\<rparr>"
  have "\<exists>n. serial_wait ?io = Some (?io\<lparr>port_reads := n\<rparr>)" by (rule Suc.IH) (use Suc.prems in simp)
  then show ?case
    by (subst serial_wait.simps)
      (cases "port_dev io (port_reads io) (COM1_BASE + UART_LSR) AND LSR_TX_EMPTY = 0",
       auto simp: serial_ready_def inb_def intro: exI [of _ "Suc (port_reads io)"])
qed

lemma serial_send_ok:
  assumes "serial_responsive io"
  shows "\<exists>n. serial_send c io = Some (io\<lparr>port_reads := n, port_writes := port_writes io @ [(COM1_BASE, char_u8 c)]\<rparr>)"
proof -
  obtain k where k: "port_reads io \<le> k" "port_dev io k (COM1_BASE + UART_LSR) AND LSR_TX_EMPTY \<noteq> 0"
    using assms unfolding serial_responsive_def by blast
  then have "port_dev io (port_reads io + (k - port_reads io)) (COM1_BASE + UART_LSR) AND LSR_TX_EMPTY \<noteq> 0" by simp
  from serial_wait_returns [OF this] show ?thesis by (auto simp: serial_send_def outb_def UART_DATA_def)
qed

lemma serial_putchar_ok:
  assumes "serial_responsive io"
  shows "\<exists>n. serial_putchar c io = Some (io\<lparr>port_reads := n,
    port_writes := port_writes io @ map (\<lambda>c. (COM1_BASE, char_u8 c)) (crlf [c])\<rparr>)"
proof (cases "c = CHR 0x0A")
  case True
  obtain n where n: "serial_send (CHR 0x0D) io =
      Some (io\<lparr>port_reads := n, port_writes := port_writes io @ [(COM1_BASE, char_u8 (CHR 0x0D))]\<rparr>)" (is "_ = Some ?io1")
    using serial_send_ok [OF assms] by blast
  have "serial_responsive ?io1" using assms by (simp add: serial_responsive_def)
  from serial_send_ok [OF this, of "CHR 0x0A"] n True show ?thesis by (auto simp: serial_putchar_def)
next
  case False
  then show ?thesis using serial_send_ok [OF assms, of c] by (auto simp: serial_putchar_def)
qed

lemma crlf_append: "crlf (s @ t) = crlf s @ crlf t"
  by (induction s) auto

lemma kputs_ok:
  assumes "serial_responsive (con_io k)"
  shows "\<exists>n. kputs s k = Some (k\<lparr>con_vga := fold vga_putchar s (con_vga k),
    con_io := (con_io k)\<lparr>port_reads := n, port_writes := port_writes (con_io k) @ map (\<lambda>c. (COM1_BASE, char_u8 c)) (crlf s)\<rparr>\<rparr>)"
  using assms
proof (induction s arbitrary: k)
  case Nil
  then show ?case by (intro exI [of _ "port_reads (con_io k)"]) simp
next
  case (Cons c s)
  from serial_putchar_ok [OF Cons.prems, of c] obtain n where
    n: "serial_putchar c (con_io k) = Some ((con_io k)\<lparr>port_reads := n,
      port_writes := port_writes (con_io k) @ map (\<lambda>c. (COM1_BASE, char_u8 c)) (crlf [c])\<rparr>)" (is "_ = Some ?io1") by blast
  let ?k1 = "k\<lparr>con_vga := vga_putchar c (con_vga k), con_io := ?io1\<rparr>"
  have r: "serial_responsive (con_io ?k1)" using Cons.prems by (simp add: serial_responsive_def)
  from Cons.IH [OF r] n show ?case
    by (simp add: kputchar_def)
qed

section \<open>Numbers\<close>

text \<open>Reading a number back: the value of a digit character, of a digit string, and of a signed one.\<close>

definition digit_value :: "char \<Rightarrow> nat" where
  "digit_value c = (if c \<le> CHR ''9'' then of_char c - 48 else if CHR ''a'' \<le> c then of_char c - 87 else of_char c - 55)"

definition number_value :: "nat \<Rightarrow> string \<Rightarrow> nat" where
  "number_value base s = foldl (\<lambda>acc c. acc * base + digit_value c) 0 s"

definition signed_value :: "string \<Rightarrow> int" where
  "signed_value s = (if s \<noteq> [] \<and> hd s = CHR ''-'' then - int (number_value 10 (tl s)) else int (number_value 10 s))"

lemma digit_value_char:
  assumes "d < 16"
  shows "digit_value (digit_char upper d) = unat d" and "digit_char upper d \<noteq> CHR ''-''"
proof -
  have "unat d < 16" using assms by (simp add: word_less_nat_alt)
  then have "unat d \<in> {0, 1, 2, 3, 4, 5, 6, 7, 8, 9, 10, 11, 12, 13, 14, 15}"
    by (simp only: insert_iff empty_iff) presburger
  then show "digit_value (digit_char upper d) = unat d" "digit_char upper d \<noteq> CHR ''-''"
    by (elim insertE emptyE; cases upper; simp add: digit_char_def digit_value_def less_eq_char_def)+
qed

lemma digit_bound:
  fixes n base :: u64
  assumes "1 < base" and "base \<le> 16"
  shows "n mod base < 16"
proof -
  have "unat n mod unat base < unat base" using assms(1) by (intro mod_less_divisor) (simp add: word_less_nat_alt)
  also have "\<dots> \<le> 16" using assms(2) by (simp add: word_le_nat_alt)
  finally show ?thesis by (simp add: word_less_nat_alt unat_mod_distrib)
qed

lemma number_value_append: "number_value b (s @ [c]) = number_value b s * b + digit_value c"
  by (simp add: number_value_def)

lemma uint_digits_value:
  assumes "1 < base" and "base \<le> 16"
  shows "number_value (unat base) (rev (uint_digits n base upper)) = unat n"
  using assms
proof (induction n base upper rule: uint_digits.induct)
  case (1 n base upper)
  show ?case
  proof (cases "n > 0")
    case True
    have d: "n mod base < 16" using digit_bound [OF 1(2,3)] .
    have "number_value (unat base) (rev (uint_digits n base upper)) = unat (n div base) * unat base + unat (n mod base)"
      using True 1 digit_value_char(1) [OF d] by (subst uint_digits.simps) (simp add: number_value_append)
    then show ?thesis by (simp add: unat_div_distrib unat_mod_distrib)
  next
    case False
    then show ?thesis by (subst uint_digits.simps) (simp add: number_value_def word_gt_0)
  qed
qed

lemma uint_digits_length:
  assumes "1 < base" and "unat n < 2 ^ k"
  shows "length (uint_digits n base upper) \<le> k"
  using assms
proof (induction k arbitrary: n)
  case 0
  then show ?case by (subst uint_digits.simps) (simp add: unat_eq_zero)
next
  case (Suc k)
  have "2 \<le> unat base" using Suc.prems(1) by (simp add: word_less_nat_alt)
  then have "unat n div unat base \<le> unat n div 2" by (rule div_le_mono2 [rotated]) simp
  then have "unat (n div base) < 2 ^ k" using Suc.prems(2) by (simp add: unat_div_distrib)
  from Suc.IH [OF Suc.prems(1) this] show ?case by (subst uint_digits.simps) simp
qed

lemma number_value_pad: "number_value b (replicate n (CHR ''0'') @ s) = number_value b s"
proof (induction n)
  case (Suc n)
  then show ?case by (simp add: number_value_def digit_value_def less_eq_char_def)
qed simp

lemma uint_digits_no_minus: "base \<le> 16 \<Longrightarrow> CHR ''-'' \<notin> set (uint_digits n base upper)"
proof (induction n base upper rule: uint_digits.induct)
  case (1 n base upper)
  show ?case
  proof (cases "n > 0 \<and> base > 1")
    case True
    then have d: "n mod base < 16" using digit_bound 1(2) by blast
    then have "CHR ''-'' \<noteq> digit_char upper (n mod base)" using digit_value_char(2) by metis
    then show ?thesis using 1 True by (subst uint_digits.simps) simp
  next
    case False
    then show ?thesis by (subst uint_digits.simps) auto
  qed
qed

lemma print_uint_value:
  assumes "1 < base" and "base \<le> 16" and "width = 0 \<or> pad = CHR ''0''"
  shows "number_value (unat base) (print_uint n base upper width pad) = unat n"
proof -
  have "number_value (unat base) (rev (if n = 0 then ''0'' else uint_digits n base upper)) = unat n"
    using uint_digits_value [OF assms(1,2)] by (simp add: number_value_def digit_value_def less_eq_char_def)
  then show ?thesis using assms(3) by (auto simp: print_uint_def Let_def number_value_pad)
qed

lemma print_uint_no_minus: "base \<le> 16 \<Longrightarrow> CHR ''-'' \<notin> set (print_uint n base upper 0 pad)"
  using uint_digits_no_minus by (simp add: print_uint_def Let_def)


lemma print_int_value: "signed_value (print_int n 0 pad) = sint n"
proof (cases "n <s 0")
  case True
  then have neg: "sint n < 0" by (simp add: word_sless_alt)
  have m: "- (n + 1) + 1 = - n" by simp
  have "int (unat (- n)) = - sint n"
  proof -
    have "uint n = sint n mod 2 ^ 64" by (simp add: uint_sint take_bit_eq_mod)
    then have "int (unat (- n)) = (- sint n) mod 2 ^ 64"
      by (simp add: uint_word_ariths(4) mod_minus_eq flip: uint_nat)
    also have "\<dots> = - sint n"
      using neg sint_ge [of n] by (intro mod_pos_pos_trivial) simp_all
    finally show ?thesis .
  qed
  then show ?thesis
    using True print_uint_value [of 10 0 pad "- n" False] by (simp add: print_int_def signed_value_def m)
next
  case False
  then have pos: "0 \<le> sint n" by (simp add: word_sless_alt)
  have "print_uint n 10 False 0 pad = [] \<or> hd (print_uint n 10 False 0 pad) \<noteq> CHR ''-''"
    using print_uint_no_minus [of 10 n False pad] hd_in_set [of "print_uint n 10 False 0 pad"] by fastforce
  moreover have "int (unat n) = sint n"
    using pos sint_lt [of n] by (simp add: uint_sint take_bit_eq_mod flip: uint_nat)
  ultimately show ?thesis
    using False print_uint_value [of 10 0 pad n False] by (auto simp: print_int_def signed_value_def)
qed

section \<open>Properties\<close>

definition vga_boot :: vga_state where
  "vga_boot = \<lparr>vga_buf = (\<lambda>_. 0), vga_row = 0, vga_col = 0, vga_color = 0x07\<rparr>"

definition ports_ready :: ports where
  "ports_ready = \<lparr>port_dev = (\<lambda>_ _. 0xFF), port_reads = 0, port_writes = []\<rparr>"

text \<open>C35: whatever characters are printed, the cursor stays inside the 80 by 25 screen and no memory
  outside the screen's cells is written.\<close>

theorem vga_puts_safe:
  assumes "vga_inv v"
  shows "vga_inv (vga_puts s v) \<and> (\<forall>i. \<not> on_screen i \<longrightarrow> vga_buf (vga_puts s v) i = vga_buf v i)"
  using assms
proof (induction s arbitrary: v)
  case Nil
  then show ?case by (simp add: vga_puts_def)
next
  case (Cons c s)
  from vga_putchar_ok [OF Cons.prems, of c] Cons.IH [of "vga_putchar c v"] show ?case
    by (simp add: vga_puts_def)
qed

theorem vga_puts_safe_witness:
  "vga_inv (vga_puts ''lithium'' vga_boot) \<and> vga_buf (vga_puts ''lithium'' vga_boot) 2000 = 0"
proof -
  have "vga_inv vga_boot" by (simp add: vga_inv_def vga_boot_def vga_dims)
  from vga_puts_safe [OF this, of "''lithium''"] show ?thesis
    by (simp add: on_screen_def vga_dims) (simp add: vga_boot_def)
qed

text \<open>C36: a newline on the last row scrolls: every row shows what the row below it showed, the last row
  is blank in the current colour, and the cursor stands at its start. On any other row only the
  cursor moves.\<close>

theorem vga_newline_scroll:
  assumes "vga_inv v" and "0 \<le> y" and "y < VGA_HEIGHT" and "0 \<le> x" and "x < VGA_WIDTH"
  shows "let v' = vga_putchar (CHR 0x0A) v in
    if vga_row v = VGA_HEIGHT - 1 then
      vga_row v' = vga_row v \<and> vga_col v' = 0 \<and>
      vga_cell v' y x = (if y = VGA_HEIGHT - 1 then vga_entry (CHR '' '') (vga_color v) else vga_cell v (y + 1) x)
    else vga_row v' = vga_row v + 1 \<and> vga_col v' = 0 \<and> vga_cell v' y x = vga_cell v y x"
proof (cases "vga_row v = VGA_HEIGHT - 1")
  case True
  let ?v = "v\<lparr>vga_col := 0, vga_row := vga_row v + 1\<rparr>"
  have nl: "vga_putchar (CHR 0x0A) v = vga_scroll ?v"
    using True by (simp add: vga_putchar_def vga_next_row_def Let_def)
  have cells: "vga_cell (vga_scroll ?v) y x =
      (if y = VGA_HEIGHT - 1 then vga_entry (CHR '' '') (vga_color v) else vga_cell v (y + 1) x)"
  proof (cases "y = VGA_HEIGHT - 1")
    case last: True
    then show ?thesis using assms by (simp add: vga_scroll_eq vga_cell_def vga_dims)
  next
    case False
    then have "y \<le> 23" using assms(3) by (simp add: vga_dims)
    then show ?thesis using assms by (simp add: vga_scroll_eq vga_cell_def vga_dims algebra_simps)
  qed
  show ?thesis unfolding Let_def nl using True cells by (simp add: vga_scroll_eq)
next
  case False
  then have "vga_row v + 1 < VGA_HEIGHT" using assms(1) by (simp add: vga_inv_def)
  then show ?thesis using False
    by (simp add: vga_putchar_def vga_next_row_def Let_def vga_cell_def)
qed

theorem vga_newline_scroll_witness:
  "vga_cell (vga_putchar (CHR 0x0A) (vga_boot\<lparr>vga_row := 24\<rparr>)) 24 5 = vga_entry (CHR '' '') 0x07"
  using vga_newline_scroll [of "vga_boot\<lparr>vga_row := 24\<rparr>" 24 5]
  by (simp add: vga_inv_def vga_boot_def vga_dims Let_def)

text \<open>C37: kprintf returns when the serial port keeps becoming ready and the format has a defined output. The
  formatted text then went to the screen, and to the port with every newline as CR LF, in order and
  without loss.\<close>

theorem kprintf_output:
  assumes "serial_responsive (con_io k)" and "kformat fmt ap = Some out"
  shows "\<exists>k'. kprintf fmt ap k = Some k' \<and> con_vga k' = vga_puts out (con_vga k) \<and>
    port_writes (con_io k') = port_writes (con_io k) @ map (\<lambda>c. (COM1_BASE, char_u8 c)) (crlf out)"
proof -
  from kputs_ok [OF assms(1), of out] obtain n where
    "kputs out k = Some (k\<lparr>con_vga := fold vga_putchar out (con_vga k),
      con_io := (con_io k)\<lparr>port_reads := n, port_writes := port_writes (con_io k) @ map (\<lambda>c. (COM1_BASE, char_u8 c)) (crlf out)\<rparr>\<rparr>)"
    by blast
  then show ?thesis using assms(2) by (simp add: kprintf_def vga_puts_def)
qed

theorem kprintf_output_witness:
  "\<exists>k'. kprintf [CHR 0x0A, NUL] [] \<lparr>con_vga = vga_boot, con_io = ports_ready\<rparr> = Some k' \<and>
     port_writes (con_io k') = [(COM1_BASE, 0x0D), (COM1_BASE, 0x0A)]"
proof -
  let ?k = "\<lparr>con_vga = vga_boot, con_io = ports_ready\<rparr>"
  have "serial_responsive (con_io ?k)" by (auto simp: serial_responsive_def ports_ready_def LSR_TX_EMPTY_def)
  moreover have "kformat [CHR 0x0A, NUL] [] = Some [CHR 0x0A]" by simp
  ultimately show ?thesis
    using kprintf_output [of ?k "[CHR 0x0A, NUL]" "[]" "[CHR 0x0A]"] by (auto simp: char_u8_def ports_ready_def)
qed

text \<open>C38: the number conversions are exact. A decimal or hexadecimal number of any 64-bit value reads
  back as that value, at any width when it is padded with zeros; its digits fit the 64-byte buffer;
  a signed number reads back as its two's complement value, the most negative one included.\<close>

theorem print_number_roundtrip:
  assumes "base = 10 \<or> base = 16"
  shows "number_value (unat base) (print_uint n base upper width (CHR ''0'')) = unat n \<and>
    length (uint_digits n base upper) \<le> 64 \<and> signed_value (print_int n 0 pad) = sint n"
proof -
  have b: "1 < base" "base \<le> 16" using assms by auto
  have "unat n < 2 ^ 64" using unsigned_less [of n] by simp
  from uint_digits_length [OF b(1) this] print_uint_value [OF b] print_int_value show ?thesis by simp
qed

theorem print_number_roundtrip_witness:
  "number_value 10 (print_uint 0xFFFFFFFFFFFFFFFF 10 False 24 (CHR ''0'')) = 18446744073709551615"
  using print_number_roundtrip [of 10 "0xFFFFFFFFFFFFFFFF" False 24 "CHR '' ''"] by simp

text \<open>C39: a percent sign that only a width or an \<open>l\<close> separates from the terminator makes kprintf run past
  the end of the format. After plain text it prints a percent sign and the terminator itself, and then
  takes the memory behind the string for more format, with the same arguments.\<close>

theorem kprintf_trailing_percent:
  assumes "CHR ''%'' \<notin> set pre" and "NUL \<notin> set pre" and "kflags (suf @ NUL # behind) = Some (pad, width, lng, NUL # behind)"
  shows "kformat (pre @ CHR ''%'' # suf @ NUL # behind) ap =
    map_option (\<lambda>out. pre @ [CHR ''%'', NUL] @ out) (kformat behind ap)"
  using assms(1,2)
proof (induction pre)
  case Nil
  have "kconv NUL pad width lng ap = Some ([CHR ''%'', NUL], ap)" by (simp add: kconv_def)
  then show ?case using assms(3) by (cases "kformat behind ap") simp_all
next
  case (Cons c pre)
  then show ?case by (cases "kformat behind ap") auto
qed

theorem kprintf_trailing_percent_witness:
  "kformat (''50%'' @ NUL # ''secret'' @ [NUL]) [] = Some (''50%'' @ NUL # ''secret'')"
proof -
  have "kflags ([] @ NUL # ''secret'' @ [NUL]) = Some (CHR '' '', 0, False, NUL # ''secret'' @ [NUL])"
    by (simp add: kflags_def less_eq_char_def)
  moreover have "kformat (''secret'' @ [NUL]) [] = Some ''secret''" by simp
  ultimately show ?thesis
    using kprintf_trailing_percent [of "''50''" "[]" "''secret'' @ [NUL]" "CHR '' ''" 0 False "[]"]
    by simp
qed

end
