(* ===== verification/Vfs.thy ===== *)
theory Vfs
  imports Prelude
begin

text \<open>
  The virtual file system, kernel/fs/vfs.c: vnodes in a tree, the file descriptor tables over it, the
  tmpfs that keeps file contents in heap buffers, and the devices. vnodes are never freed, so a vnode
  pointer is the number of the vnode in the order of creation, and NULL is \<open>None\<close>. C strings are
  lists of their characters. Whether the heap has room, and what a new block holds, is a sequence of
  answers in the state; how long the block is follows kernel/mm/heap.c. An operation whose outer result is \<open>None\<close> has left
  the behaviour C defines (a NULL or out-of-bounds access) or does not return.
\<close>

section \<open>Types\<close>

definition VFS_MAX_FDS :: nat where "VFS_MAX_FDS = 32"
definition VFS_MAX_PATH :: nat where "VFS_MAX_PATH = 256"
definition VFS_NAME_MAX :: nat where "VFS_NAME_MAX = 64"

datatype vnode_type = VFS_FILE | VFS_DIR | VFS_DEVICE | VFS_SYMLINK

text \<open>The operation tables of the kernel. None of them has a lookup or a readdir operation.\<close>

datatype vfs_ops = tmpfs_file_ops | tmpfs_dir_ops | dev_null_ops | dev_tty_ops

record tmpfs_file =
  tf_data :: "u8 list"
  tf_size :: u64
  tf_cap :: u64

record vnode =
  vn_name :: string
  vn_type :: vnode_type
  vn_size :: u64
  vn_data :: "tmpfs_file option"
  vn_ops :: "vfs_ops option"
  vn_parent :: "nat option"
  vn_children :: "nat option"
  vn_next_sib :: "nat option"

record file_t =
  fd_vnode :: "nat option"
  fd_offset :: u64
  fd_valid :: bool

record vfs_state =
  vfs_nodes :: "vnode list"
  vfs_root :: "nat option"
  kernel_fd_table :: "file_t list"
  vfs_heap :: "nat \<Rightarrow> (nat \<Rightarrow> u8) option"
  vfs_calls :: nat

text \<open>The conversion \<open>(int)n\<close> of a size.\<close>

definition to_int :: "u64 \<Rightarrow> int" where
  "to_int n = sint (ucast n :: u32)"

text \<open>
  The length of the block kmalloc returns for a size: an object of the smallest fitting class, or whole
  pages without the header of 16 bytes. The class is looked up for the low 32 bits of the size only.
\<close>

definition slab_obj_sizes :: "u32 list" where "slab_obj_sizes = [16, 32, 64, 128, 256, 512, 1024]"

definition size_to_class :: "u32 \<Rightarrow> nat option" where
  "size_to_class sz = find (\<lambda>i. sz \<le> slab_obj_sizes ! i) [0..<7]"

definition kmalloc_room :: "u64 \<Rightarrow> u64" where
  "kmalloc_room sz =
     (let sz = (if sz < 16 then 16 else sz) in
      case size_to_class (ucast sz) of
        Some cls \<Rightarrow> ucast (slab_obj_sizes ! cls)
      | None \<Rightarrow> ALIGN_UP (sz + 16) 4096 div 4096 * 4096 - 16)"

text \<open>The answer to the next request for memory: the bytes of the new block, if there is one.\<close>

definition kalloc :: "u64 \<Rightarrow> vfs_state \<Rightarrow> u8 list option \<times> vfs_state" where
  "kalloc sz s =
     (map_option (\<lambda>g. map g [0..<unat (kmalloc_room sz)]) (vfs_heap s (vfs_calls s)), s\<lparr>vfs_calls := Suc (vfs_calls s)\<rparr>)"

text \<open>The sizes of the two structures that are allocated.\<close>

definition VNODE_SIZE :: u64 where "VNODE_SIZE = 120"
definition TMPFS_FILE_SIZE :: u64 where "TMPFS_FILE_SIZE = 24"

definition set_node :: "nat \<Rightarrow> vnode \<Rightarrow> vfs_state \<Rightarrow> vfs_state" where
  "set_node i vn s = s\<lparr>vfs_nodes := (vfs_nodes s)[i := vn]\<rparr>"

section \<open>vnode helpers\<close>

definition vnode_create :: "nat option \<Rightarrow> string \<Rightarrow> vnode_type \<Rightarrow> vfs_ops option \<Rightarrow> vfs_state \<Rightarrow> nat option \<times> vfs_state" where
  "vnode_create parent name type ops s =
     (case kalloc VNODE_SIZE s of
        (None, s) \<Rightarrow> (None, s)
      | (Some _, s) \<Rightarrow>
          (let vn = length (vfs_nodes s);
               node = \<lparr>vn_name = take (VFS_NAME_MAX - 1) name, vn_type = type, vn_size = 0, vn_data = None,
                 vn_ops = ops, vn_parent = parent, vn_children = None, vn_next_sib = None\<rparr>
           in case parent of
                None \<Rightarrow> (Some vn, s\<lparr>vfs_nodes := vfs_nodes s @ [node]\<rparr>)
              | Some p \<Rightarrow>
                  (let node = node\<lparr>vn_next_sib := vn_children (vfs_nodes s ! p)\<rparr>;
                       s = set_node p ((vfs_nodes s ! p)\<lparr>vn_children := Some vn\<rparr>) s
                   in (Some vn, s\<lparr>vfs_nodes := vfs_nodes s @ [node]\<rparr>))))"

section \<open>Path resolution\<close>

text \<open>The inner loop of vfs_lookup, over the list of siblings.\<close>

partial_function (option) find_child :: "vnode list \<Rightarrow> nat option \<Rightarrow> string \<Rightarrow> nat option option" where
  "find_child nodes child tok =
     (case child of
        None \<Rightarrow> Some None
      | Some c \<Rightarrow> if vn_name (nodes ! c) = tok then Some (Some c)
                  else find_child nodes (vn_next_sib (nodes ! c)) tok)"

text \<open>The outer loop: \<open>tok\<close> is the rest of the path, up to the next slash one name.\<close>

function lookup_tokens :: "vnode list \<Rightarrow> nat \<Rightarrow> string \<Rightarrow> nat option option" where
  "lookup_tokens nodes cur tok =
     (if tok = [] then Some (Some cur)
      else do {
        let (name, slash) = (takeWhile (\<lambda>c. c \<noteq> CHR ''/'') tok, dropWhile (\<lambda>c. c \<noteq> CHR ''/'') tok);
        child \<leftarrow> find_child nodes (vn_children (nodes ! cur)) name;
        case child of
          None \<Rightarrow> Some None
        | Some c \<Rightarrow> lookup_tokens nodes c (drop 1 slash)
      })"
  by pat_completeness auto
termination
proof (relation "measure (\<lambda>(nodes, cur, tok). length tok)")
  fix nodes :: "vnode list" and cur c :: nat and tok name slash :: string and x
  assume tok: "tok \<noteq> []" and x: "x = (takeWhile (\<lambda>c. c \<noteq> CHR ''/'') tok, dropWhile (\<lambda>c. c \<noteq> CHR ''/'') tok)" "(name, slash) = x"
  have "length (dropWhile (\<lambda>c. c \<noteq> CHR ''/'') tok) \<le> length tok" by (rule length_dropWhile_le)
  then have "length (drop 1 slash) < length tok" using tok x by (cases tok) auto
  then show "((nodes, c, drop 1 slash), nodes, cur, tok) \<in> measure (\<lambda>(nodes, cur, tok). length tok)" by simp
qed simp

text \<open>The path is copied into \<open>buf[VFS_MAX_PATH]\<close>, where a longer one loses its terminator.\<close>

definition vfs_lookup :: "string \<Rightarrow> vfs_state \<Rightarrow> nat option option" where
  "vfs_lookup path s =
     (if path = [] \<or> hd path \<noteq> CHR ''/'' then Some None
      else if tl path = [] then Some (vfs_root s)
      else if VFS_MAX_PATH - 1 \<le> length (tl path) then None
      else do {
        cur \<leftarrow> vfs_root s;
        lookup_tokens (vfs_nodes s) cur (tl path)
      })"

section \<open>tmpfs and device operations\<close>

definition tmpfs_read :: "vnode \<Rightarrow> u64 \<Rightarrow> u64 \<Rightarrow> (int \<times> u8 list) option" where
  "tmpfs_read vn count off =
     (case vn_data vn of
        None \<Rightarrow> Some (0, [])
      | Some tf \<Rightarrow>
          if tf_size tf \<le> off then Some (0, [])
          else
            (let avail = tf_size tf - off;
                 n = (if count < avail then count else avail)
             in if unat off + unat n \<le> length (tf_data tf)
                then Some (to_int n, take (unat n) (drop (unat off) (tf_data tf)))
                else None))"

text \<open>
  krealloc of a block, whose length it reads from the header of the block. A block that is long enough
  stays; otherwise all its bytes are copied to a new one, which has to have room for them.
\<close>

definition krealloc :: "u8 list \<Rightarrow> u64 \<Rightarrow> vfs_state \<Rightarrow> (u8 list option \<times> vfs_state) option" where
  "krealloc old new_size s =
     (if old \<noteq> [] \<and> unat new_size \<le> length old then Some (Some old, s)
      else case kalloc new_size s of
        (None, s) \<Rightarrow> Some (None, s)
      | (Some np, s) \<Rightarrow>
          if length old \<le> length np then Some (Some (old @ drop (length old) np), s) else None)"

text \<open>memcpy into a buffer that has room.\<close>

definition overwrite :: "'a list \<Rightarrow> nat \<Rightarrow> 'a list \<Rightarrow> 'a list" where
  "overwrite xs off ys = take off xs @ ys @ drop (off + length ys) xs"

text \<open>The private data of the vnode, made on the first write, and the buffer, grown on demand.\<close>

definition tmpfs_data :: "vnode \<Rightarrow> vfs_state \<Rightarrow> tmpfs_file option \<times> vfs_state" where
  "tmpfs_data vn s =
     (case vn_data vn of
        Some tf \<Rightarrow> (Some tf, s)
      | None \<Rightarrow> (case kalloc TMPFS_FILE_SIZE s of
            (None, s) \<Rightarrow> (None, s)
          | (Some _, s) \<Rightarrow> (Some \<lparr>tf_data = [], tf_size = 0, tf_cap = 0\<rparr>, s)))"

definition tmpfs_reserve :: "tmpfs_file \<Rightarrow> u64 \<Rightarrow> vfs_state \<Rightarrow> (tmpfs_file option \<times> vfs_state) option" where
  "tmpfs_reserve tf need s =
     (if tf_cap tf < need then do {
        let new_cap = need * 2 + 64;
        (nb, s) \<leftarrow> krealloc (tf_data tf) new_cap s;
        case nb of
          None \<Rightarrow> Some (None, s)
        | Some nb \<Rightarrow> Some (Some (tf\<lparr>tf_data := nb, tf_cap := new_cap\<rparr>), s)
      }
      else Some (Some tf, s))"

definition tmpfs_write :: "nat \<Rightarrow> u8 list \<Rightarrow> u64 \<Rightarrow> vfs_state \<Rightarrow> (int \<times> vfs_state) option" where
  "tmpfs_write i buf off s =
     (let vn = vfs_nodes s ! i; count = of_nat (length buf) in
      case tmpfs_data vn s of
        (None, s) \<Rightarrow> Some (-1, s)
      | (Some tf, s) \<Rightarrow>
          (let vn = vn\<lparr>vn_data := Some tf\<rparr>; s = set_node i vn s in
           case tmpfs_reserve tf (off + count) s of
             None \<Rightarrow> None
           | Some (None, s) \<Rightarrow> Some (-1, s)
           | Some (Some tf, s) \<Rightarrow>
               if unat off + length buf \<le> length (tf_data tf) then
                 (let tf = tf\<lparr>tf_data := overwrite (tf_data tf) (unat off) buf\<rparr>;
                      tf = (if tf_size tf < off + count then tf\<lparr>tf_size := off + count\<rparr> else tf)
                  in Some (to_int count, set_node i (vn\<lparr>vn_data := Some tf, vn_size := tf_size tf\<rparr>) s))
               else None))"

definition dev_null_read :: "int \<times> u8 list" where
  "dev_null_read = (0, [])"

definition dev_null_write :: "u64 \<Rightarrow> int" where
  "dev_null_write c = to_int c"

text \<open>\<open>vn->ops && vn->ops->read\<close>, and the call.\<close>

definition has_rw :: "vnode \<Rightarrow> bool" where
  "has_rw vn \<longleftrightarrow> vn_ops vn = Some tmpfs_file_ops \<or> vn_ops vn = Some dev_null_ops"

definition ops_read :: "vnode \<Rightarrow> u64 \<Rightarrow> u64 \<Rightarrow> (int \<times> u8 list) option" where
  "ops_read vn count off =
     (if vn_ops vn = Some tmpfs_file_ops then tmpfs_read vn count off else Some dev_null_read)"

definition ops_write :: "nat \<Rightarrow> u8 list \<Rightarrow> u64 \<Rightarrow> vfs_state \<Rightarrow> (int \<times> vfs_state) option" where
  "ops_write i buf off s =
     (if vn_ops (vfs_nodes s ! i) = Some tmpfs_file_ops then tmpfs_write i buf off s
      else Some (dev_null_write (of_nat (length buf)), s))"

section \<open>File descriptor tables\<close>

text \<open>The loop of vfs_open_in from slot \<open>i\<close> on.\<close>

function free_fd :: "file_t list \<Rightarrow> nat \<Rightarrow> nat option" where
  "free_fd files i =
     (if i < VFS_MAX_FDS then if \<not> fd_valid (files ! i) then Some i else free_fd files (Suc i)
      else None)"
  by pat_completeness auto
termination by (relation "measure (\<lambda>(files, i). VFS_MAX_FDS - i)") auto

definition vfs_open_in :: "file_t list \<Rightarrow> string \<Rightarrow> vfs_state \<Rightarrow> (int \<times> file_t list) option" where
  "vfs_open_in files path s = do {
     vn \<leftarrow> vfs_lookup path s;
     case vn of
       None \<Rightarrow> Some (-1, files)
     | Some _ \<Rightarrow>
         (case free_fd files 3 of
            None \<Rightarrow> Some (-1, files)
          | Some i \<Rightarrow> Some (int i, files[i := \<lparr>fd_vnode = vn, fd_offset = 0, fd_valid = True\<rparr>]))
   }"

definition vfs_close_in :: "file_t list \<Rightarrow> int \<Rightarrow> file_t list" where
  "vfs_close_in files fd =
     (if 0 \<le> fd \<and> fd < int VFS_MAX_FDS then files[nat fd := (files ! nat fd)\<lparr>fd_valid := False\<rparr>] else files)"

definition fd_ok :: "file_t list \<Rightarrow> int \<Rightarrow> bool" where
  "fd_ok files fd \<longleftrightarrow> 0 \<le> fd \<and> fd < int VFS_MAX_FDS \<and> fd_valid (files ! nat fd)"

text \<open>\<open>if (r > 0) f->offset += (size_t)r;\<close>\<close>

definition fd_advance :: "file_t list \<Rightarrow> int \<Rightarrow> int \<Rightarrow> file_t list" where
  "fd_advance files fd r =
     (if 0 < r then files[nat fd := (files ! nat fd)\<lparr>fd_offset := fd_offset (files ! nat fd) + of_int r\<rparr>] else files)"

definition vfs_read_in :: "file_t list \<Rightarrow> int \<Rightarrow> u64 \<Rightarrow> vfs_state \<Rightarrow> (int \<times> u8 list \<times> file_t list) option" where
  "vfs_read_in files fd count s =
     (if \<not> fd_ok files fd then Some (-1, [], files)
      else do {
        let f = files ! nat fd;
        i \<leftarrow> fd_vnode f;
        let vn = vfs_nodes s ! i;
        if \<not> has_rw vn then Some (-1, [], files)
        else do {
          (r, bytes) \<leftarrow> ops_read vn count (fd_offset f);
          Some (r, bytes, fd_advance files fd r)
        }
      })"

definition vfs_write_in :: "file_t list \<Rightarrow> int \<Rightarrow> u8 list \<Rightarrow> vfs_state \<Rightarrow> (int \<times> file_t list \<times> vfs_state) option" where
  "vfs_write_in files fd buf s =
     (if \<not> fd_ok files fd then Some (-1, files, s)
      else do {
        let f = files ! nat fd;
        i \<leftarrow> fd_vnode f;
        if \<not> has_rw (vfs_nodes s ! i) then Some (-1, files, s)
        else do {
          (r, s) \<leftarrow> ops_write i buf (fd_offset f) s;
          Some (r, fd_advance files fd r, s)
        }
      })"

definition vfs_open :: "string \<Rightarrow> vfs_state \<Rightarrow> (int \<times> vfs_state) option" where
  "vfs_open path s = do {
     (r, files) \<leftarrow> vfs_open_in (kernel_fd_table s) path s;
     Some (r, s\<lparr>kernel_fd_table := files\<rparr>)
   }"

definition vfs_close :: "int \<Rightarrow> vfs_state \<Rightarrow> vfs_state" where
  "vfs_close fd s = s\<lparr>kernel_fd_table := vfs_close_in (kernel_fd_table s) fd\<rparr>"

definition vfs_read :: "int \<Rightarrow> u64 \<Rightarrow> vfs_state \<Rightarrow> (int \<times> u8 list \<times> vfs_state) option" where
  "vfs_read fd count s = do {
     (r, bytes, files) \<leftarrow> vfs_read_in (kernel_fd_table s) fd count s;
     Some (r, bytes, s\<lparr>kernel_fd_table := files\<rparr>)
   }"

definition vfs_write :: "int \<Rightarrow> u8 list \<Rightarrow> vfs_state \<Rightarrow> (int \<times> vfs_state) option" where
  "vfs_write fd buf s = do {
     (r, files, s) \<leftarrow> vfs_write_in (kernel_fd_table s) fd buf s;
     Some (r, s\<lparr>kernel_fd_table := files\<rparr>)
   }"

text \<open>The loop over the children of vfs_readdir, from the \<open>i\<close>-th on.\<close>

partial_function (option) nth_child :: "vnode list \<Rightarrow> nat option \<Rightarrow> u32 \<Rightarrow> u32 \<Rightarrow> nat option option" where
  "nth_child nodes c i idx =
     (case c of
        None \<Rightarrow> Some None
      | Some k \<Rightarrow> if i = idx then Some (Some k) else nth_child nodes (vn_next_sib (nodes ! k)) (i + 1) idx)"

definition vfs_readdir :: "string \<Rightarrow> u32 \<Rightarrow> vfs_state \<Rightarrow> (int \<times> (string \<times> vnode_type) option) option" where
  "vfs_readdir path idx s = do {
     vn \<leftarrow> vfs_lookup path s;
     case vn of
       None \<Rightarrow> Some (-1, None)
     | Some d \<Rightarrow>
         if vn_type (vfs_nodes s ! d) \<noteq> VFS_DIR then Some (-1, None)
         else do {
           c \<leftarrow> nth_child (vfs_nodes s) (vn_children (vfs_nodes s ! d)) 0 idx;
           case c of
             None \<Rightarrow> Some (-1, None)
           | Some k \<Rightarrow> Some (0, Some (take (VFS_NAME_MAX - 1) (vn_name (vfs_nodes s ! k)), vn_type (vfs_nodes s ! k)))
         }
   }"

section \<open>Creating and reading files by path\<close>

text \<open>The parent directory and the last name of a path, unless a buffer of the caller is too small.\<close>

definition split_parent_path :: "string \<Rightarrow> nat \<Rightarrow> nat \<Rightarrow> (string \<times> string) option" where
  "split_parent_path path parent_size name_size =
     (if path = [] \<or> hd path \<noteq> CHR ''/'' \<or> tl path = [] \<or> parent_size = 0 \<or> name_size = 0 then None
      else
        (let name = rev (takeWhile (\<lambda>c. c \<noteq> CHR ''/'') (rev path));
             parent_len = length path - length name - 1
         in
         if name = [] \<or> name_size \<le> length name then None
         else if parent_len = 0 then if parent_size < 2 then None else Some (''/'', name)
         else if parent_size \<le> parent_len then None
         else Some (take parent_len path, name)))"

definition vfs_mkdir :: "string \<Rightarrow> vfs_state \<Rightarrow> (int \<times> vfs_state) option" where
  "vfs_mkdir path s = do {
     existing \<leftarrow> vfs_lookup path s;
     case existing of
       Some e \<Rightarrow> Some (if vn_type (vfs_nodes s ! e) = VFS_DIR then 0 else -1, s)
     | None \<Rightarrow>
         (case split_parent_path path VFS_MAX_PATH VFS_NAME_MAX of
            None \<Rightarrow> Some (-1, s)
          | Some (parent_path, name) \<Rightarrow> do {
              parent \<leftarrow> vfs_lookup parent_path s;
              case parent of
                None \<Rightarrow> Some (-1, s)
              | Some p \<Rightarrow>
                  if vn_type (vfs_nodes s ! p) \<noteq> VFS_DIR then Some (-1, s)
                  else (case vnode_create parent name VFS_DIR (Some tmpfs_dir_ops) s of
                      (None, s) \<Rightarrow> Some (-1, s)
                    | (Some _, s) \<Rightarrow> Some (0, s))
            })
   }"

text \<open>The part of vfs_create_file that empties the file and writes the data.\<close>

definition create_contents :: "nat \<Rightarrow> u8 list option \<Rightarrow> u64 \<Rightarrow> vfs_state \<Rightarrow> (int \<times> vfs_state) option" where
  "create_contents i data sz s =
     (let vn = vfs_nodes s ! i;
          s = set_node i (vn\<lparr>vn_data := map_option (\<lambda>tf. tf\<lparr>tf_size := 0\<rparr>) (vn_data vn), vn_size := 0\<rparr>) s
      in if sz = 0 then Some (0, s)
         else case data of
           None \<Rightarrow> Some (-1, s)
         | Some d \<Rightarrow> do {
             (written, s) \<leftarrow> tmpfs_write i (take (unat sz) d) 0 s;
             Some (if written = to_int sz then 0 else -1, s)
           })"

definition vfs_create_file :: "string \<Rightarrow> u8 list option \<Rightarrow> u64 \<Rightarrow> vfs_state \<Rightarrow> (int \<times> vfs_state) option" where
  "vfs_create_file path data sz s =
     (case split_parent_path path VFS_MAX_PATH VFS_NAME_MAX of
        None \<Rightarrow> Some (-1, s)
      | Some (parent_path, name) \<Rightarrow> do {
          parent \<leftarrow> vfs_lookup parent_path s;
          case parent of
            None \<Rightarrow> Some (-1, s)
          | Some p \<Rightarrow>
              if vn_type (vfs_nodes s ! p) \<noteq> VFS_DIR then Some (-1, s)
              else do {
                vn \<leftarrow> vfs_lookup path s;
                case vn of
                  Some i \<Rightarrow>
                    if vn_type (vfs_nodes s ! i) \<noteq> VFS_FILE then Some (-1, s)
                    else create_contents i data sz s
                | None \<Rightarrow>
                    (case vnode_create parent name VFS_FILE (Some tmpfs_file_ops) s of
                       (None, s) \<Rightarrow> Some (-1, s)
                     | (Some i, s) \<Rightarrow> create_contents i data sz s)
              }
        })"

definition vfs_read_all :: "string \<Rightarrow> vfs_state \<Rightarrow> (int \<times> u8 list option \<times> vfs_state) option" where
  "vfs_read_all path s = do {
     vn \<leftarrow> vfs_lookup path s;
     case vn of
       None \<Rightarrow> Some (-1, None, s)
     | Some i \<Rightarrow>
         (let vn = vfs_nodes s ! i in
          if vn_type vn \<noteq> VFS_FILE \<or> \<not> has_rw vn then Some (-1, None, s)
          else case kalloc (if vn_size vn = 0 then 1 else vn_size vn) s of
            (None, s) \<Rightarrow> Some (-1, None, s)
          | (Some buf, s) \<Rightarrow> do {
              (read, bytes) \<leftarrow> ops_read vn (vn_size vn) 0;
              if length buf < length bytes then None
              else if read < 0 \<or> (of_int read :: u64) \<noteq> vn_size vn then Some (-1, None, s)
              else Some (0, Some bytes, s)
            })
   }"

section \<open>vfs\_init\<close>

definition LITHIUM_VERSION :: string where "LITHIUM_VERSION = ''1.0.0''"

text \<open>The bytes of a string literal.\<close>

definition bytes_of :: "string \<Rightarrow> u8 list" where
  "bytes_of = map of_char"

definition newline :: string where "newline = [CHR 0x0A]"

definition motd_txt :: string where
  "motd_txt = ''Welcome to lithium OS, kernel ver- '' @ LITHIUM_VERSION @ ''.'' @ newline @
     ''Type '' @ [CHR 0x27] @ ''help'' @ [CHR 0x27] @ '' for a list of commands.'' @ newline"

definition vfs_init :: "vfs_state \<Rightarrow> vfs_state option" where
  "vfs_init s = do {
     let s = s\<lparr>kernel_fd_table := replicate VFS_MAX_FDS \<lparr>fd_vnode = None, fd_offset = 0, fd_valid = False\<rparr>\<rparr>;
     let (root, s) = vnode_create None ''/'' VFS_DIR (Some tmpfs_dir_ops) s;
     let s = s\<lparr>vfs_root := root\<rparr>;
     _ \<leftarrow> root;
     let (dev, s) = vnode_create root ''dev'' VFS_DIR (Some tmpfs_dir_ops) s;
     let (_, s) = vnode_create dev ''null'' VFS_DEVICE (Some dev_null_ops) s;
     let (_, s) = vnode_create dev ''zero'' VFS_DEVICE (Some dev_null_ops) s;
     let (_, s) = vnode_create dev ''tty'' VFS_DEVICE (Some dev_tty_ops) s;
     let (etc, s) = vnode_create root ''etc'' VFS_DIR (Some tmpfs_dir_ops) s;
     let (host, s) = vnode_create etc ''hostname'' VFS_FILE (Some tmpfs_file_ops) s;
     host \<leftarrow> host;
     (_, s) \<leftarrow> tmpfs_write host (bytes_of (''lithium'' @ newline)) 0 s;
     let (motd, s) = vnode_create etc ''motd'' VFS_FILE (Some tmpfs_file_ops) s;
     motd \<leftarrow> motd;
     (_, s) \<leftarrow> tmpfs_write motd (bytes_of motd_txt) 0 s;
     let (_, s) = vnode_create root ''proc'' VFS_DIR (Some tmpfs_dir_ops) s;
     let (_, s) = vnode_create root ''tmp'' VFS_DIR (Some tmpfs_dir_ops) s;
     Some s
   }"

end
