(* ===== verification/Vfs_Tree.thy ===== *)
theory Vfs_Tree
  imports Vfs
begin

text \<open>
  What the operations of vfs.c do to the file system as a whole. The linked vnodes form a tree
  (\<open>tree_wf\<close>) in which every vnode has one path, so the state is a map from paths to types and contents
  (\<open>tree\<close>); creating, writing and reading are described by what they do to that map.
\<close>

declare lookup_tokens.simps [simp del] free_fd.simps [simp del]

section \<open>The tree of vnodes\<close>

text \<open>Siblings were created in the order of their numbers, newest first.\<close>

function siblings :: "vnode list \<Rightarrow> nat option \<Rightarrow> nat list" where
  "siblings nodes None = []"
| "siblings nodes (Some c) = c # (case vn_next_sib (nodes ! c) of
     None \<Rightarrow> [] | Some d \<Rightarrow> if d < c then siblings nodes (Some d) else [])"
  by pat_completeness auto
termination by (relation "measure (\<lambda>(nodes, c). case c of None \<Rightarrow> 0 | Some k \<Rightarrow> Suc k)") auto

declare siblings.simps(2) [simp del]

definition tree_wf :: "vnode list \<Rightarrow> bool" where
  "tree_wf nodes \<longleftrightarrow> 0 < length nodes \<and> vn_parent (nodes ! 0) = None \<and>
     (\<forall>i < length nodes.
        (\<forall>c. vn_children (nodes ! i) = Some c \<longrightarrow> c < length nodes \<and> vn_parent (nodes ! c) = Some i) \<and>
        (\<forall>d. vn_next_sib (nodes ! i) = Some d \<longrightarrow> d < i \<and> vn_parent (nodes ! d) = vn_parent (nodes ! i)))"

lemma tree_wfD:
  assumes "tree_wf nodes"
  shows "0 < length nodes" "vn_parent (nodes ! 0) = None"
    "i < length nodes \<Longrightarrow> vn_children (nodes ! i) = Some c \<Longrightarrow> c < length nodes \<and> vn_parent (nodes ! c) = Some i"
    "i < length nodes \<Longrightarrow> vn_next_sib (nodes ! i) = Some d \<Longrightarrow> d < i \<and> d < length nodes \<and> vn_parent (nodes ! d) = vn_parent (nodes ! i)"
  using assms unfolding tree_wf_def by (blast, blast, blast, meson order.strict_trans)

lemma siblings_Some:
  assumes "tree_wf nodes" "c < length nodes"
  shows "siblings nodes (Some c) = c # siblings nodes (vn_next_sib (nodes ! c))"
  using tree_wfD(4) [OF assms] by (auto simp: siblings.simps(2) split: option.split)

lemma siblings_member:
  assumes wf: "tree_wf nodes"
  shows "c < length nodes \<Longrightarrow> i \<in> set (siblings nodes (Some c)) \<Longrightarrow> i < length nodes \<and> vn_parent (nodes ! i) = vn_parent (nodes ! c)"
proof (induction c rule: less_induct)
  case (less c)
  note S = siblings_Some [OF wf less.prems(1)]
  show ?case
  proof (cases "vn_next_sib (nodes ! c)")
    case None
    then show ?thesis using S less.prems by simp
  next
    case (Some d)
    then have "d < c" "d < length nodes" "vn_parent (nodes ! d) = vn_parent (nodes ! c)"
      using tree_wfD(4) [OF wf less.prems(1)] by blast+
    then show ?thesis using S Some less.IH [of d] less.prems by auto
  qed
qed

lemma find_child_siblings:
  assumes wf: "tree_wf nodes"
  shows "(\<forall>k. c = Some k \<longrightarrow> k < length nodes) \<Longrightarrow>
    find_child nodes c tok = Some (find (\<lambda>i. vn_name (nodes ! i) = tok) (siblings nodes c))"
proof (induction "case c of None \<Rightarrow> 0 | Some k \<Rightarrow> Suc k" arbitrary: c rule: less_induct)
  case less
  show ?case
  proof (cases c)
    case None
    then show ?thesis by (simp add: find_child.simps)
  next
    case (Some k)
    then have k: "k < length nodes" using less.prems by simp
    have "find_child nodes (vn_next_sib (nodes ! k)) tok =
        Some (find (\<lambda>i. vn_name (nodes ! i) = tok) (siblings nodes (vn_next_sib (nodes ! k))))"
      using tree_wfD(4) [OF wf k] Some by (intro less.hyps) (auto split: option.split)
    then show ?thesis
      unfolding Some siblings_Some [OF wf k] by (subst find_child.simps) simp
  qed
qed

text \<open>The child of a given name, and the vnode at the end of a list of names.\<close>

definition child :: "vnode list \<Rightarrow> nat \<Rightarrow> string \<Rightarrow> nat option" where
  "child nodes i name = find (\<lambda>k. vn_name (nodes ! k) = name) (siblings nodes (vn_children (nodes ! i)))"

fun resolve :: "vnode list \<Rightarrow> nat \<Rightarrow> string list \<Rightarrow> nat option" where
  "resolve nodes i [] = Some i"
| "resolve nodes i (n # ns) = do { k \<leftarrow> child nodes i n; resolve nodes k ns }"

lemma childD:
  assumes wf: "tree_wf nodes" and i: "i < length nodes" and c: "child nodes i n = Some k"
  shows "k < length nodes" "vn_parent (nodes ! k) = Some i" "vn_name (nodes ! k) = n"
proof -
  obtain f where f: "vn_children (nodes ! i) = Some f" using c by (cases "vn_children (nodes ! i)") (auto simp: child_def)
  have "k \<in> set (siblings nodes (Some f))" "vn_name (nodes ! k) = n"
    using c f by (auto simp: child_def find_Some_iff)
  then show "k < length nodes" "vn_parent (nodes ! k) = Some i" "vn_name (nodes ! k) = n"
    using siblings_member [OF wf, of f k] tree_wfD(3) [OF wf i f] by auto
qed

lemma resolve_append: "resolve nodes i (ns @ ms) = do { k \<leftarrow> resolve nodes i ns; resolve nodes k ms }"
  by (induction ns arbitrary: i) (auto split: Option.bind_splits)

lemma resolve_less:
  assumes wf: "tree_wf nodes"
  shows "i < length nodes \<Longrightarrow> resolve nodes i ns = Some k \<Longrightarrow> k < length nodes"
  using childD(1) [OF wf] by (induction ns arbitrary: i) (auto split: Option.bind_splits)

text \<open>Every vnode has one path from the root.\<close>

lemma resolve_unique:
  assumes wf: "tree_wf nodes"
  shows "resolve nodes 0 ns = Some k \<Longrightarrow> resolve nodes 0 ms = Some k \<Longrightarrow> ns = ms"
proof (induction ns arbitrary: ms k rule: rev_induct)
  case Nil
  show ?case
  proof (cases ms rule: rev_cases)
    case (snoc ms' m)
    then obtain j where j: "resolve nodes 0 ms' = Some j" "child nodes j m = Some 0"
      using Nil by (auto simp: resolve_append bind_eq_Some_conv)
    show ?thesis using childD(2) [OF wf resolve_less [OF wf tree_wfD(1) [OF wf] j(1)] j(2)] tree_wfD(2) [OF wf] by simp
  qed simp
next
  case (snoc n ns)
  from snoc.prems(1) obtain i where i: "resolve nodes 0 ns = Some i" "child nodes i n = Some k"
    by (auto simp: resolve_append bind_eq_Some_conv)
  note I = childD [OF wf resolve_less [OF wf tree_wfD(1) [OF wf] i(1)] i(2)]
  show ?case
  proof (cases ms rule: rev_cases)
    case Nil
    then show ?thesis using snoc.prems(2) I(2) tree_wfD(2) [OF wf] by simp
  next
    case (snoc ms' m)
    then obtain j where j: "resolve nodes 0 ms' = Some j" "child nodes j m = Some k"
      using snoc.prems(2) by (auto simp: resolve_append bind_eq_Some_conv)
    note J = childD [OF wf resolve_less [OF wf tree_wfD(1) [OF wf] j(1)] j(2)]
    have "i = j" "n = m" using I J by auto
    then show ?thesis using snoc.IH [OF i(1)] j(1) snoc by simp
  qed
qed

section \<open>Paths\<close>

definition name_ok :: "string \<Rightarrow> bool" where
  "name_ok n \<longleftrightarrow> n \<noteq> [] \<and> CHR ''/'' \<notin> set n"

definition path_str :: "string list \<Rightarrow> string" where
  "path_str ns = (if ns = [] then ''/'' else concat (map ((#) (CHR ''/'')) ns))"

lemma lookup_tokens_names:
  assumes wf: "tree_wf nodes"
  shows "i < length nodes \<Longrightarrow> name_ok n \<Longrightarrow> list_all name_ok ns \<Longrightarrow>
    lookup_tokens nodes i (n @ concat (map ((#) (CHR ''/'')) ns)) = Some (resolve nodes i (n # ns))"
proof (induction ns arbitrary: i n)
  case Nil
  have tw: "takeWhile (\<lambda>c. c \<noteq> CHR ''/'') n = n" "dropWhile (\<lambda>c. c \<noteq> CHR ''/'') n = []"
    using Nil by (auto simp: name_ok_def takeWhile_eq_all_conv dropWhile_eq_Nil_conv)
  have "n \<noteq> []" using Nil by (simp add: name_ok_def)
  then show ?case using Nil find_child_siblings [OF wf] tree_wfD(3) [OF wf]
    by (subst lookup_tokens.simps) (auto simp: tw child_def lookup_tokens.simps [of nodes _ "[]"] split: option.splits)
next
  case (Cons m ns)
  have ne: "\<And>c. c \<in> set n \<Longrightarrow> c \<noteq> CHR ''/''" "n \<noteq> []" using Cons.prems by (auto simp: name_ok_def)
  let ?r = "concat (map ((#) (CHR ''/'')) ns)"
  have tw: "takeWhile (\<lambda>c. c \<noteq> CHR ''/'') (n @ CHR ''/'' # m @ ?r) = n"
    "dropWhile (\<lambda>c. c \<noteq> CHR ''/'') (n @ CHR ''/'' # m @ ?r) = CHR ''/'' # m @ ?r"
    using ne(1) by (simp_all add: takeWhile_append2 dropWhile_append2)
  have f: "find_child nodes (vn_children (nodes ! i)) n = Some (child nodes i n)"
    using find_child_siblings [OF wf] tree_wfD(3) [OF wf Cons.prems(1)] by (simp add: child_def)
  have "lookup_tokens nodes k (m @ ?r) = Some (resolve nodes k (m # ns))" if "child nodes i n = Some k" for k
    using Cons.IH [of k m] childD(1) [OF wf Cons.prems(1) that] Cons.prems by simp
  then show ?case using ne(2) by (subst lookup_tokens.simps) (auto simp: tw f split: option.splits)
qed

lemma vfs_lookup_names:
  assumes "tree_wf (vfs_nodes s)" "vfs_root s = Some 0" "list_all name_ok ns" "length (path_str ns) < VFS_MAX_PATH"
  shows "vfs_lookup (path_str ns) s = Some (resolve (vfs_nodes s) 0 ns)"
proof (cases ns)
  case Nil
  then show ?thesis using assms by (simp add: vfs_lookup_def path_str_def)
next
  case (Cons n ms)
  then show ?thesis
    using assms lookup_tokens_names [OF assms(1), of 0 n ms] tree_wfD(1) [OF assms(1)]
    by (auto simp: vfs_lookup_def path_str_def name_ok_def VFS_MAX_PATH_def)
qed

lemma path_str_snoc: "ns \<noteq> [] \<Longrightarrow> path_str (ns @ [n]) = path_str ns @ CHR ''/'' # n"
  by (simp add: path_str_def)

lemma hd_path_str: "path_str ns \<noteq> []" "hd (path_str ns) = CHR ''/''"
  by (cases ns; simp add: path_str_def)+

lemma split_parent_names:
  assumes "list_all name_ok ns" "name_ok n" "length n < VFS_NAME_MAX" "length (path_str ns) < VFS_MAX_PATH"
  shows "split_parent_path (path_str (ns @ [n])) VFS_MAX_PATH VFS_NAME_MAX = Some (path_str ns, n)"
proof -
  have ne: "\<And>c. c \<in> set (rev n) \<Longrightarrow> c \<noteq> CHR ''/''" "n \<noteq> []" using assms(2) by (auto simp: name_ok_def)
  have "path_str (ns @ [n]) = (if ns = [] then [] else path_str ns) @ CHR ''/'' # n"
    by (simp add: path_str_snoc) (simp add: path_str_def)
  then obtain p where p: "path_str (ns @ [n]) = p @ CHR ''/'' # n" "p = (if ns = [] then [] else path_str ns)" by blast
  have tw: "takeWhile (\<lambda>c. c \<noteq> CHR ''/'') (rev (p @ CHR ''/'' # n)) = rev n"
  proof -
    have "takeWhile (\<lambda>c. c \<noteq> CHR ''/'') (rev n @ CHR ''/'' # rev p) = rev n @ takeWhile (\<lambda>c. c \<noteq> CHR ''/'') (CHR ''/'' # rev p)"
      by (rule takeWhile_append2) (rule ne(1))
    then show ?thesis by simp
  qed
  have hd: "hd (p @ CHR ''/'' # n) = CHR ''/''" "tl (p @ CHR ''/'' # n) \<noteq> []"
    using hd_path_str [of ns] ne(2) p(2) by auto
  have "p = [] \<longleftrightarrow> ns = []" using p(2) hd_path_str(1) by auto
  then show ?thesis unfolding p(1) split_parent_path_def tw
    using hd ne(2) assms(3,4) p(2) by (auto simp: VFS_MAX_PATH_def VFS_NAME_MAX_def path_str_def [of "[]"])
qed

section \<open>A new vnode\<close>

text \<open>The vnodes after vnode_create has added \<open>node\<close> under \<open>p\<close>.\<close>

definition add_child :: "vnode list \<Rightarrow> nat \<Rightarrow> vnode \<Rightarrow> vnode list" where
  "add_child nodes p node = nodes[p := (nodes ! p)\<lparr>vn_children := Some (length nodes)\<rparr>] @
     [node\<lparr>vn_parent := Some p, vn_children := None, vn_next_sib := vn_children (nodes ! p)\<rparr>]"

lemma length_add_child [simp]: "length (add_child nodes p node) = Suc (length nodes)"
  by (simp add: add_child_def)

lemma nth_add_child:
  "i < length nodes \<Longrightarrow> add_child nodes p node ! i = (if i = p then (nodes ! p)\<lparr>vn_children := Some (length nodes)\<rparr> else nodes ! i)"
  "add_child nodes p node ! length nodes = node\<lparr>vn_parent := Some p, vn_children := None, vn_next_sib := vn_children (nodes ! p)\<rparr>"
  by (auto simp: add_child_def nth_append nth_list_update)

lemma add_child_same:
  assumes "i < length nodes"
  shows "vn_name (add_child nodes p node ! i) = vn_name (nodes ! i)" "vn_next_sib (add_child nodes p node ! i) = vn_next_sib (nodes ! i)"
    "vn_parent (add_child nodes p node ! i) = vn_parent (nodes ! i)" "vn_type (add_child nodes p node ! i) = vn_type (nodes ! i)"
    "vn_data (add_child nodes p node ! i) = vn_data (nodes ! i)" "vn_size (add_child nodes p node ! i) = vn_size (nodes ! i)"
    "vn_ops (add_child nodes p node ! i) = vn_ops (nodes ! i)"
  using assms by (simp_all add: nth_add_child)

lemma add_child_wf:
  assumes wf: "tree_wf nodes" and p: "p < length nodes"
  shows "tree_wf (add_child nodes p node)"
proof -
  note W = tree_wfD [OF wf]
  have "c < Suc (length nodes) \<and> vn_parent (add_child nodes p node ! c) = Some i"
    if "i < Suc (length nodes)" "vn_children (add_child nodes p node ! i) = Some c" for i c
    using that W(3) [of i c] p
    by (cases "i < length nodes") (auto simp: nth_add_child less_Suc_eq split: if_splits)
  moreover have "d < i \<and> vn_parent (add_child nodes p node ! d) = vn_parent (add_child nodes p node ! i)"
    if "i < Suc (length nodes)" "vn_next_sib (add_child nodes p node ! i) = Some d" for i d
  proof (cases "i < length nodes")
    case True
    then show ?thesis using that W(4) [OF True, of d] by (simp add: add_child_same)
  next
    case False
    then have i: "i = length nodes" using that by simp
    then show ?thesis using that W(3) [OF p, of d] by (simp add: nth_add_child(2) add_child_same(3))
  qed
  ultimately show ?thesis using W(1,2) by (simp add: tree_wf_def add_child_same)
qed

lemma add_child_siblings:
  assumes wf: "tree_wf nodes" and p: "p < length nodes"
  shows "c < length nodes \<Longrightarrow> siblings (add_child nodes p node) (Some c) = siblings nodes (Some c)"
proof (induction c rule: less_induct)
  case (less c)
  have c: "c < length (add_child nodes p node)" using less.prems by simp
  show ?case unfolding siblings_Some [OF add_child_wf [OF assms] c] siblings_Some [OF wf less.prems] add_child_same [OF less.prems]
    using tree_wfD(4) [OF wf less.prems] less.IH by (cases "vn_next_sib (nodes ! c)") auto
qed

lemma siblings_members_less:
  assumes "tree_wf nodes" "i < length nodes" "k \<in> set (siblings nodes (vn_children (nodes ! i)))"
  shows "k < length nodes"
  using assms siblings_member [OF assms(1)] tree_wfD(3) [OF assms(1,2)] by (cases "vn_children (nodes ! i)") auto

lemma find_cong: "(\<And>x. x \<in> set xs \<Longrightarrow> P x = Q x) \<Longrightarrow> find P xs = find Q xs"
  by (induction xs) auto

lemma add_child_child:
  assumes wf: "tree_wf nodes" and p: "p < length nodes" and i: "i < length nodes"
  shows "child (add_child nodes p node) i n = (if i = p \<and> n = vn_name node then Some (length nodes) else child nodes i n)"
    "child (add_child nodes p node) (length nodes) n = None"
proof -
  let ?N = "add_child nodes p node"
  have s: "siblings ?N (vn_children (nodes ! j)) = siblings nodes (vn_children (nodes ! j))" if "j < length nodes" for j
    using add_child_siblings [OF wf p] tree_wfD(3) [OF wf that] by (cases "vn_children (nodes ! j)") auto
  have f: "find (\<lambda>k. vn_name (?N ! k) = n) (siblings nodes (vn_children (nodes ! j))) = child nodes j n" if "j < length nodes" for j
    unfolding child_def using siblings_members_less [OF wf that] by (intro find_cong) (simp add: add_child_same)
  have new: "siblings ?N (Some (length nodes)) = length nodes # siblings nodes (vn_children (nodes ! p))"
    using siblings_Some [OF add_child_wf [OF wf p, of node], of "length nodes"] s [OF p] by (simp add: nth_add_child(2))
  show "child ?N i n = (if i = p \<and> n = vn_name node then Some (length nodes) else child nodes i n)"
  proof (cases "i = p")
    case True
    then show ?thesis unfolding child_def [of ?N] using new f [OF p] p by (auto simp: nth_add_child)
  next
    case False
    then show ?thesis unfolding child_def [of ?N] using s [OF i] f [OF i] i by (simp add: nth_add_child)
  qed
  show "child ?N (length nodes) n = None" by (simp add: child_def nth_add_child(2))
qed

lemma add_child_resolve:
  assumes wf: "tree_wf nodes" and p: "p < length nodes" and new: "child nodes p (vn_name node) = None"
  shows "i < length nodes \<Longrightarrow> resolve (add_child nodes p node) i ns =
    (if ns \<noteq> [] \<and> last ns = vn_name node \<and> resolve nodes i (butlast ns) = Some p then Some (length nodes) else resolve nodes i ns)"
proof (induction ns arbitrary: i)
  case (Cons n ns)
  note C = add_child_child [OF wf p Cons.prems, of node]
  show ?case
  proof (cases "i = p \<and> n = vn_name node")
    case True
    then show ?thesis using C new add_child_child(2) [OF wf p Cons.prems, of node] by (cases ns) auto
  next
    case False
    show ?thesis
    proof (cases "child nodes i n")
      case None
      then show ?thesis using C False by (cases ns) auto
    next
      case (Some k)
      then have "k < length nodes" using childD(1) [OF wf Cons.prems] by blast
      then show ?thesis using Cons.IH C False Some by (cases ns) auto
    qed
  qed
qed simp

section \<open>Changes of the data only\<close>

definition same_links :: "vnode \<Rightarrow> vnode \<Rightarrow> bool" where
  "same_links a b \<longleftrightarrow> vn_name a = vn_name b \<and> vn_parent a = vn_parent b \<and> vn_children a = vn_children b \<and> vn_next_sib a = vn_next_sib b"

lemma same_links_resolve:
  assumes wf: "tree_wf nodes" and l: "length nodes' = length nodes" and s: "\<forall>i < length nodes. same_links (nodes' ! i) (nodes ! i)"
  shows "tree_wf nodes'" "i < length nodes \<Longrightarrow> resolve nodes' i ns = resolve nodes i ns"
proof -
  note W = tree_wfD [OF wf]
  have S: "vn_name (nodes' ! i) = vn_name (nodes ! i)" "vn_parent (nodes' ! i) = vn_parent (nodes ! i)"
    "vn_children (nodes' ! i) = vn_children (nodes ! i)" "vn_next_sib (nodes' ! i) = vn_next_sib (nodes ! i)"
    if "i < length nodes" for i using s that by (auto simp: same_links_def)
  show wf': "tree_wf nodes'" unfolding tree_wf_def l
  proof (intro conjI allI impI)
    fix i c assume i: "i < length nodes" and "vn_children (nodes' ! i) = Some c"
    then have "vn_children (nodes ! i) = Some c" using S by simp
    then show "c < length nodes" "vn_parent (nodes' ! c) = Some i" using W(3) [OF i] S(2) by auto
  next
    fix i d assume i: "i < length nodes" and "vn_next_sib (nodes' ! i) = Some d"
    then have "vn_next_sib (nodes ! i) = Some d" using S by simp
    then show "d < i" "vn_parent (nodes' ! d) = vn_parent (nodes' ! i)" using W(4) [OF i] S(2) i by auto
  qed (use W(1,2) S(2) [of 0] in simp_all)
  have sib: "siblings nodes' (Some c) = siblings nodes (Some c)" if "c < length nodes" for c
    using that
  proof (induction c rule: less_induct)
    case (less c)
    have "c < length nodes'" using less.prems l by simp
    then show ?case unfolding siblings_Some [OF wf less.prems] siblings_Some [OF wf' \<open>c < length nodes'\<close>] S [OF less.prems]
      using W(4) [OF less.prems] less.IH by (cases "vn_next_sib (nodes ! c)") auto
  qed
  have ch: "child nodes' i n = child nodes i n" if "i < length nodes" for i n
  proof -
    have "siblings nodes' (vn_children (nodes' ! i)) = siblings nodes (vn_children (nodes ! i))"
      using sib W(3) [OF that] S [OF that] by (cases "vn_children (nodes ! i)") auto
    moreover have "vn_name (nodes' ! k) = vn_name (nodes ! k)" if "k \<in> set (siblings nodes (vn_children (nodes ! i)))" for k
      using siblings_members_less [OF wf \<open>i < length nodes\<close> that] S(1) by simp
    ultimately show ?thesis unfolding child_def by (auto intro: find_cong)
  qed
  show "i < length nodes \<Longrightarrow> resolve nodes' i ns = resolve nodes i ns"
  proof (induction ns arbitrary: i)
    case (Cons n ns)
    then show ?case using ch childD(1) [OF wf] by (auto split: Option.bind_splits)
  qed simp
qed

section \<open>The file system as a map from paths\<close>

definition contents :: "vnode \<Rightarrow> u8 list" where
  "contents vn = (case vn_data vn of None \<Rightarrow> [] | Some tf \<Rightarrow> take (unat (tf_size tf)) (tf_data tf))"

definition node_ok :: "vnode \<Rightarrow> bool" where
  "node_ok vn \<longleftrightarrow> (vn_type vn = VFS_FILE \<longrightarrow> vn_ops vn = Some tmpfs_file_ops) \<and>
     (case vn_data vn of None \<Rightarrow> vn_size vn = 0
      | Some tf \<Rightarrow> unat (tf_cap tf) \<le> length (tf_data tf) \<and> tf_size tf \<le> tf_cap tf \<and> vn_size vn = tf_size tf)"

definition vfs_ok :: "vfs_state \<Rightarrow> bool" where
  "vfs_ok s \<longleftrightarrow> tree_wf (vfs_nodes s) \<and> vfs_root s = Some 0 \<and> vn_type (vfs_nodes s ! 0) = VFS_DIR \<and>
     (\<forall>i < length (vfs_nodes s). node_ok (vfs_nodes s ! i))"

definition tree :: "vfs_state \<Rightarrow> string list \<Rightarrow> (vnode_type \<times> u8 list) option" where
  "tree s ns = map_option (\<lambda>i. (vn_type (vfs_nodes s ! i), contents (vfs_nodes s ! i))) (resolve (vfs_nodes s) 0 ns)"

text \<open>A request for memory between two states was refused.\<close>

definition oom :: "vfs_state \<Rightarrow> vfs_state \<Rightarrow> bool" where
  "oom s s' \<longleftrightarrow> (\<exists>k \<ge> vfs_calls s. k < vfs_calls s' \<and> vfs_heap s k = None)"

lemma vfs_okD:
  assumes "vfs_ok s"
  shows "tree_wf (vfs_nodes s)" "vfs_root s = Some 0" "0 < length (vfs_nodes s)" "i < length (vfs_nodes s) \<Longrightarrow> node_ok (vfs_nodes s ! i)"
    "vn_type (vfs_nodes s ! 0) = VFS_DIR"
  using assms tree_wfD(1) unfolding vfs_ok_def by blast+

lemma length_contents: "node_ok vn \<Longrightarrow> length (contents vn) = unat (vn_size vn)"
  by (auto simp: contents_def node_ok_def word_le_nat_alt split: option.splits)

section \<open>Writing to a file\<close>

text \<open>What a write to vnode \<open>i\<close> leaves alone.\<close>

definition writes_node :: "nat \<Rightarrow> vfs_state \<Rightarrow> vfs_state \<Rightarrow> bool" where
  "writes_node i s s' \<longleftrightarrow> length (vfs_nodes s') = length (vfs_nodes s) \<and>
     (\<forall>j. j \<noteq> i \<longrightarrow> vfs_nodes s' ! j = vfs_nodes s ! j) \<and> same_links (vfs_nodes s' ! i) (vfs_nodes s ! i) \<and>
     vn_type (vfs_nodes s' ! i) = vn_type (vfs_nodes s ! i) \<and> vn_ops (vfs_nodes s' ! i) = vn_ops (vfs_nodes s ! i) \<and>
     vfs_root s' = vfs_root s \<and> kernel_fd_table s' = kernel_fd_table s \<and> vfs_heap s' = vfs_heap s \<and> vfs_calls s \<le> vfs_calls s'"

lemma writes_node_refl: "writes_node i s s"
  by (simp add: writes_node_def same_links_def)

lemma writes_node_trans: "writes_node i s s' \<Longrightarrow> writes_node i s' s'' \<Longrightarrow> writes_node i s s''"
  by (simp add: writes_node_def same_links_def)

lemma oom_trans:
  "writes_node i s s' \<Longrightarrow> oom s' s'' \<Longrightarrow> oom s s''"
  by (auto simp: writes_node_def oom_def intro: order_trans)

lemma writes_node_set:
  assumes "i < length (vfs_nodes s)"
  shows "writes_node i s (set_node i ((vfs_nodes s ! i)\<lparr>vn_data := d, vn_size := n\<rparr>) s)"
  using assms by (simp add: writes_node_def set_node_def same_links_def)

lemma writes_node_tree:
  assumes ok: "vfs_ok s" and w: "writes_node i s s'" and n: "node_ok (vfs_nodes s' ! i)" and i: "i < length (vfs_nodes s)"
  shows "vfs_ok s'" "resolve (vfs_nodes s') 0 ns = resolve (vfs_nodes s) 0 ns"
    "resolve (vfs_nodes s) 0 ms = Some i \<Longrightarrow> tree s' = (tree s)(ms \<mapsto> (vn_type (vfs_nodes s ! i), contents (vfs_nodes s' ! i)))"
proof -
  note O = vfs_okD [OF ok]
  have l: "length (vfs_nodes s') = length (vfs_nodes s)" and e: "\<And>j. j \<noteq> i \<Longrightarrow> vfs_nodes s' ! j = vfs_nodes s ! j"
    and t: "vn_type (vfs_nodes s' ! i) = vn_type (vfs_nodes s ! i)" and r: "vfs_root s' = vfs_root s"
    and sl: "same_links (vfs_nodes s' ! i) (vfs_nodes s ! i)" using w by (auto simp: writes_node_def)
  have "\<forall>j < length (vfs_nodes s). same_links (vfs_nodes s' ! j) (vfs_nodes s ! j)"
  proof (intro allI impI)
    fix j show "same_links (vfs_nodes s' ! j) (vfs_nodes s ! j)" using sl e [of j] by (cases "j = i") (simp_all add: same_links_def)
  qed
  note R = same_links_resolve [OF O(1) l this]
  have n': "node_ok (vfs_nodes s' ! j)" if "j < length (vfs_nodes s)" for j using n e [of j] O(4) [OF that] by (cases "j = i") auto
  have t0: "vn_type (vfs_nodes s' ! 0) = VFS_DIR" using O(5) e [of 0] t by (cases "i = 0") auto
  show "vfs_ok s'" using R(1) O(2) r t0 n' l by (simp add: vfs_ok_def)
  show R0: "resolve (vfs_nodes s') 0 ns = resolve (vfs_nodes s) 0 ns" for ns by (rule R(2) [OF O(3)])
  show "tree s' = (tree s)(ms \<mapsto> (vn_type (vfs_nodes s ! i), contents (vfs_nodes s' ! i)))" if m: "resolve (vfs_nodes s) 0 ms = Some i"
  proof
    fix ns
    show "tree s' ns = ((tree s)(ms \<mapsto> (vn_type (vfs_nodes s ! i), contents (vfs_nodes s' ! i)))) ns"
    proof (cases "resolve (vfs_nodes s) 0 ns = Some i")
      case True
      then have "ns = ms" using resolve_unique [OF O(1)] m by blast
      then show ?thesis using m R0 t by (simp add: tree_def)
    next
      case False
      then have "ns \<noteq> ms" using m by auto
      then show ?thesis using False e R0 by (cases "resolve (vfs_nodes s) 0 ns") (auto simp: tree_def)
    qed
  qed
qed

text \<open>A size below 4 GiB gets a block that is long enough.\<close>

lemma size_to_class_room:
  assumes "size_to_class sz = Some i"
  shows "sz \<le> slab_obj_sizes ! i"
  using assms by (auto simp: size_to_class_def find_Some_iff)

lemma kmalloc_room_ge:
  assumes "unat sz < 2 ^ 32"
  shows "sz \<le> kmalloc_room sz"
proof -
  define n where "n = (if sz < 16 then 16 else sz)"
  have n: "unat n < 2 ^ 32" "sz \<le> n" using assms by (auto simp: n_def)
  have u: "unat (ucast n :: u32) = unat n" using n(1) by (simp add: unsigned_ucast_eq take_bit_nat_eq_self)
  have "n \<le> kmalloc_room sz"
  proof (cases "size_to_class (ucast n)")
    case None
    have m: "(4096 - 1 :: u64) = mask 12" by (simp add: mask_eq_exp_minus_1)
    have a: "unat (n + 16 + 4095) = unat n + 4111" using n(1) by (simp add: unat_word_ariths)
    have "ALIGN_UP (n + 16) 4096 = push_bit 12 (drop_bit 12 (n + 16 + 4095))"
      unfolding ALIGN_UP_def m by (rule bit_word_eqI) (auto simp: bit_simps)
    then have "unat (ALIGN_UP (n + 16) 4096) = (unat n + 4111) div 4096 * 4096"
      using n(1) a by (simp add: push_bit_eq_mult drop_bit_eq_div unat_word_ariths unat_div_distrib)
    then have "unat (ALIGN_UP (n + 16) 4096 div 4096 * 4096) = (unat n + 4111) div 4096 * 4096"
      using n(1) by (simp add: unat_word_ariths unat_div_distrib)
    moreover have "unat n + 16 \<le> (unat n + 4111) div 4096 * 4096" by simp
    ultimately have "unat n \<le> unat (ALIGN_UP (n + 16) 4096 div 4096 * 4096 - 16)"
      by (subst unat_sub) (simp_all add: word_le_nat_alt)
    then show ?thesis using None by (simp add: kmalloc_room_def n_def [symmetric] word_le_nat_alt)
  next
    case (Some i)
    then show ?thesis using size_to_class_room [OF Some] u
      by (simp add: kmalloc_room_def n_def [symmetric] word_le_nat_alt)
  qed
  then show ?thesis using n(2) by simp
qed

lemma kalloc_result:
  assumes "kalloc sz s = (r, s1)"
  shows "s1 = s\<lparr>vfs_calls := Suc (vfs_calls s)\<rparr>" "r = None \<longleftrightarrow> vfs_heap s (vfs_calls s) = None"
    "r = Some b \<Longrightarrow> unat sz < 2 ^ 32 \<Longrightarrow> unat sz \<le> length b"
  using assms kmalloc_room_ge [of sz] by (auto simp: kalloc_def word_le_nat_alt)

lemma length_overwrite [simp]: "off + length ys \<le> length xs \<Longrightarrow> length (overwrite xs off ys) = length xs"
  by (simp add: overwrite_def)

lemma take_overwrite:
  assumes "off \<le> n" "off + length ys \<le> length xs" "n \<le> length xs"
  shows "take (max n (off + length ys)) (overwrite xs off ys) = overwrite (take n xs) off ys"
  using assms by (cases "n \<le> off + length ys") (simp_all add: overwrite_def max_def drop_take)

text \<open>The two steps that may ask for memory.\<close>

lemma tmpfs_data_spec:
  assumes "node_ok vn" "tmpfs_data vn s = (r, s1)"
  shows "vfs_nodes s1 = vfs_nodes s" "writes_node i s s1" "r = None \<Longrightarrow> oom s s1"
    "r = Some tf \<Longrightarrow> unat (tf_cap tf) \<le> length (tf_data tf) \<and> tf_size tf \<le> tf_cap tf \<and> vn_size vn = tf_size tf \<and>
       contents vn = take (unat (tf_size tf)) (tf_data tf)"
  using assms
  by (auto simp: tmpfs_data_def kalloc_def node_ok_def contents_def writes_node_def same_links_def oom_def split: option.splits)

lemma krealloc_spec:
  assumes sz: "unat n < 2 ^ 32"
  shows "\<exists>r s1. krealloc old n s = Some (r, s1) \<and> vfs_nodes s1 = vfs_nodes s \<and> writes_node i s s1 \<and> (r = None \<longrightarrow> oom s s1) \<and>
    (\<forall>b. r = Some b \<longrightarrow> unat n \<le> length b \<and> length old \<le> length b \<and> take (length old) b = old)"
proof (cases "old \<noteq> [] \<and> unat n \<le> length old")
  case True
  then show ?thesis by (simp add: krealloc_def writes_node_refl)
next
  case False
  obtain r s1 where k: "kalloc n s = (r, s1)" by fastforce
  note K = kalloc_result [OF k]
  have w: "writes_node i s s1" "vfs_nodes s1 = vfs_nodes s" "r = None \<Longrightarrow> oom s s1"
    using K(1,2) by (auto simp: writes_node_def same_links_def oom_def)
  show ?thesis
  proof (cases r)
    case None
    then show ?thesis using False k w unfolding krealloc_def by auto
  next
    case (Some b)
    then have "length old \<le> length b" "unat n \<le> length b" using K(3) sz False by (cases old; fastforce)+
    then show ?thesis using False k w Some unfolding krealloc_def by auto
  qed
qed

lemma tmpfs_reserve_spec:
  assumes tf: "unat (tf_cap tf) \<le> length (tf_data tf)" "tf_size tf \<le> tf_cap tf" and need: "unat need < 0x7FFFFFE0"
  shows "\<exists>r s1. tmpfs_reserve tf need s = Some (r, s1) \<and> vfs_nodes s1 = vfs_nodes s \<and> writes_node i s s1 \<and> (r = None \<longrightarrow> oom s s1) \<and>
    (\<forall>tf'. r = Some tf' \<longrightarrow> unat (tf_cap tf') \<le> length (tf_data tf') \<and> need \<le> tf_cap tf' \<and> tf_size tf' = tf_size tf \<and>
       tf_size tf \<le> tf_cap tf' \<and> take (unat (tf_size tf)) (tf_data tf') = take (unat (tf_size tf)) (tf_data tf))"
proof (cases "tf_cap tf < need")
  case True
  have n: "unat (need * 2 + 64) = 2 * unat need + 64" using need by (simp add: unat_word_ariths)
  then have n32: "unat (need * 2 + 64) < 2 ^ 32" using need by simp
  obtain r s1 where k: "krealloc (tf_data tf) (need * 2 + 64) s = Some (r, s1)" and K: "vfs_nodes s1 = vfs_nodes s" "writes_node i s s1"
    "r = None \<Longrightarrow> oom s s1" "\<And>b. r = Some b \<Longrightarrow> unat (need * 2 + 64) \<le> length b \<and> length (tf_data tf) \<le> length b \<and> take (length (tf_data tf)) b = tf_data tf"
    using krealloc_spec [OF n32, of "tf_data tf" s i] by blast
  show ?thesis
  proof (cases r)
    case None
    then show ?thesis using True k K by (simp add: tmpfs_reserve_def)
  next
    case (Some b)
    have "unat (tf_size tf) \<le> length (tf_data tf)" using tf by (simp add: word_le_nat_alt)
    then have "take (unat (tf_size tf)) b = take (unat (tf_size tf)) (tf_data tf)" using K(4) [OF Some] by (metis min.absorb1 take_take)
    moreover have "need \<le> need * 2 + 64" "tf_size tf \<le> need * 2 + 64" using n True tf(2) by (simp_all add: word_le_nat_alt word_less_nat_alt)
    ultimately show ?thesis using True k K(1,2) K(4) [OF Some] Some by (simp add: tmpfs_reserve_def)
  qed
qed (use tf in \<open>auto simp: tmpfs_reserve_def writes_node_refl\<close>)

lemma to_int_small:
  assumes "unat n < 2 ^ 31"
  shows "to_int n = int (unat n)"
proof -
  have u: "uint n = int (unat n)" by simp
  have n: "uint n < 2 ^ 31" unfolding u using assms of_nat_less_numeral_power_cancel_iff by blast
  then have "uint (ucast n :: u32) = uint n" by (simp add: unsigned_ucast_eq take_bit_int_eq_self)
  moreover have "signed_take_bit 31 (uint n) = uint n"
    using n by (intro signed_take_bit_int_eq_self order_trans [OF _ uint_ge_0]) simp_all
  ultimately have "to_int n = uint n" by (simp add: to_int_def sint_uint)
  then show ?thesis by simp
qed

lemma tmpfs_write_spec:
  assumes n: "node_ok (vfs_nodes s ! i)" and i: "i < length (vfs_nodes s)" and sz: "unat off + length buf < 0x7FFFFFE0"
  shows "\<exists>r s'. tmpfs_write i buf off s = Some (r, s') \<and> writes_node i s s' \<and> node_ok (vfs_nodes s' ! i) \<and>
    (r = int (length buf) \<and> (unat off \<le> length (contents (vfs_nodes s ! i)) \<longrightarrow>
        contents (vfs_nodes s' ! i) = overwrite (contents (vfs_nodes s ! i)) (unat off) buf) \<or>
     r = -1 \<and> contents (vfs_nodes s' ! i) = contents (vfs_nodes s ! i) \<and> oom s s')"
proof -
  let ?vn = "vfs_nodes s ! i" and ?c = "of_nat (length buf) :: u64"
  have c: "unat ?c = length buf" using sz by (simp add: unat_of_nat)
  have need: "unat (off + ?c) = unat off + length buf" using sz c by (simp add: unat_word_ariths)
  then have lim: "unat (off + ?c) < 0x7FFFFFE0" using sz by simp
  have ci: "to_int ?c = int (length buf)" using to_int_small [of ?c] c sz by simp
  obtain r1 s1 where D0: "tmpfs_data ?vn s = (r1, s1)" by fastforce
  note D = tmpfs_data_spec [OF n D0]
  show ?thesis
  proof (cases r1)
    case None
    then show ?thesis using D D0 n by (simp add: tmpfs_write_def)
  next
    case (Some tf)
    note T = D(4) [OF Some]
    define s2 where "s2 = set_node i (?vn\<lparr>vn_data := Some tf\<rparr>) s1"
    have w2: "writes_node i s s2"
      using D(2) [of i] i D(1)
      by (simp add: s2_def writes_node_def set_node_def same_links_def)
    have n2: "vfs_nodes s2 ! i = ?vn\<lparr>vn_data := Some tf\<rparr>" using i D(1) by (simp add: s2_def set_node_def)
    obtain r3 s3 where R0: "tmpfs_reserve tf (off + ?c) s2 = Some (r3, s3)" and R: "vfs_nodes s3 = vfs_nodes s2" "writes_node i s2 s3"
      "r3 = None \<Longrightarrow> oom s2 s3" "\<And>tf'. r3 = Some tf' \<Longrightarrow> unat (tf_cap tf') \<le> length (tf_data tf') \<and> off + ?c \<le> tf_cap tf' \<and> tf_size tf' = tf_size tf \<and>
       tf_size tf \<le> tf_cap tf' \<and> take (unat (tf_size tf)) (tf_data tf') = take (unat (tf_size tf)) (tf_data tf)"
      using tmpfs_reserve_spec [OF _ _ lim, of tf s2 i] T by blast
    have w3: "writes_node i s s3" using writes_node_trans [OF w2] R(2) by blast
    show ?thesis
    proof (cases r3)
      case None
      have "tmpfs_write i buf off s = Some (-1, s3)" using D0 Some R0 None by (simp add: tmpfs_write_def Let_def s2_def)
      moreover have "vfs_nodes s3 ! i = ?vn\<lparr>vn_data := Some tf\<rparr>" using R(1) n2 by simp
      moreover have "oom s s3" using R(3) None oom_trans [OF w2] by blast
      ultimately show ?thesis using w3 n T by (auto simp: node_ok_def contents_def)
    next
      case (Some tf')
      have T': "unat (tf_cap tf') \<le> length (tf_data tf')" "off + ?c \<le> tf_cap tf'" "tf_size tf' = tf_size tf" "tf_size tf \<le> tf_cap tf'"
        "take (unat (tf_size tf)) (tf_data tf') = take (unat (tf_size tf)) (tf_data tf)"
        using R(4) [OF Some] by blast+
      have fit: "unat off + length buf \<le> length (tf_data tf')" using T'(1,2) need by (simp add: word_le_nat_alt)
      define tf2 where "tf2 = tf'\<lparr>tf_data := overwrite (tf_data tf') (unat off) buf,
        tf_size := (if tf_size tf' < off + ?c then off + ?c else tf_size tf')\<rparr>"
      define s' where "s' = set_node i (?vn\<lparr>vn_data := Some tf2, vn_size := tf_size tf2\<rparr>) s3"
      have run: "tmpfs_write i buf off s = Some (int (length buf), s')"
        using D0 \<open>r1 = Some tf\<close> R0 Some fit ci by (simp add: tmpfs_write_def Let_def s2_def [symmetric] s'_def tf2_def)
      have i3: "i < length (vfs_nodes s3)" using w3 i by (simp add: writes_node_def)
      have n': "vfs_nodes s' ! i = ?vn\<lparr>vn_data := Some tf2, vn_size := tf_size tf2\<rparr>" using i3 by (simp add: s'_def set_node_def)
      have w': "writes_node i s s'" using w3 i3
        by (simp add: s'_def writes_node_def set_node_def same_links_def)
      have sz2: "unat (tf_size tf2) = max (unat (tf_size tf)) (unat off + length buf)"
        using need T'(3) by (auto simp: tf2_def word_less_nat_alt max_def)
      have "node_ok (vfs_nodes s' ! i)"
        using n T'(1,2,4) fit sz2 need by (auto simp: n' node_ok_def tf2_def word_le_nat_alt T'(3))
      moreover have "contents (vfs_nodes s' ! i) = overwrite (contents ?vn) (unat off) buf" if "unat off \<le> length (contents ?vn)"
      proof -
        have "length (contents ?vn) = unat (tf_size tf)" using T by (simp add: word_le_nat_alt)
        then have "take (max (unat (tf_size tf)) (unat off + length buf)) (overwrite (tf_data tf') (unat off) buf) =
            overwrite (take (unat (tf_size tf)) (tf_data tf')) (unat off) buf"
          using that fit T'(1,4) by (intro take_overwrite) (simp_all add: word_le_nat_alt)
        then show ?thesis using T'(5) T by (simp add: n' contents_def sz2) (simp add: tf2_def contents_def)
      qed
      ultimately show ?thesis using run w' by blast
    qed
  qed
qed

section \<open>Creating directories and files\<close>

lemma vnode_create_spec:
  assumes ok: "vfs_ok s" and p: "resolve (vfs_nodes s) 0 ns = Some p" and new: "child (vfs_nodes s) p n = None"
    and n: "length n < VFS_NAME_MAX" and t: "t = VFS_FILE \<longrightarrow> ops = Some tmpfs_file_ops"
    and run: "vnode_create (Some p) n t ops s = (r, s')"
  shows "r = None \<Longrightarrow> oom s s' \<and> vfs_ok s' \<and> tree s' = tree s"
    "r = Some k \<Longrightarrow> vfs_ok s' \<and> tree s' = (tree s)(ns @ [n] \<mapsto> (t, [])) \<and> k < length (vfs_nodes s') \<and>
       resolve (vfs_nodes s') 0 (ns @ [n]) = Some k \<and> vn_type (vfs_nodes s' ! k) = t \<and> contents (vfs_nodes s' ! k) = [] \<and>
       (\<forall>ms j. resolve (vfs_nodes s) 0 ms = Some j \<longrightarrow> resolve (vfs_nodes s') 0 ms = Some j)"
    "vfs_heap s' = vfs_heap s" "vfs_calls s' = Suc (vfs_calls s)" "r = None \<longleftrightarrow> vfs_heap s (vfs_calls s) = None"
proof -
  note O = vfs_okD [OF ok]
  have pl: "p < length (vfs_nodes s)" using resolve_less [OF O(1,3) p] .
  have nm: "take (VFS_NAME_MAX - 1) n = n" using n by (simp add: VFS_NAME_MAX_def)
  define node where "node = \<lparr>vn_name = n, vn_type = t, vn_size = 0, vn_data = None, vn_ops = ops,
    vn_parent = None, vn_children = None, vn_next_sib = None\<rparr>"
  show "vfs_heap s' = vfs_heap s" "vfs_calls s' = Suc (vfs_calls s)" "r = None \<longleftrightarrow> vfs_heap s (vfs_calls s) = None"
    using run by (auto simp: vnode_create_def kalloc_def Let_def set_node_def split: option.splits)
  show "oom s s' \<and> vfs_ok s' \<and> tree s' = tree s" if "r = None"
    using run that ok by (auto simp: vnode_create_def kalloc_def Let_def oom_def vfs_ok_def tree_def split: option.splits)
  assume rk: "r = Some k"
  have s': "s' = s\<lparr>vfs_calls := Suc (vfs_calls s), vfs_nodes := add_child (vfs_nodes s) p node\<rparr>" "k = length (vfs_nodes s)"
    using run rk nm by (auto simp: vnode_create_def kalloc_def Let_def set_node_def add_child_def node_def split: option.splits)
  let ?N = "add_child (vfs_nodes s) p node"
  have nn: "vn_name node = n" by (simp add: node_def)
  note R = add_child_resolve [OF O(1) pl, of node, unfolded nn, OF new O(3)]
  have rn: "resolve ?N 0 (ns @ [n]) = Some (length (vfs_nodes s))" using R p by simp
  have old: "resolve ?N 0 ms = resolve (vfs_nodes s) 0 ms" if "ms \<noteq> ns @ [n]" for ms
  proof -
    have "\<not> (ms \<noteq> [] \<and> last ms = n \<and> resolve (vfs_nodes s) 0 (butlast ms) = Some p)"
    proof
      assume a: "ms \<noteq> [] \<and> last ms = n \<and> resolve (vfs_nodes s) 0 (butlast ms) = Some p"
      then have "butlast ms = ns" using resolve_unique [OF O(1) _ p] by blast
      then have "ms = ns @ [n]" using a append_butlast_last_id [of ms] by simp
      then show False using that by contradiction
    qed
    then show ?thesis using R [of ms] by presburger
  qed
  have keep: "resolve ?N 0 ms = Some j" if "resolve (vfs_nodes s) 0 ms = Some j" for ms j
  proof -
    have "ms \<noteq> ns @ [n]" using that p new by (auto simp: resolve_append)
    then show ?thesis using old that by simp
  qed
  have nok: "node_ok (?N ! i)" if "i < Suc (length (vfs_nodes s))" for i
  proof (cases "i < length (vfs_nodes s)")
    case True
    then show ?thesis using O(4) [OF True] add_child_same [OF True, of p node] by (simp add: node_ok_def cong: option.case_cong)
  next
    case False
    then have "i = length (vfs_nodes s)" using that by simp
    then show ?thesis using t by (simp add: nth_add_child(2) node_ok_def node_def)
  qed
  have ok': "vfs_ok s'"
    using add_child_wf [OF O(1) pl, of node] O(2,5) nok add_child_same(4) [OF O(3), of p node] by (simp add: s' vfs_ok_def)
  have "tree s' = (tree s)(ns @ [n] \<mapsto> (t, []))"
  proof
    fix ms
    show "tree s' ms = ((tree s)(ns @ [n] \<mapsto> (t, []))) ms"
    proof (cases "ms = ns @ [n]")
      case True
      then show ?thesis using rn by (simp add: tree_def s' nth_add_child(2) contents_def node_def)
    next
      case False
      have "k < length (vfs_nodes s)" if "resolve (vfs_nodes s) 0 ms = Some k" for k by (rule resolve_less [OF O(1,3) that])
      then show ?thesis using old [OF False] False
        by (cases "resolve (vfs_nodes s) 0 ms") (auto simp: tree_def s' contents_def add_child_same)
    qed
  qed
  then show "vfs_ok s' \<and> tree s' = (tree s)(ns @ [n] \<mapsto> (t, [])) \<and> k < length (vfs_nodes s') \<and>
       resolve (vfs_nodes s') 0 (ns @ [n]) = Some k \<and> vn_type (vfs_nodes s' ! k) = t \<and> contents (vfs_nodes s' ! k) = [] \<and>
       (\<forall>ms j. resolve (vfs_nodes s) 0 ms = Some j \<longrightarrow> resolve (vfs_nodes s') 0 ms = Some j)"
    using ok' rn keep by (simp add: s' nth_add_child(2) node_def contents_def)
qed

lemma tree_resolve:
  "tree s ns = Some (t, c) \<longleftrightarrow> (\<exists>i. resolve (vfs_nodes s) 0 ns = Some i \<and> vn_type (vfs_nodes s ! i) = t \<and> contents (vfs_nodes s ! i) = c)"
  "tree s ns = None \<longleftrightarrow> resolve (vfs_nodes s) 0 ns = None"
  by (auto simp: tree_def)

lemma no_child:
  assumes "resolve nodes 0 ns = Some p" "resolve nodes 0 (ns @ [n]) = None"
  shows "child nodes p n = None"
  using assms by (cases "child nodes p n") (auto simp: resolve_append)

text \<open>A path of names that fit the buffers of the kernel.\<close>

definition path_fits :: "string list \<Rightarrow> bool" where
  "path_fits ns \<longleftrightarrow> list_all (\<lambda>n. name_ok n \<and> length n < VFS_NAME_MAX) ns \<and> length (path_str ns) < VFS_MAX_PATH"

lemma path_fitsD:
  assumes "path_fits (ns @ [n])"
  shows "list_all name_ok ns" "name_ok n" "length n < VFS_NAME_MAX" "length (path_str ns) < VFS_MAX_PATH"
    "list_all name_ok (ns @ [n])" "length (path_str (ns @ [n])) < VFS_MAX_PATH"
proof -
  show "list_all name_ok ns" "name_ok n" "length n < VFS_NAME_MAX" "list_all name_ok (ns @ [n])" "length (path_str (ns @ [n])) < VFS_MAX_PATH"
    using assms by (auto simp: path_fits_def list_all_iff)
  have "length (path_str ns) \<le> length (path_str (ns @ [n]))" by (cases ns) (auto simp: path_str_def)
  then show "length (path_str ns) < VFS_MAX_PATH" using \<open>length (path_str (ns @ [n])) < VFS_MAX_PATH\<close> by simp
qed

lemma lookup_fits:
  assumes "vfs_ok s" "path_fits ns"
  shows "vfs_lookup (path_str ns) s = Some (resolve (vfs_nodes s) 0 ns)"
  using assms by (intro vfs_lookup_names) (auto simp: vfs_okD path_fits_def list_all_iff)

lemma lookup_parent:
  assumes "vfs_ok s" "path_fits (ns @ [n])"
  shows "vfs_lookup (path_str ns) s = Some (resolve (vfs_nodes s) 0 ns)"
    "split_parent_path (path_str (ns @ [n])) VFS_MAX_PATH VFS_NAME_MAX = Some (path_str ns, n)"
  using path_fitsD [OF assms(2)] vfs_lookup_names [OF vfs_okD(1,2) [OF assms(1)]] split_parent_names by auto

text \<open>C18: vfs_mkdir on a path of well-formed names succeeds without a change when the directory exists
  and fails when something else has the name or the parent is no directory. Otherwise the map from
  paths to files gains exactly the new, empty directory, unless memory runs out.\<close>

theorem vfs_mkdir_correct:
  assumes ok: "vfs_ok s" and fits: "path_fits (ns @ [n])"
  shows "\<exists>r s'. vfs_mkdir (path_str (ns @ [n])) s = Some (r, s') \<and> vfs_ok s' \<and>
    (case tree s (ns @ [n]) of
       Some (t, _) \<Rightarrow> s' = s \<and> r = (if t = VFS_DIR then 0 else -1)
     | None \<Rightarrow>
         if \<exists>c. tree s ns = Some (VFS_DIR, c)
         then r = 0 \<and> tree s' = (tree s)(ns @ [n] \<mapsto> (VFS_DIR, [])) \<or> r = -1 \<and> tree s' = tree s \<and> oom s s'
         else s' = s \<and> r = -1)"
proof -
  note L = lookup_fits [OF ok fits] and P = lookup_parent [OF ok fits] and F = path_fitsD [OF fits]
  show ?thesis
  proof (cases "resolve (vfs_nodes s) 0 (ns @ [n])")
    case (Some e)
    then show ?thesis using L ok by (auto simp: vfs_mkdir_def tree_def)
  next
    case None
    note N = None
    have tn: "tree s (ns @ [n]) = None" using N by (simp add: tree_resolve(2))
    show ?thesis
    proof (cases "\<exists>c. tree s ns = Some (VFS_DIR, c)")
      case False
      then have "vfs_mkdir (path_str (ns @ [n])) s = Some (-1, s)"
        using L P N by (cases "resolve (vfs_nodes s) 0 ns") (auto simp: vfs_mkdir_def tree_resolve)
      then show ?thesis using False tn ok by simp
    next
      case True
      then obtain p where p: "resolve (vfs_nodes s) 0 ns = Some p" "vn_type (vfs_nodes s ! p) = VFS_DIR" by (auto simp: tree_resolve)
      obtain r s' where c: "vnode_create (Some p) n VFS_DIR (Some tmpfs_dir_ops) s = (r, s')" by fastforce
      note C = vnode_create_spec [OF ok p(1) no_child [OF p(1) N] F(3) _ c]
      have "vfs_mkdir (path_str (ns @ [n])) s = Some (if r = None then -1 else 0, s')"
        using L P N p c by (auto simp: vfs_mkdir_def split: option.splits)
      then show ?thesis using C True tn by (cases r) auto
    qed
  qed
qed

section \<open>Files\<close>

lemma create_contents_spec:
  assumes ok: "vfs_ok s" and k: "resolve (vfs_nodes s) 0 ms = Some k" "vn_type (vfs_nodes s ! k) = VFS_FILE"
    and d: "data = Some d \<or> d = []" and sz: "length d < 0x7FFFFFE0"
  shows "\<exists>r s'. create_contents k data (of_nat (length d)) s = Some (r, s') \<and> vfs_ok s' \<and>
    vfs_heap s' = vfs_heap s \<and> vfs_calls s \<le> vfs_calls s' \<and>
    (r = 0 \<and> tree s' = (tree s)(ms \<mapsto> (VFS_FILE, d)) \<or> r = -1 \<and> tree s' = (tree s)(ms \<mapsto> (VFS_FILE, [])) \<and> oom s s')"
proof -
  note O = vfs_okD [OF ok]
  have kl: "k < length (vfs_nodes s)" by (rule resolve_less [OF O(1,3) k(1)])
  let ?vn = "vfs_nodes s ! k"
  define s1 where "s1 = set_node k (?vn\<lparr>vn_data := map_option (\<lambda>tf. tf\<lparr>tf_size := 0\<rparr>) (vn_data ?vn), vn_size := 0\<rparr>) s"
  have w1: "writes_node k s s1" unfolding s1_def by (rule writes_node_set [OF kl])
  have n1: "node_ok (vfs_nodes s1 ! k)" "contents (vfs_nodes s1 ! k) = []"
    using kl O(4) [OF kl] by (auto simp: s1_def set_node_def node_ok_def contents_def split: option.splits)
  note T1 = writes_node_tree [OF ok w1 n1(1) kl]
  have t1: "tree s1 = (tree s)(ms \<mapsto> (VFS_FILE, []))" using T1(3) [OF k(1)] k(2) n1(2) by simp
  have sz': "unat (of_nat (length d) :: u64) = length d" using sz by (simp add: unat_of_nat)
  have w1': "vfs_heap s1 = vfs_heap s" "vfs_calls s \<le> vfs_calls s1" "length (vfs_nodes s1) = length (vfs_nodes s)"
    using w1 by (auto simp: writes_node_def)
  show ?thesis
  proof (cases "d = []")
    case True
    then show ?thesis using T1(1) t1 w1' by (simp add: create_contents_def Let_def s1_def [symmetric])
  next
    case False
    then have nz: "of_nat (length d) \<noteq> (0 :: u64)" and da: "data = Some d" using sz' d by auto
    have k1: "k < length (vfs_nodes s1)" using kl w1' by simp
    from tmpfs_write_spec [OF n1(1) k1, of 0 d] sz obtain r s' where
      run: "tmpfs_write k d 0 s1 = Some (r, s')" and w: "writes_node k s1 s'" and n: "node_ok (vfs_nodes s' ! k)"
      and res: "r = int (length d) \<and> contents (vfs_nodes s' ! k) = overwrite [] 0 d \<or> r = -1 \<and> contents (vfs_nodes s' ! k) = [] \<and> oom s1 s'"
      unfolding n1(2) by auto
    have res': "r = int (length d) \<and> contents (vfs_nodes s' ! k) = d \<or> r = -1 \<and> contents (vfs_nodes s' ! k) = [] \<and> oom s1 s'"
      using res by (simp add: overwrite_def)
    note T = writes_node_tree [OF T1(1) w n k1]
    have k1r: "resolve (vfs_nodes s1) 0 ms = Some k" using T1(2) k(1) by simp
    have "vn_type (vfs_nodes s1 ! k) = VFS_FILE" using w1 k(2) by (simp add: writes_node_def)
    then have t: "tree s' = (tree s)(ms \<mapsto> (VFS_FILE, contents (vfs_nodes s' ! k)))" using T(3) [OF k1r] t1 by simp
    have "create_contents k data (of_nat (length d)) s = Some (if r = to_int (of_nat (length d)) then 0 else -1, s')"
      using run nz da sz' by (simp add: create_contents_def Let_def s1_def [symmetric])
    moreover have "to_int (of_nat (length d)) = int (length d)" using to_int_small [of "of_nat (length d)"] sz sz' by simp
    moreover have "vfs_heap s' = vfs_heap s" "vfs_calls s \<le> vfs_calls s'" using w w1' by (auto simp: writes_node_def)
    ultimately show ?thesis using T(1) t res' oom_trans [OF w1] by auto
  qed
qed

lemma vfs_create_file_spec:
  assumes ok: "vfs_ok s" and fits: "path_fits (ns @ [n])" and d: "data = Some d \<or> d = []" and sz: "length d < 0x7FFFFFE0"
  shows "\<exists>r s'. vfs_create_file (path_str (ns @ [n])) data (of_nat (length d)) s = Some (r, s') \<and> vfs_ok s' \<and> vfs_heap s' = vfs_heap s \<and>
    (if (\<exists>c. tree s ns = Some (VFS_DIR, c)) \<and> (\<forall>t c. tree s (ns @ [n]) = Some (t, c) \<longrightarrow> t = VFS_FILE)
     then r = 0 \<and> tree s' = (tree s)(ns @ [n] \<mapsto> (VFS_FILE, d)) \<or>
       r = -1 \<and> oom s s' \<and> (tree s' = tree s \<or> tree s' = (tree s)(ns @ [n] \<mapsto> (VFS_FILE, [])))
     else s' = s \<and> r = -1)"
proof -
  note L = lookup_fits [OF ok fits] and P = lookup_parent [OF ok fits] and F = path_fitsD [OF fits]
  let ?run = "vfs_create_file (path_str (ns @ [n])) data (of_nat (length d)) s"
  show ?thesis
  proof (cases "\<exists>c. tree s ns = Some (VFS_DIR, c)")
    case False
    then have "?run = Some (-1, s)"
      using P by (cases "resolve (vfs_nodes s) 0 ns") (auto simp: vfs_create_file_def tree_resolve)
    then show ?thesis using False ok by simp
  next
    case dir: True
    then obtain p where p: "resolve (vfs_nodes s) 0 ns = Some p" "vn_type (vfs_nodes s ! p) = VFS_DIR" by (auto simp: tree_resolve)
    show ?thesis
    proof (cases "resolve (vfs_nodes s) 0 (ns @ [n])")
      case (Some k)
      show ?thesis
      proof (cases "vn_type (vfs_nodes s ! k) = VFS_FILE")
        case True
        from create_contents_spec [OF ok Some True d sz] show ?thesis
          using dir L P p Some True by (auto simp: vfs_create_file_def tree_resolve)
      next
        case False
        then have "?run = Some (-1, s)" using L P p Some by (simp add: vfs_create_file_def)
        then show ?thesis using False Some ok by (auto simp: tree_resolve)
      qed
    next
      case None
      obtain r1 s1 where c: "vnode_create (Some p) n VFS_FILE (Some tmpfs_file_ops) s = (r1, s1)" by fastforce
      note C = vnode_create_spec [OF ok p(1) no_child [OF p(1) None] F(3) _ c]
      have tn: "\<And>t c. tree s (ns @ [n]) \<noteq> Some (t, c)" using None by (simp add: tree_def)
      show ?thesis
      proof (cases r1)
        case None
        then have "?run = Some (-1, s1)" using L P p c \<open>resolve _ _ (ns @ [n]) = None\<close> by (simp add: vfs_create_file_def)
        then show ?thesis using C(1,3) None dir tn by auto
      next
        case (Some k)
        have K: "vfs_ok s1" "tree s1 = (tree s)(ns @ [n] \<mapsto> (VFS_FILE, []))" "resolve (vfs_nodes s1) 0 (ns @ [n]) = Some k"
          "vn_type (vfs_nodes s1 ! k) = VFS_FILE" using C(2) [OF _ Some] by auto
        have "oom s s'" if "oom s1 s'" for s' using that C(3,4) by (auto simp: oom_def intro: Suc_leD)
        then show ?thesis using create_contents_spec [OF K(1,3,4) d sz] C(3) K(2) dir tn L P p c Some None
          by (auto simp: vfs_create_file_def)
      qed
    qed
  qed
qed

text \<open>C10: vfs_create_file on a path of well-formed names fails without a change when the parent is no
  directory or something other than a file has the name. Otherwise the path holds a file with exactly
  the given bytes afterwards, whatever it held before, and no other path changes; only when memory
  runs out it reports failure and leaves an empty file or no change. The bound on the size is the one
  below which the doubled buffer size fits the 32 bits that kmalloc looks at.\<close>

theorem vfs_create_file_correct:
  assumes ok: "vfs_ok s" and fits: "path_fits (ns @ [n])" and d: "data = Some d \<or> d = []" and sz: "length d < 0x7FFFFFE0"
  shows "\<exists>r s'. vfs_create_file (path_str (ns @ [n])) data (of_nat (length d)) s = Some (r, s') \<and> vfs_ok s' \<and>
    (if (\<exists>c. tree s ns = Some (VFS_DIR, c)) \<and> (\<forall>t c. tree s (ns @ [n]) = Some (t, c) \<longrightarrow> t = VFS_FILE)
     then r = 0 \<and> tree s' = (tree s)(ns @ [n] \<mapsto> (VFS_FILE, d)) \<or>
       r = -1 \<and> oom s s' \<and> (tree s' = tree s \<or> tree s' = (tree s)(ns @ [n] \<mapsto> (VFS_FILE, [])))
     else s' = s \<and> r = -1)"
  using vfs_create_file_spec [OF assms] by blast

section \<open>Reading\<close>

lemma tmpfs_read_spec:
  assumes n: "node_ok vn" and sz: "length (contents vn) < 2 ^ 31"
  shows "tmpfs_read vn count off =
    Some (int (length (take (unat count) (drop (unat off) (contents vn)))), take (unat count) (drop (unat off) (contents vn)))"
proof (cases "vn_data vn")
  case None
  then show ?thesis by (simp add: tmpfs_read_def contents_def)
next
  case (Some tf)
  then have T: "unat (tf_cap tf) \<le> length (tf_data tf)" "unat (tf_size tf) \<le> unat (tf_cap tf)" "contents vn = take (unat (tf_size tf)) (tf_data tf)"
    using n by (auto simp: node_ok_def contents_def word_le_nat_alt)
  show ?thesis
  proof (cases "tf_size tf \<le> off")
    case True
    then show ?thesis using Some T by (simp add: tmpfs_read_def word_le_nat_alt)
  next
    case False
    define k where "k = (if count < tf_size tf - off then count else tf_size tf - off)"
    have d: "unat (tf_size tf - off) = unat (tf_size tf) - unat off" using False by (simp add: unat_sub word_le_nat_alt)
    then have k: "unat k = min (unat count) (unat (tf_size tf) - unat off)" by (auto simp: k_def word_less_nat_alt)
    have fit: "unat off + unat k \<le> length (tf_data tf)" using k T(1,2) False by (simp add: word_le_nat_alt)
    have s31: "unat (tf_size tf) < 2 ^ 31" using sz T by simp
    then have "to_int k = int (unat k)" using k by (intro to_int_small) simp
    moreover have "take (unat k) (drop (unat off) (tf_data tf)) = take (unat count) (drop (unat off) (contents vn))"
      using k T(3) by (simp add: drop_take min.commute)
    moreover have "length (take (unat count) (drop (unat off) (contents vn))) = unat k"
    proof -
      have "length (contents vn) = unat (tf_size tf)" using T by simp
      then show ?thesis using k by (simp add: min.commute)
    qed
    ultimately show ?thesis using Some False fit by (simp add: tmpfs_read_def Let_def k_def [symmetric])
  qed
qed

lemma vfs_read_all_spec:
  assumes ok: "vfs_ok s" and fits: "path_fits ns" and t: "tree s ns = Some (VFS_FILE, c)" and sz: "length c < 2 ^ 31"
  shows "vfs_read_all (path_str ns) s =
    Some (if vfs_heap s (vfs_calls s) = None then (-1, None, s\<lparr>vfs_calls := Suc (vfs_calls s)\<rparr>)
          else (0, Some c, s\<lparr>vfs_calls := Suc (vfs_calls s)\<rparr>))"
proof -
  obtain i where i: "resolve (vfs_nodes s) 0 ns = Some i" "vn_type (vfs_nodes s ! i) = VFS_FILE" "contents (vfs_nodes s ! i) = c"
    using t by (auto simp: tree_resolve)
  have n: "node_ok (vfs_nodes s ! i)" using vfs_okD(4) [OF ok] resolve_less [OF vfs_okD(1,3) [OF ok] i(1)] .
  have ops: "vn_ops (vfs_nodes s ! i) = Some tmpfs_file_ops" using n i(2) by (simp add: node_ok_def)
  have len: "unat (vn_size (vfs_nodes s ! i)) = length c" using length_contents [OF n] i(3) by simp
  have "ops_read (vfs_nodes s ! i) (vn_size (vfs_nodes s ! i)) 0 = Some (int (length c), c)"
    using tmpfs_read_spec [OF n, of "vn_size (vfs_nodes s ! i)" 0] sz ops i(3) len by (simp add: ops_read_def)
  moreover have "of_int (int (length c)) = vn_size (vfs_nodes s ! i)" by (simp flip: len)
  moreover obtain r s1 where k: "kalloc (if vn_size (vfs_nodes s ! i) = 0 then 1 else vn_size (vfs_nodes s ! i)) s = (r, s1)" by fastforce
  note K = kalloc_result [OF k]
  have "\<not> length b < length c" if "r = Some b" for b
    using K(3) [OF that] len sz by (cases "vn_size (vfs_nodes s ! i) = 0") auto
  ultimately show ?thesis using lookup_fits [OF ok fits] i(1,2) ops k K(1,2)
    by (cases r) (simp_all add: vfs_read_all_def has_rw_def Let_def)
qed

text \<open>C17: after vfs_create_file has reported success, vfs_read_all of that path returns exactly the bytes
  given to it, and of every other path the bytes that were there before, unless the buffer for the
  result cannot be allocated.\<close>

theorem vfs_create_read_roundtrip:
  assumes ok: "vfs_ok s" and fits: "path_fits (ns @ [n])" and sz: "length d < 0x7FFFFFE0"
    and run: "vfs_create_file (path_str (ns @ [n])) (Some d) (of_nat (length d)) s = Some (0, s')"
    and mem: "vfs_heap s' (vfs_calls s') \<noteq> None"
  shows "(\<exists>s''. vfs_read_all (path_str (ns @ [n])) s' = Some (0, Some d, s'') \<and> tree s'' = tree s') \<and>
    (\<forall>ms c. path_fits ms \<and> ms \<noteq> ns @ [n] \<and> tree s ms = Some (VFS_FILE, c) \<and> length c < 2 ^ 31 \<longrightarrow>
       (\<exists>s''. vfs_read_all (path_str ms) s' = Some (0, Some c, s'')))"
proof -
  have ok': "vfs_ok s'" and t: "tree s' = (tree s)(ns @ [n] \<mapsto> (VFS_FILE, d))"
    using vfs_create_file_spec [OF ok fits _ sz, of "Some d"] run by (auto split: if_splits)
  have td: "tree s' (ns @ [n]) = Some (VFS_FILE, d)" using t by simp
  have "length d < 2 ^ 31" using sz by simp
  from vfs_read_all_spec [OF ok' fits td this] mem
  have "vfs_read_all (path_str (ns @ [n])) s' = Some (0, Some d, s'\<lparr>vfs_calls := Suc (vfs_calls s')\<rparr>)" by simp
  moreover have "tree (s'\<lparr>vfs_calls := Suc (vfs_calls s')\<rparr>) = tree s'" by (simp add: tree_def fun_eq_iff)
  moreover have "\<exists>s''. vfs_read_all (path_str ms) s' = Some (0, Some c, s'')"
    if "path_fits ms" "ms \<noteq> ns @ [n]" "tree s ms = Some (VFS_FILE, c)" "length c < 2 ^ 31" for ms c
    using vfs_read_all_spec [OF ok' that(1) _ that(4)] that(2,3) t mem by simp
  ultimately show ?thesis by blast
qed

section \<open>File descriptors\<close>

definition set_offset :: "file_t list \<Rightarrow> int \<Rightarrow> nat \<Rightarrow> file_t list" where
  "set_offset files fd k = files[nat fd := (files ! nat fd)\<lparr>fd_offset := of_nat k\<rparr>]"

lemma fd_advance_offset:
  assumes "nat fd < length files"
  shows "fd_advance files fd (int k) = set_offset files fd (unat (fd_offset (files ! nat fd)) + k)"
  using assms by (cases "k = 0") (auto simp: fd_advance_def set_offset_def)

text \<open>C16: a file descriptor opened on a file is a position in its bytes. A read returns the bytes from the
  position on, at most as many as asked for, and advances by their number; a write replaces the bytes
  at the position, extends the file where it ends, advances by the length of the data and changes no
  other file. A write that runs out of memory returns -1 and changes nothing.\<close>

theorem vfs_fd_io_correct:
  assumes ok: "vfs_ok s" and fd: "fd_ok files fd" "length files = VFS_MAX_FDS"
    and f: "fd_vnode (files ! nat fd) = resolve (vfs_nodes s) 0 ns" "tree s ns = Some (VFS_FILE, c)"
    and off: "off = unat (fd_offset (files ! nat fd))" "off \<le> length c" and sz: "length c < 2 ^ 31" "off + length buf < 0x7FFFFFE0"
  shows "(let b = take (unat count) (drop off c) in
      vfs_read_in files fd count s = Some (int (length b), b, set_offset files fd (off + length b))) \<and>
    (\<exists>r files' s'. vfs_write_in files fd buf s = Some (r, files', s') \<and> vfs_ok s' \<and>
       (r = int (length buf) \<and> tree s' = (tree s)(ns \<mapsto> (VFS_FILE, overwrite c off buf)) \<and> files' = set_offset files fd (off + length buf) \<or>
        r = -1 \<and> tree s' = tree s \<and> files' = files \<and> oom s s'))"
proof -
  obtain i where i: "resolve (vfs_nodes s) 0 ns = Some i" "vn_type (vfs_nodes s ! i) = VFS_FILE" "contents (vfs_nodes s ! i) = c"
    using f(2) by (auto simp: tree_resolve)
  have il: "i < length (vfs_nodes s)" by (rule resolve_less [OF vfs_okD(1,3) [OF ok] i(1)])
  note n = vfs_okD(4) [OF ok il]
  have ops: "vn_ops (vfs_nodes s ! i) = Some tmpfs_file_ops" using n i(2) by (simp add: node_ok_def)
  have fl: "nat fd < length files" using fd by (auto simp: fd_ok_def)
  let ?b = "take (unat count) (drop off c)"
  have "vfs_read_in files fd count s = Some (int (length ?b), ?b, set_offset files fd (off + length ?b))"
    using fd(1) f(1) i ops tmpfs_read_spec [OF n, of count "fd_offset (files ! nat fd)"] sz(1) off(1) fd_advance_offset [OF fl, of "length ?b"]
    by (simp add: vfs_read_in_def has_rw_def ops_read_def Let_def)
  moreover have "\<exists>r files' s'. vfs_write_in files fd buf s = Some (r, files', s') \<and> vfs_ok s' \<and>
       (r = int (length buf) \<and> tree s' = (tree s)(ns \<mapsto> (VFS_FILE, overwrite c off buf)) \<and> files' = set_offset files fd (off + length buf) \<or>
        r = -1 \<and> tree s' = tree s \<and> files' = files \<and> oom s s')"
  proof -
    from tmpfs_write_spec [OF n il, of "fd_offset (files ! nat fd)" buf] off sz(2) i(3) obtain r s' where
      run: "tmpfs_write i buf (fd_offset (files ! nat fd)) s = Some (r, s')" and w: "writes_node i s s'" "node_ok (vfs_nodes s' ! i)"
      and res: "r = int (length buf) \<and> contents (vfs_nodes s' ! i) = overwrite c off buf \<or> r = -1 \<and> contents (vfs_nodes s' ! i) = c \<and> oom s s'"
      by auto
    note T = writes_node_tree [OF ok w il]
    have "tree s' = (tree s)(ns \<mapsto> (VFS_FILE, contents (vfs_nodes s' ! i)))" using T(3) [OF i(1)] i(2) by simp
    moreover have "(tree s)(ns \<mapsto> (VFS_FILE, c)) = tree s" using f(2) by (simp add: fun_upd_idem)
    moreover have "vfs_write_in files fd buf s = Some (r, fd_advance files fd r, s')"
      using fd(1) f(1) i(1) ops run by (simp add: vfs_write_in_def has_rw_def ops_write_def)
    moreover have "fd_advance files fd (-1) = files" by (simp add: fd_advance_def)
    ultimately show ?thesis using T(1) res off(1) fd_advance_offset [OF fl] by auto
  qed
  ultimately show ?thesis unfolding Let_def by blast
qed

section \<open>The initial file system\<close>

definition heap_total :: "vfs_state \<Rightarrow> bool" where
  "heap_total s \<longleftrightarrow> (\<forall>k. vfs_heap s k \<noteq> None)"

text \<open>The vnodes that are kept by name while vfs_init goes on.\<close>

definition keeps :: "vfs_state \<Rightarrow> vfs_state \<Rightarrow> bool" where
  "keeps s s' \<longleftrightarrow> (\<forall>ms j. resolve (vfs_nodes s) 0 ms = Some j \<longrightarrow> resolve (vfs_nodes s') 0 ms = Some j)"

lemma create_step:
  assumes ok: "vfs_ok s" and h: "heap_total s" and p: "resolve (vfs_nodes s) 0 ns = Some p" and new: "tree s (ns @ [n]) = None"
    and n: "length n < VFS_NAME_MAX" and t: "t = VFS_FILE \<longrightarrow> ops = Some tmpfs_file_ops"
  obtains k s' where "vnode_create (Some p) n t ops s = (Some k, s')" "vfs_ok s'" "heap_total s'" "keeps s s'"
    "tree s' = (tree s)(ns @ [n] \<mapsto> (t, []))" "resolve (vfs_nodes s') 0 (ns @ [n]) = Some k"
proof -
  obtain r s' where run: "vnode_create (Some p) n t ops s = (r, s')" by fastforce
  have "child (vfs_nodes s) p n = None" using no_child [OF p] new by (simp add: tree_resolve(2))
  note C = vnode_create_spec [OF ok p this n t run]
  have "r \<noteq> None" using C(5) h unfolding heap_total_def by blast
  then obtain k where k: "r = Some k" by blast
  have "heap_total s'" using C(3) h by (simp add: heap_total_def)
  then show thesis using that [of k s'] run k C(2) [OF k] by (simp add: keeps_def)
qed

lemma write_step:
  assumes ok: "vfs_ok s" and h: "heap_total s" and k: "resolve (vfs_nodes s) 0 ns = Some k" and t: "tree s ns = Some (VFS_FILE, [])"
    and sz: "length d < 0x7FFFFFE0"
  obtains r s' where "tmpfs_write k d 0 s = Some (r, s')" "vfs_ok s'" "heap_total s'" "keeps s s'"
    "tree s' = (tree s)(ns \<mapsto> (VFS_FILE, d))"
proof -
  have kl: "k < length (vfs_nodes s)" by (rule resolve_less [OF vfs_okD(1,3) [OF ok] k])
  have e: "contents (vfs_nodes s ! k) = []" "vn_type (vfs_nodes s ! k) = VFS_FILE" using t k by (auto simp: tree_def)
  from tmpfs_write_spec [OF vfs_okD(4) [OF ok kl] kl, of 0 d] sz obtain r s' where
    w: "tmpfs_write k d 0 s = Some (r, s')" "writes_node k s s'" "node_ok (vfs_nodes s' ! k)"
    and res: "contents (vfs_nodes s' ! k) = overwrite [] 0 d \<or> oom s s'" unfolding e by auto
  note T = writes_node_tree [OF ok w(2,3) kl]
  have "\<not> oom s s'" using h by (simp add: oom_def heap_total_def)
  then have "contents (vfs_nodes s' ! k) = d" using res by (simp add: overwrite_def)
  then have "tree s' = (tree s)(ns \<mapsto> (VFS_FILE, d))" using T(3) [OF k] e by simp
  moreover have "heap_total s'" using w(2) h by (simp add: writes_node_def heap_total_def)
  ultimately show thesis using that [of r s'] w T(1,2) by (simp add: keeps_def)
qed

definition initial_tree :: "string list \<Rightarrow> (vnode_type \<times> u8 list) option" where
  "initial_tree = [[] \<mapsto> (VFS_DIR, []), [''dev''] \<mapsto> (VFS_DIR, []), [''dev'', ''null''] \<mapsto> (VFS_DEVICE, []),
     [''dev'', ''zero''] \<mapsto> (VFS_DEVICE, []), [''dev'', ''tty''] \<mapsto> (VFS_DEVICE, []), [''etc''] \<mapsto> (VFS_DIR, []),
     [''etc'', ''hostname''] \<mapsto> (VFS_FILE, bytes_of (''lithium'' @ newline)), [''etc'', ''motd''] \<mapsto> (VFS_FILE, bytes_of motd_txt),
     [''proc''] \<mapsto> (VFS_DIR, []), [''tmp''] \<mapsto> (VFS_DIR, [])]"

lemma init_root:
  assumes "vfs_nodes s = []" "heap_total s"
  obtains s1 where "vnode_create None ''/'' VFS_DIR (Some tmpfs_dir_ops) s = (Some 0, s1)"
    "vfs_ok (s1\<lparr>vfs_root := Some 0\<rparr>)" "heap_total (s1\<lparr>vfs_root := Some 0\<rparr>)" "tree (s1\<lparr>vfs_root := Some 0\<rparr>) = [[] \<mapsto> (VFS_DIR, [])]"
    "resolve (vfs_nodes (s1\<lparr>vfs_root := Some 0\<rparr>)) 0 [] = Some 0"
proof -
  obtain g where "vfs_heap s (vfs_calls s) = Some g" using assms(2) by (auto simp: heap_total_def)
  then obtain s1 where s1: "vnode_create None ''/'' VFS_DIR (Some tmpfs_dir_ops) s = (Some 0, s1)"
    "vfs_heap s1 = vfs_heap s" "vfs_nodes s1 = [\<lparr>vn_name = ''/'', vn_type = VFS_DIR, vn_size = 0, vn_data = None,
       vn_ops = Some tmpfs_dir_ops, vn_parent = None, vn_children = None, vn_next_sib = None\<rparr>]"
    using assms(1) by (auto simp: vnode_create_def kalloc_def Let_def VFS_NAME_MAX_def)
  have c: "child (vfs_nodes s1) 0 n = None" for n using s1(3) by (simp add: child_def)
  have "tree (s1\<lparr>vfs_root := Some 0\<rparr>) ns = [[] \<mapsto> (VFS_DIR, [])] ns" for ns
    using s1(3) c by (cases ns) (auto simp: tree_def contents_def)
  then show thesis using that [of s1] s1 assms(2)
    by (auto simp: vfs_ok_def tree_wf_def node_ok_def heap_total_def fun_eq_iff)
qed

lemma init_dev:
  assumes o1: "vfs_ok s1" "heap_total s1" and t1: "tree s1 = [[] \<mapsto> (VFS_DIR, [])]"
  obtains dev k3 k4 k5 s2 s3 s4 s5 where "vnode_create (Some 0) ''dev'' VFS_DIR (Some tmpfs_dir_ops) s1 = (Some dev, s2)"
    "vnode_create (Some dev) ''null'' VFS_DEVICE (Some dev_null_ops) s2 = (Some k3, s3)"
    "vnode_create (Some dev) ''zero'' VFS_DEVICE (Some dev_null_ops) s3 = (Some k4, s4)"
    "vnode_create (Some dev) ''tty'' VFS_DEVICE (Some dev_tty_ops) s4 = (Some k5, s5)"
    "vfs_ok s5" "heap_total s5" "tree s5 = [[] \<mapsto> (VFS_DIR, []), [''dev''] \<mapsto> (VFS_DIR, []), [''dev'', ''null''] \<mapsto> (VFS_DEVICE, []),
       [''dev'', ''zero''] \<mapsto> (VFS_DEVICE, []), [''dev'', ''tty''] \<mapsto> (VFS_DEVICE, [])]"
proof -
  have root: "resolve (vfs_nodes s) 0 [] = Some 0" for s by simp
  note N = VFS_NAME_MAX_def
  obtain dev s2 where c2: "vnode_create (Some 0) ''dev'' VFS_DIR (Some tmpfs_dir_ops) s1 = (Some dev, s2)" and o2: "vfs_ok s2" "heap_total s2"
    and t2: "tree s2 = (tree s1)([''dev''] \<mapsto> (VFS_DIR, []))" and d2: "resolve (vfs_nodes s2) 0 [''dev''] = Some dev"
    by (rule create_step [OF o1 root, of "''dev''" VFS_DIR "Some tmpfs_dir_ops"]) (auto simp: t1 N)
  obtain k3 s3 where c3: "vnode_create (Some dev) ''null'' VFS_DEVICE (Some dev_null_ops) s2 = (Some k3, s3)" and o3: "vfs_ok s3" "heap_total s3" "keeps s2 s3"
    and t3: "tree s3 = (tree s2)([''dev'', ''null''] \<mapsto> (VFS_DEVICE, []))"
    by (rule create_step [OF o2 d2, of "''null''" VFS_DEVICE "Some dev_null_ops"]) (auto simp: t1 t2 N)
  have d3: "resolve (vfs_nodes s3) 0 [''dev''] = Some dev" using o3(3) d2 unfolding keeps_def by blast
  obtain k4 s4 where c4: "vnode_create (Some dev) ''zero'' VFS_DEVICE (Some dev_null_ops) s3 = (Some k4, s4)" and o4: "vfs_ok s4" "heap_total s4" "keeps s3 s4"
    and t4: "tree s4 = (tree s3)([''dev'', ''zero''] \<mapsto> (VFS_DEVICE, []))"
    by (rule create_step [OF o3(1,2) d3, of "''zero''" VFS_DEVICE "Some dev_null_ops"]) (auto simp: t1 t2 t3 N)
  have d4: "resolve (vfs_nodes s4) 0 [''dev''] = Some dev" using o4(3) d3 unfolding keeps_def by blast
  obtain k5 s5 where c5: "vnode_create (Some dev) ''tty'' VFS_DEVICE (Some dev_tty_ops) s4 = (Some k5, s5)" and o5: "vfs_ok s5" "heap_total s5"
    and t5: "tree s5 = (tree s4)([''dev'', ''tty''] \<mapsto> (VFS_DEVICE, []))"
    by (rule create_step [OF o4(1,2) d4, of "''tty''" VFS_DEVICE "Some dev_tty_ops"]) (auto simp: t1 t2 t3 t4 N)
  have "tree s5 = [[] \<mapsto> (VFS_DIR, []), [''dev''] \<mapsto> (VFS_DIR, []), [''dev'', ''null''] \<mapsto> (VFS_DEVICE, []),
       [''dev'', ''zero''] \<mapsto> (VFS_DEVICE, []), [''dev'', ''tty''] \<mapsto> (VFS_DEVICE, [])]"
    unfolding t5 t4 t3 t2 t1 by (auto simp: fun_eq_iff)
  then show thesis using that [OF c2 c3 c4 c5 o5] by blast
qed

lemma init_etc:
  assumes o5: "vfs_ok s5" "heap_total s5" and t5: "tree s5 [''etc''] = None" "tree s5 [''etc'', ''hostname''] = None" "tree s5 [''etc'', ''motd''] = None"
  obtains etc host motd r8 r10 s6 s7 s8 s9 s10 where "vnode_create (Some 0) ''etc'' VFS_DIR (Some tmpfs_dir_ops) s5 = (Some etc, s6)"
    "vnode_create (Some etc) ''hostname'' VFS_FILE (Some tmpfs_file_ops) s6 = (Some host, s7)"
    "tmpfs_write host (bytes_of (''lithium'' @ newline)) 0 s7 = Some (r8, s8)"
    "vnode_create (Some etc) ''motd'' VFS_FILE (Some tmpfs_file_ops) s8 = (Some motd, s9)"
    "tmpfs_write motd (bytes_of motd_txt) 0 s9 = Some (r10, s10)"
    "vfs_ok s10" "heap_total s10" "tree s10 = (tree s5)([''etc''] \<mapsto> (VFS_DIR, []), [''etc'', ''hostname''] \<mapsto> (VFS_FILE, bytes_of (''lithium'' @ newline)),
       [''etc'', ''motd''] \<mapsto> (VFS_FILE, bytes_of motd_txt))"
proof -
  have root: "resolve (vfs_nodes s) 0 [] = Some 0" for s by simp
  note N = VFS_NAME_MAX_def
  obtain etc s6 where c6: "vnode_create (Some 0) ''etc'' VFS_DIR (Some tmpfs_dir_ops) s5 = (Some etc, s6)" and o6: "vfs_ok s6" "heap_total s6"
    and t6: "tree s6 = (tree s5)([''etc''] \<mapsto> (VFS_DIR, []))" and e6: "resolve (vfs_nodes s6) 0 [''etc''] = Some etc"
    by (rule create_step [OF o5 root, of "''etc''" VFS_DIR "Some tmpfs_dir_ops"]) (auto simp: t5 N)
  obtain host s7 where c7: "vnode_create (Some etc) ''hostname'' VFS_FILE (Some tmpfs_file_ops) s6 = (Some host, s7)" and o7: "vfs_ok s7" "heap_total s7" "keeps s6 s7"
    and t7: "tree s7 = (tree s6)([''etc'', ''hostname''] \<mapsto> (VFS_FILE, []))" and h7: "resolve (vfs_nodes s7) 0 [''etc'', ''hostname''] = Some host"
    by (rule create_step [OF o6 e6, of "''hostname''" VFS_FILE "Some tmpfs_file_ops"]) (auto simp: t5 t6 N)
  obtain r8 s8 where c8: "tmpfs_write host (bytes_of (''lithium'' @ newline)) 0 s7 = Some (r8, s8)" and o8: "vfs_ok s8" "heap_total s8" "keeps s7 s8"
    and t8: "tree s8 = (tree s7)([''etc'', ''hostname''] \<mapsto> (VFS_FILE, bytes_of (''lithium'' @ newline)))"
    by (rule write_step [OF o7(1,2) h7, of "bytes_of (''lithium'' @ newline)"]) (auto simp: t7 bytes_of_def newline_def)
  have e8: "resolve (vfs_nodes s8) 0 [''etc''] = Some etc" using o8(3) o7(3) e6 unfolding keeps_def by blast
  obtain motd s9 where c9: "vnode_create (Some etc) ''motd'' VFS_FILE (Some tmpfs_file_ops) s8 = (Some motd, s9)" and o9: "vfs_ok s9" "heap_total s9"
    and t9: "tree s9 = (tree s8)([''etc'', ''motd''] \<mapsto> (VFS_FILE, []))" and m9: "resolve (vfs_nodes s9) 0 [''etc'', ''motd''] = Some motd"
    by (rule create_step [OF o8(1,2) e8, of "''motd''" VFS_FILE "Some tmpfs_file_ops"]) (auto simp: t5 t6 t7 t8 N)
  obtain r10 s10 where c10: "tmpfs_write motd (bytes_of motd_txt) 0 s9 = Some (r10, s10)" and o10: "vfs_ok s10" "heap_total s10"
    and t10: "tree s10 = (tree s9)([''etc'', ''motd''] \<mapsto> (VFS_FILE, bytes_of motd_txt))"
    by (rule write_step [OF o9 m9, of "bytes_of motd_txt"]) (auto simp: t9 bytes_of_def newline_def motd_txt_def LITHIUM_VERSION_def)
  have "tree s10 = (tree s5)([''etc''] \<mapsto> (VFS_DIR, []), [''etc'', ''hostname''] \<mapsto> (VFS_FILE, bytes_of (''lithium'' @ newline)),
       [''etc'', ''motd''] \<mapsto> (VFS_FILE, bytes_of motd_txt))"
    unfolding t10 t9 t8 t7 t6 by (auto simp: fun_eq_iff)
  then show thesis using that [OF c6 c7 c8 c9 c10 o10] by blast
qed

lemma vfs_init_spec:
  assumes "vfs_nodes s = []" "\<forall>k. vfs_heap s k \<noteq> None"
  shows "\<exists>s'. vfs_init s = Some s' \<and> vfs_ok s' \<and> heap_total s' \<and> tree s' = initial_tree"
proof -
  define s0 where "s0 = s\<lparr>kernel_fd_table := replicate VFS_MAX_FDS \<lparr>fd_vnode = None, fd_offset = 0, fd_valid = False\<rparr>\<rparr>"
  have "vfs_nodes s0 = []" "heap_total s0" using assms by (simp_all add: s0_def heap_total_def)
  then obtain s1' where c1: "vnode_create None ''/'' VFS_DIR (Some tmpfs_dir_ops) s0 = (Some 0, s1')"
    and o1: "vfs_ok (s1'\<lparr>vfs_root := Some 0\<rparr>)" "heap_total (s1'\<lparr>vfs_root := Some 0\<rparr>)"
    and t1: "tree (s1'\<lparr>vfs_root := Some 0\<rparr>) = [[] \<mapsto> (VFS_DIR, [])]" by (rule init_root)
  note N = VFS_NAME_MAX_def
  have root: "resolve (vfs_nodes s) 0 [] = Some 0" for s by simp
  obtain dev k3 k4 k5 s2 s3 s4 s5 where c2: "vnode_create (Some 0) ''dev'' VFS_DIR (Some tmpfs_dir_ops)  (s1'\<lparr>vfs_root := Some 0\<rparr>) = (Some dev, s2)" and c3: "vnode_create (Some dev) ''null'' VFS_DEVICE (Some dev_null_ops) s2 = (Some k3, s3)"
    and c4: "vnode_create (Some dev) ''zero'' VFS_DEVICE (Some dev_null_ops) s3 = (Some k4, s4)" and c5: "vnode_create (Some dev) ''tty'' VFS_DEVICE (Some dev_tty_ops) s4 = (Some k5, s5)"
    and o5: "vfs_ok s5" "heap_total s5" and t5: "tree s5 = [[] \<mapsto> (VFS_DIR, []), [''dev''] \<mapsto> (VFS_DIR, []), [''dev'', ''null''] \<mapsto> (VFS_DEVICE, []),
       [''dev'', ''zero''] \<mapsto> (VFS_DEVICE, []), [''dev'', ''tty''] \<mapsto> (VFS_DEVICE, [])]" by (rule init_dev [OF o1 t1])
  obtain etc host motd r8 r10 s6 s7 s8 s9 s10 where c6: "vnode_create (Some 0) ''etc'' VFS_DIR (Some tmpfs_dir_ops) s5 = (Some etc, s6)" and c7: "vnode_create (Some etc) ''hostname'' VFS_FILE (Some tmpfs_file_ops) s6 = (Some host, s7)"
    and c8: "tmpfs_write host (bytes_of (''lithium'' @ newline)) 0 s7 = Some (r8, s8)" and c9: "vnode_create (Some etc) ''motd'' VFS_FILE (Some tmpfs_file_ops) s8 = (Some motd, s9)" and c10: "tmpfs_write motd (bytes_of motd_txt) 0 s9 = Some (r10, s10)"
    and o10: "vfs_ok s10" "heap_total s10" and t10: "tree s10 = (tree s5)([''etc''] \<mapsto> (VFS_DIR, []), [''etc'', ''hostname''] \<mapsto> (VFS_FILE, bytes_of (''lithium'' @ newline)),
       [''etc'', ''motd''] \<mapsto> (VFS_FILE, bytes_of motd_txt))"
    by (rule init_etc [OF o5]) (auto simp: t5)
  obtain k11 s11 where c11: "vnode_create (Some 0) ''proc'' VFS_DIR (Some tmpfs_dir_ops) s10 = (Some k11, s11)" and o11: "vfs_ok s11" "heap_total s11"
    and t11: "tree s11 = (tree s10)([''proc''] \<mapsto> (VFS_DIR, []))"
    by (rule create_step [OF o10 root, of "''proc''" VFS_DIR "Some tmpfs_dir_ops"]) (auto simp: t5 t10 N)
  obtain k12 s12 where c12: "vnode_create (Some 0) ''tmp'' VFS_DIR (Some tmpfs_dir_ops) s11 = (Some k12, s12)" and o12: "vfs_ok s12" "heap_total s12"
    and t12: "tree s12 = (tree s11)([''tmp''] \<mapsto> (VFS_DIR, []))"
    by (rule create_step [OF o11 root, of "''tmp''" VFS_DIR "Some tmpfs_dir_ops"]) (auto simp: t5 t10 t11 N)
  have "vfs_init s = Some s12"
    using c1 c2 c3 c4 c5 c6 c7 c8 c9 c10 c11 c12 by (simp add: vfs_init_def s0_def [symmetric])
  moreover have "tree s12 = initial_tree"
    unfolding initial_tree_def t12 t11 t10 t5 by (auto simp: fun_eq_iff)
  ultimately show ?thesis using o12 by blast
qed


section \<open>Samples\<close>

definition vfs_blank :: vfs_state where
  "vfs_blank = \<lparr>vfs_nodes = [], vfs_root = None, kernel_fd_table = [], vfs_heap = (\<lambda>_. Some (\<lambda>_. 0)), vfs_calls = 0\<rparr>"

lemma vfs_booted:
  obtains s where "vfs_init vfs_blank = Some s" "vfs_ok s" "tree s = initial_tree" "heap_total s"
  using vfs_init_spec [of vfs_blank] by (auto simp: vfs_blank_def)

lemma sample_path: "path_fits [''tmp'', ''a'']" "path_str [''tmp'', ''a''] = ''/tmp/a''"
  by (simp_all add: path_fits_def path_str_def name_ok_def VFS_NAME_MAX_def VFS_MAX_PATH_def)

lemma sample_tree:
  "initial_tree [''tmp''] = Some (VFS_DIR, [])" "initial_tree [''tmp'', ''a''] = None"
  by (simp_all add: initial_tree_def)

lemma no_oom: "heap_total s \<Longrightarrow> \<not> oom s s'"
  by (simp add: oom_def heap_total_def)

theorem vfs_mkdir_correct_witness:
  "\<exists>s s'. vfs_init vfs_blank = Some s \<and> vfs_mkdir ''/tmp/a'' s = Some (0, s') \<and> tree s' [''tmp'', ''a''] = Some (VFS_DIR, [])"
proof -
  obtain s where s: "vfs_init vfs_blank = Some s" "vfs_ok s" "tree s = initial_tree" "heap_total s" by (rule vfs_booted)
  show ?thesis using vfs_mkdir_correct [OF s(2), of "[''tmp'']" "''a''"] sample_path sample_tree s no_oom by auto
qed

theorem vfs_create_file_correct_witness:
  "\<exists>s s'. vfs_init vfs_blank = Some s \<and> vfs_create_file ''/tmp/a'' (Some [1, 2, 3]) 3 s = Some (0, s') \<and>
     tree s' [''tmp'', ''a''] = Some (VFS_FILE, [1, 2, 3])"
proof -
  obtain s where s: "vfs_init vfs_blank = Some s" "vfs_ok s" "tree s = initial_tree" "heap_total s" by (rule vfs_booted)
  show ?thesis
    using vfs_create_file_correct [OF s(2), of "[''tmp'']" "''a''" "Some [1, 2, 3]" "[1, 2, 3]"] sample_path sample_tree s no_oom
    by auto
qed

lemma sample_file:
  obtains s s' where "vfs_init vfs_blank = Some s" "vfs_ok s" "vfs_create_file ''/tmp/a'' (Some [1, 2, 3]) 3 s = Some (0, s')"
    "vfs_ok s'" "heap_total s'" "tree s' = initial_tree([''tmp'', ''a''] \<mapsto> (VFS_FILE, [1, 2, 3]))"
proof -
  obtain s where s: "vfs_init vfs_blank = Some s" "vfs_ok s" "tree s = initial_tree" "heap_total s" by (rule vfs_booted)
  then show thesis
    using vfs_create_file_spec [OF s(2), of "[''tmp'']" "''a''" "Some [1, 2, 3]" "[1, 2, 3]"] sample_path sample_tree no_oom that
    by (auto simp: heap_total_def)
qed

theorem vfs_create_read_roundtrip_witness:
  "\<exists>s s' s''. vfs_init vfs_blank = Some s \<and> vfs_create_file ''/tmp/a'' (Some [1, 2, 3]) 3 s = Some (0, s') \<and>
     vfs_read_all ''/tmp/a'' s' = Some (0, Some [1, 2, 3], s'')"
proof -
  obtain s s' where s: "vfs_init vfs_blank = Some s" "vfs_ok s" and c: "vfs_create_file ''/tmp/a'' (Some [1, 2, 3]) 3 s = Some (0, s')"
    "vfs_ok s'" "heap_total s'" by (rule sample_file)
  then show ?thesis using vfs_create_read_roundtrip [OF s(2), of "[''tmp'']" "''a''" "[1, 2, 3]" s'] sample_path
    by (auto simp: heap_total_def)
qed

theorem vfs_fd_io_correct_witness:
  "\<exists>s s' files i. vfs_init vfs_blank = Some s \<and> vfs_create_file ''/tmp/a'' (Some [1, 2, 3]) 3 s = Some (0, s') \<and>
     files = (replicate 32 \<lparr>fd_vnode = None, fd_offset = 0, fd_valid = False\<rparr>)[3 := \<lparr>fd_vnode = Some i, fd_offset = 1, fd_valid = True\<rparr>] \<and>
     vfs_read_in files 3 5 s' = Some (2, [2, 3], set_offset files 3 3)"
proof -
  obtain s s' where s: "vfs_init vfs_blank = Some s" "vfs_ok s" and c: "vfs_create_file ''/tmp/a'' (Some [1, 2, 3]) 3 s = Some (0, s')"
    "vfs_ok s'" "heap_total s'" "tree s' = initial_tree([''tmp'', ''a''] \<mapsto> (VFS_FILE, [1, 2, 3]))" by (rule sample_file)
  obtain i where i: "resolve (vfs_nodes s') 0 [''tmp'', ''a''] = Some i"
    using c(4) tree_resolve(1) [of s' "[''tmp'', ''a'']"] by auto
  define files where "files = (replicate 32 \<lparr>fd_vnode = None, fd_offset = 0, fd_valid = False\<rparr>)[3 := \<lparr>fd_vnode = Some i, fd_offset = 1, fd_valid = True\<rparr>]"
  have f: "fd_ok files 3" "length files = VFS_MAX_FDS" "files ! 3 = \<lparr>fd_vnode = Some i, fd_offset = 1, fd_valid = True\<rparr>"
    by (simp_all add: files_def fd_ok_def VFS_MAX_FDS_def)
  have "vfs_read_in files 3 5 s' = Some (2, [2, 3], set_offset files 3 3)"
    using vfs_fd_io_correct [OF c(2) f(1,2), of "[''tmp'', ''a'']" "[1, 2, 3]" 1 "[]" 5] f(3) i c(4) by (simp add: Let_def numeral_3_eq_3)
  then show ?thesis using s(1) c(1) files_def by blast
qed


end
