(* ===== verification/Path.thy ===== *)
theory Path
  imports Vfs_Tree
begin

text \<open>
  The path arithmetic of the system calls, kernel/syscall/syscall.c: joining a path with the current
  directory of the task and removing its empty, \<open>.\<close> and \<open>..\<close> parts. Strings are lists of characters;
  \<open>None\<close> is the result \<open>-EINVAL\<close>. The reference is the list of names of a path and a stack of names.
\<close>

section \<open>The code\<close>

text \<open>The loop of path_pop, on the length.\<close>

fun pop_loop :: "string \<Rightarrow> nat \<Rightarrow> nat" where
  "pop_loop out len = (if 1 < len \<and> out ! (len - 1) \<noteq> CHR ''/'' then pop_loop out (len - 1) else len)"

declare pop_loop.simps [simp del]

definition path_pop :: "string \<Rightarrow> string" where
  "path_pop out =
     (if length out \<le> 1 then out
      else (let len = pop_loop out (length out); len = (if 1 < len then len - 1 else len) in take len out))"

definition path_push :: "string \<Rightarrow> nat \<Rightarrow> string \<Rightarrow> string option" where
  "path_push out cap name =
     (if name = [] then None
      else (let need = length out + (if 1 < length out then 1 else 0) + length name + 1 in
            if cap < need then None
            else Some (out @ (if 1 < length out then ''/'' else []) @ name)))"

lemma part_shorter:
  "takeWhile P (dropWhile Q p) \<noteq> [] \<Longrightarrow> length (dropWhile P (dropWhile Q p)) < length p"
proof -
  assume a: "takeWhile P (dropWhile Q p) \<noteq> []"
  have "length (takeWhile P (dropWhile Q p)) + length (dropWhile P (dropWhile Q p)) = length (dropWhile Q p)"
    by (metis length_append takeWhile_dropWhile_id)
  moreover have "length (dropWhile Q p) \<le> length p" by (rule length_dropWhile_le)
  ultimately show ?thesis using a by (cases "takeWhile P (dropWhile Q p)") auto
qed

text \<open>The loop of normalize_absolute_path; \<open>p\<close> is the rest of the input.\<close>

function normalize_loop :: "string \<Rightarrow> string \<Rightarrow> nat \<Rightarrow> string option" where
  "normalize_loop p out cap =
     (if p = [] then Some out
      else
        (let start = dropWhile (\<lambda>c. c = CHR ''/'') p;
             part = takeWhile (\<lambda>c. c \<noteq> CHR ''/'') start;
             rest = dropWhile (\<lambda>c. c \<noteq> CHR ''/'') start
         in
         if part = [] then Some out
         else if part = ''.'' then normalize_loop rest out cap
         else if part = ''..'' then normalize_loop rest (path_pop out) cap
         else (case path_push out cap part of None \<Rightarrow> None | Some out \<Rightarrow> normalize_loop rest out cap)))"
  by pat_completeness auto

termination by (relation "measure (\<lambda>(p, out, cap). length p)") (auto dest: part_shorter)

declare normalize_loop.simps [simp del]

definition normalize_absolute_path :: "string \<Rightarrow> nat \<Rightarrow> string option" where
  "normalize_absolute_path input out_size =
     (if out_size < 2 \<or> input = [] \<or> hd input \<noteq> CHR ''/'' then None
      else normalize_loop input ''/'' out_size)"

text \<open>\<open>cwd\<close> is the directory of the current task, if there is a task.\<close>

definition resolve_path :: "string \<Rightarrow> string option \<Rightarrow> nat \<Rightarrow> string option" where
  "resolve_path path cwd out_size =
     (if path = [] then None
      else if hd path = CHR ''/'' then normalize_absolute_path path out_size
      else (case cwd of
          None \<Rightarrow> None
        | Some cwd \<Rightarrow>
            if VFS_MAX_PATH < length cwd + (if 1 < length cwd then 1 else 0) + length path + 1 then None
            else normalize_absolute_path (cwd @ (if 1 < length cwd then ''/'' else []) @ path) out_size))"

section \<open>The reference\<close>

fun splits :: "string \<Rightarrow> string list" where
  "splits [] = [[]]"
| "splits (c # cs) = (if c = CHR ''/'' then [] # splits cs else (c # hd (splits cs)) # tl (splits cs))"

definition names :: "string \<Rightarrow> string list" where
  "names p = filter (\<lambda>n. n \<noteq> []) (splits p)"

definition follow :: "string list \<Rightarrow> string \<Rightarrow> string list" where
  "follow st n = (if n = ''.'' then st else if n = ''..'' then butlast st else st @ [n])"

text \<open>The names a path leads to, from the root.\<close>

definition canonical :: "string list \<Rightarrow> string list" where
  "canonical = foldl follow []"

lemma splits_ne [simp]: "splits p \<noteq> []"
  by (cases p) auto

lemma names_Nil [simp]: "names [] = []"
  by (simp add: names_def)

lemma names_slash [simp]: "names (CHR ''/'' # p) = names p"
  by (simp add: names_def)

lemma splits_append: "CHR ''/'' \<notin> set n \<Longrightarrow> splits (n @ p) = (n @ hd (splits p)) # tl (splits p)"
  by (induction n) auto

lemma names_append:
  assumes "name_ok n" "p = [] \<or> hd p = CHR ''/''"
  shows "names (n @ p) = n # names p"
  using assms splits_append [of n "[]"] by (cases p) (auto simp: names_def splits_append name_ok_def)

lemma splits_slash: "splits (q @ CHR ''/'' # r) = splits q @ splits r"
  by (induction q) (simp_all add: hd_append tl_append2)

lemma names_concat: "p = [] \<or> hd p = CHR ''/'' \<Longrightarrow> names (q @ p) = names q @ names p"
  by (cases p) (auto simp: names_def splits_slash)

lemma names_name_ok: "list_all name_ok (names p)"
proof -
  have "\<forall>n \<in> set (splits p). CHR ''/'' \<notin> set n"
  proof (induction p)
    case (Cons c p)
    have "set (tl (splits p)) \<subseteq> set (splits p)" "hd (splits p) \<in> set (splits p)" by (cases "splits p"; auto)+
    then show ?case using Cons by auto
  qed simp
  then show ?thesis by (auto simp: names_def list_all_iff name_ok_def)
qed

lemma names_path_str:
  assumes "list_all name_ok ns"
  shows "names (path_str ns) = ns"
proof -
  have "names (concat (map ((#) (CHR ''/'')) ns)) = ns" using assms
  proof (induction ns)
    case (Cons n ns)
    have "names (n @ concat (map ((#) (CHR ''/'')) ns)) = n # names (concat (map ((#) (CHR ''/'')) ns))"
      using Cons by (intro names_append) (simp_all, cases ns, simp_all)
    then show ?case using Cons by simp
  qed simp
  then show ?thesis by (simp add: path_str_def)
qed

section \<open>Correctness\<close>

lemma pop_loop_name:
  assumes "CHR ''/'' \<notin> set n"
  shows "k \<le> length n \<Longrightarrow> pop_loop (pre @ CHR ''/'' # n) (Suc (length pre + k)) = Suc (length pre)"
proof (induction k)
  case 0
  then show ?case by (subst pop_loop.simps) (simp add: nth_append)
next
  case (Suc k)
  then have "(pre @ CHR ''/'' # n) ! (length pre + Suc k) = n ! k" by (simp add: nth_append)
  moreover have "n ! k \<noteq> CHR ''/''" using assms Suc.prems by (metis Suc_le_eq nth_mem)
  ultimately show ?case using Suc by (subst pop_loop.simps) simp
qed

lemma path_str_last: "path_str (ns @ [n]) = (if ns = [] then [] else path_str ns) @ CHR ''/'' # n"
  by (simp add: path_str_def)

lemma path_str_root: "list_all name_ok ns \<Longrightarrow> 1 < length (path_str ns) \<longleftrightarrow> ns \<noteq> []"
  by (cases ns) (auto simp: path_str_def name_ok_def)

lemma path_pop_names:
  assumes "list_all name_ok ns"
  shows "path_pop (path_str ns) = path_str (butlast ns)"
proof (cases ns rule: rev_cases)
  case Nil
  then show ?thesis by (simp add: path_pop_def path_str_def)
next
  case (snoc xs n)
  define pre where "pre = (if xs = [] then [] else path_str xs)"
  have p: "path_str ns = pre @ CHR ''/'' # n" using path_str_last snoc by (simp add: pre_def)
  have n: "CHR ''/'' \<notin> set n" "n \<noteq> []" and xs: "list_all name_ok xs" using assms snoc by (auto simp: name_ok_def)
  have "pop_loop (path_str ns) (length (path_str ns)) = Suc (length pre)"
    using pop_loop_name [OF n(1), of "length n" pre] by (simp add: p)
  moreover have "pre = [] \<longleftrightarrow> xs = []" using hd_path_str(1) by (simp add: pre_def)
  ultimately show ?thesis using n(2) snoc p by (auto simp: path_pop_def pre_def path_str_def [of "[]"])
qed

text \<open>The characters of a path, without the slash of the root.\<close>

definition path_len :: "string list \<Rightarrow> nat" where
  "path_len ns = length (concat (map ((#) (CHR ''/'')) ns))"

lemma path_push_names:
  assumes "list_all name_ok ns" "n \<noteq> []" "path_len ns + length n + 1 < cap"
  shows "path_push (path_str ns) cap n = Some (path_str (ns @ [n]))"
  using assms path_str_root [OF assms(1)]
  by (cases "ns = []") (simp_all add: path_push_def path_len_def path_str_def Let_def)

lemma names_dropWhile: "names (dropWhile (\<lambda>c. c = CHR ''/'') p) = names p"
  by (induction p) auto

lemma next_part:
  fixes p
  defines "start \<equiv> dropWhile (\<lambda>c. c = CHR ''/'') p"
  defines "part \<equiv> takeWhile (\<lambda>c. c \<noteq> CHR ''/'') start" and "rest \<equiv> dropWhile (\<lambda>c. c \<noteq> CHR ''/'') start"
  assumes "p \<noteq> []" "hd p = CHR ''/''"
  shows "names p = (if part = [] then [] else part # names rest)" "rest = [] \<or> hd rest = CHR ''/''"
    "part \<noteq> [] \<Longrightarrow> name_ok part" "length part + length rest < length p"
proof -
  have s: "start = part @ rest" by (simp add: part_def rest_def)
  show r: "rest = [] \<or> hd rest = CHR ''/''" using hd_dropWhile [of "\<lambda>c. c \<noteq> CHR ''/''" start] by (auto simp: rest_def)
  show ok: "name_ok part" if "part \<noteq> []"
    using that set_takeWhileD [of "CHR ''/''" "\<lambda>c. c \<noteq> CHR ''/''" start] by (auto simp: name_ok_def part_def)
  have "start = []" if "part = []"
  proof (rule ccontr)
    assume ne: "start \<noteq> []"
    then have "hd start \<noteq> CHR ''/''" using hd_dropWhile [of "\<lambda>c. c = CHR ''/''" p] unfolding start_def by blast
    then show False using ne that unfolding part_def by (cases start) auto
  qed
  moreover have "names p = names start" by (simp add: start_def names_dropWhile)
  ultimately show "names p = (if part = [] then [] else part # names rest)"
    using names_append [OF ok r] s by auto
  have "length start < length p" using assms(4,5) length_dropWhile_le [of "\<lambda>c. c = CHR ''/''" "tl p"]
    by (cases p) (auto simp: start_def)
  then show "length part + length rest < length p" by (simp add: s)
qed

lemma path_len_butlast: "path_len (butlast ns) \<le> path_len ns"
  by (cases ns rule: rev_cases) (auto simp: path_len_def)

lemma list_all_butlast: "list_all P xs \<Longrightarrow> list_all P (butlast xs)"
  by (auto simp: list_all_iff dest: in_set_butlastD)

lemma normalize_loop_names:
  "list_all name_ok st \<Longrightarrow> p = [] \<or> hd p = CHR ''/'' \<Longrightarrow> path_len st + length p < cap \<Longrightarrow>
     normalize_loop p (path_str st) cap = Some (path_str (foldl follow st (names p)))"
proof (induction "length p" arbitrary: p st rule: less_induct)
  case less
  show ?case
  proof (cases "p = []")
    case True
    then show ?thesis by (simp add: normalize_loop.simps)
  next
    case False
    define part rest where "part = takeWhile (\<lambda>c. c \<noteq> CHR ''/'') (dropWhile (\<lambda>c. c = CHR ''/'') p)"
      and "rest = dropWhile (\<lambda>c. c \<noteq> CHR ''/'') (dropWhile (\<lambda>c. c = CHR ''/'') p)"
    have hd: "hd p = CHR ''/''" using less.prems(2) False by blast
    note N = next_part [OF False hd, folded part_def rest_def]
    have loop: "normalize_loop p (path_str st) cap =
      (if part = [] then Some (path_str st)
       else if part = ''.'' then normalize_loop rest (path_str st) cap
       else if part = ''..'' then normalize_loop rest (path_str (butlast st)) cap
       else (case path_push (path_str st) cap part of None \<Rightarrow> None | Some out \<Rightarrow> normalize_loop rest out cap))"
      using False path_pop_names [OF less.prems(1)]
      unfolding part_def rest_def by (subst normalize_loop.simps) (simp add: Let_def)
    have IH: "normalize_loop rest (path_str st') cap = Some (path_str (foldl follow st' (names rest)))"
      if "list_all name_ok st'" "path_len st' \<le> path_len st + length part + 1" for st'
      using N(2,4) less.prems(3) that by (intro less.hyps) auto
    show ?thesis
    proof (cases "part = []")
      case True
      then show ?thesis using loop N(1) by simp
    next
      case ne: False
      note ok = N(3) [OF ne]
      have push: "path_push (path_str st) cap part = Some (path_str (st @ [part]))"
        using N(4) less.prems(3) by (intro path_push_names [OF less.prems(1) ne]) simp
      have "normalize_loop rest (path_str (st @ [part])) cap = Some (path_str (foldl follow (st @ [part]) (names rest)))"
        using less.prems(1) ok by (intro IH) (auto simp: path_len_def)
      moreover have "normalize_loop rest (path_str (butlast st)) cap = Some (path_str (foldl follow (butlast st) (names rest)))"
        using path_len_butlast [of st] by (intro IH list_all_butlast less.prems(1)) simp
      moreover have "normalize_loop rest (path_str st) cap = Some (path_str (foldl follow st (names rest)))"
        using less.prems(1) by (intro IH) auto
      ultimately show ?thesis using loop N(1) push ne by (auto simp: follow_def)
    qed
  qed
qed

lemma canonical_names:
  assumes "list_all name_ok ns"
  shows "list_all (\<lambda>n. name_ok n \<and> n \<noteq> ''.'' \<and> n \<noteq> ''..'') (canonical ns)"
proof -
  have "list_all (\<lambda>n. name_ok n \<and> n \<noteq> ''.'' \<and> n \<noteq> ''..'') (foldl follow st ns)"
    if "list_all (\<lambda>n. name_ok n \<and> n \<noteq> ''.'' \<and> n \<noteq> ''..'') st" for st
    using assms that
  proof (induction ns arbitrary: st)
    case (Cons n ns)
    have "list_all (\<lambda>n. name_ok n \<and> n \<noteq> ''.'' \<and> n \<noteq> ''..'') (follow st n)"
      using Cons.prems list_all_butlast by (auto simp: follow_def)
    then show ?case using Cons by simp
  qed simp
  then show ?thesis by (simp add: canonical_def)
qed

lemma canonical_fixed:
  assumes "list_all (\<lambda>n. name_ok n \<and> n \<noteq> ''.'' \<and> n \<noteq> ''..'') ns"
  shows "canonical ns = ns"
proof -
  have "foldl follow st ns = st @ ns" for st
    using assms by (induction ns arbitrary: st) (auto simp: follow_def)
  then show ?thesis by (simp add: canonical_def)
qed

lemma canonical_len: "path_len (canonical (names (CHR ''/'' # p))) \<le> Suc (length p)"
proof -
  have 1: "path_len (foldl follow st ns) \<le> path_len st + path_len ns" for st ns
  proof (induction ns arbitrary: st)
    case (Cons n ns)
    have "path_len (follow st n) \<le> path_len st + Suc (length n)"
      using path_len_butlast [of st] by (auto simp: follow_def path_len_def)
    moreover have "path_len (foldl follow (follow st n) ns) \<le> path_len (follow st n) + path_len ns" by (rule Cons)
    moreover have "path_len (n # ns) = Suc (length n) + path_len ns" by (simp add: path_len_def)
    ultimately show ?case by simp
  qed (simp add: path_len_def)
  have "path_len (names p) \<le> Suc (length p)"
  proof -
    have "path_len (splits p) = Suc (length p)"
    proof (induction p)
      case (Cons c p)
      have "path_len (splits p) = Suc (length (hd (splits p))) + path_len (tl (splits p))" by (cases "splits p") (auto simp: path_len_def)
      then show ?case using Cons by (auto simp: path_len_def)
    qed (simp add: path_len_def)
    moreover have "path_len (filter P ns) \<le> path_len ns" for P ns by (induction ns) (auto simp: path_len_def)
    ultimately show ?thesis by (metis names_def)
  qed
  then show ?thesis using 1 [of "[]" "names p"] by (simp add: canonical_def path_len_def)
qed

lemma normalize_absolute_names:
  assumes "p = CHR ''/'' # q" "length p < cap"
  shows "normalize_absolute_path p cap = Some (path_str (canonical (names p)))"
  using normalize_loop_names [of "[]" p cap] assms
  by (simp add: normalize_absolute_path_def path_len_def path_str_def [of "[]"] canonical_def)

text \<open>The path that is normalised: the given one, or the one behind the current directory.\<close>

definition joined :: "string \<Rightarrow> string \<Rightarrow> string" where
  "joined cwd path = (if hd path = CHR ''/'' then path else cwd @ (if 1 < length cwd then ''/'' else []) @ path)"

lemma names_joined:
  "cwd = CHR ''/'' # w \<Longrightarrow> names (joined cwd path) = (if hd path = CHR ''/'' then names path else names cwd @ names path)"
  using names_concat [of "CHR ''/'' # path" cwd] by (cases w) (auto simp: joined_def)

lemma joined_slash: "cwd = CHR ''/'' # w \<Longrightarrow> path \<noteq> [] \<Longrightarrow> \<exists>q. joined cwd path = CHR ''/'' # q"
  by (cases path; cases "hd path = CHR ''/''") (simp_all add: joined_def)

lemma resolve_joined:
  "path \<noteq> [] \<Longrightarrow> resolve_path path (Some cwd) VFS_MAX_PATH =
     (if hd path \<noteq> CHR ''/'' \<and> VFS_MAX_PATH \<le> length (joined cwd path) then None
      else normalize_absolute_path (joined cwd path) VFS_MAX_PATH)"
  by (simp add: resolve_path_def joined_def Suc_le_eq not_le less_Suc_eq_le)

lemma path_str_len: "length (path_str ns) = (if ns = [] then 1 else path_len ns)"
  by (simp add: path_str_def path_len_def)

text \<open>C19: resolve_path computes the reference: the names of the current directory and of the path, followed
  one after the other with a stack, printed as an absolute path; it refuses the empty path and a
  joined path that does not fit its buffer. Its results have no empty, \<open>.\<close> or \<open>..\<close> part, fit the
  buffer of vfs_lookup and are left alone when resolved again.\<close>

theorem resolve_path_correct:
  assumes cwd: "cwd = CHR ''/'' # w" and path: "length path < VFS_MAX_PATH"
  shows "resolve_path path (Some cwd) VFS_MAX_PATH =
      (if path = [] \<or> VFS_MAX_PATH \<le> length (joined cwd path) then None
       else Some (path_str (canonical (if hd path = CHR ''/'' then names path else names cwd @ names path)))) \<and>
    (\<forall>out. resolve_path path (Some cwd) VFS_MAX_PATH = Some out \<longrightarrow>
       resolve_path out (Some cwd) VFS_MAX_PATH = Some out \<and> length out < VFS_MAX_PATH \<and>
       (\<exists>ns. out = path_str ns \<and> list_all (\<lambda>n. name_ok n \<and> n \<noteq> ''.'' \<and> n \<noteq> ''..'') ns))"
proof -
  let ?j = "joined cwd path" and ?c = "canonical (names (joined cwd path))"
  have res: "resolve_path path (Some cwd) VFS_MAX_PATH = (if path = [] \<or> VFS_MAX_PATH \<le> length ?j then None else Some (path_str ?c))"
  proof (cases "path = [] \<or> VFS_MAX_PATH \<le> length ?j")
    case True
    then show ?thesis using path by (auto simp: resolve_path_def joined_def split: if_splits)
  next
    case False
    then obtain q where q: "?j = CHR ''/'' # q" using joined_slash [OF cwd] by blast
    have "length ?j < VFS_MAX_PATH" using False by simp
    then show ?thesis using False normalize_absolute_names [OF q] resolve_joined [of path cwd] by simp
  qed
  have "resolve_path out (Some cwd) VFS_MAX_PATH = Some out \<and> length out < VFS_MAX_PATH \<and>
       (\<exists>ns. out = path_str ns \<and> list_all (\<lambda>n. name_ok n \<and> n \<noteq> ''.'' \<and> n \<noteq> ''..'') ns)"
    if "resolve_path path (Some cwd) VFS_MAX_PATH = Some out" for out
  proof -
    have out: "out = path_str ?c" and fit: "path \<noteq> []" "length ?j < VFS_MAX_PATH" using that res by (auto split: if_splits)
    have c: "list_all (\<lambda>n. name_ok n \<and> n \<noteq> ''.'' \<and> n \<noteq> ''..'') ?c" by (rule canonical_names [OF names_name_ok])
    then have c': "list_all name_ok ?c" by (simp add: list_all_iff)
    obtain q where "?j = CHR ''/'' # q" using joined_slash [OF cwd fit(1)] by blast
    then have len: "length out < VFS_MAX_PATH"
      using canonical_len [of q] fit(2) by (auto simp: out path_str_len VFS_MAX_PATH_def)
    obtain o' where o': "out = CHR ''/'' # o'" using hd_path_str [of ?c] out by (metis list.collapse)
    have "normalize_absolute_path out VFS_MAX_PATH = Some out"
      using normalize_absolute_names [OF o' len] names_path_str [OF c'] canonical_fixed [OF c] out by simp
    then have "resolve_path out (Some cwd) VFS_MAX_PATH = Some out" using o' by (simp add: resolve_path_def)
    then show ?thesis using len c out by blast
  qed
  then show ?thesis using res names_joined [OF cwd] by auto
qed

theorem resolve_path_correct_witness:
  "resolve_path ''../b//./c/'' (Some ''/usr/a'') 256 = Some ''/usr/b/c''"
  using resolve_path_correct [of "''/usr/a''" "''usr/a''" "''../b//./c/''"]
  by (simp add: VFS_MAX_PATH_def joined_def names_def canonical_def follow_def path_str_def)

end
