(* ===== verification/Paging.thy ===== *)
theory Paging
  imports Vmm Pmm_Boot
begin

text \<open>
  What vmm_map_page, vmm_unmap_page and the page-fault handler do to an address space. The tables
  under a root are seen as a tree of paths of indices (\<open>walk\<close>), whose leaves map pages (\<open>leaf\<close>). In a
  well-formed space (\<open>space_ok\<close>) every table is a frame of its own, in use and reached by one path, so
  that the change of one entry affects the paths through it only. Each operation is described by what
  it does to the leaves and by what it leaves alone (\<open>vm_grows\<close>).
\<close>

declare block_numeral [simp del] bytes_at_numeral [simp del]

section \<open>Words in memory\<close>

lemma bit_read_u16: "n < 16 \<Longrightarrow> bit (read_u16 m a) n = bit (m (a + of_nat (n div 8))) (n mod 8)"
proof (cases "n < 8")
  case False
  assume "n < 16"
  with False have "n div 8 = 1" "n mod 8 = n - 8" by presburger+
  then show ?thesis using False \<open>n < 16\<close>
    by (auto simp: read_u16_def bit_simps not_less dest: bit_imp_le_length)
next
  case True
  then have "n div 8 = 0" "n mod 8 = n" by auto
  then show ?thesis using True by (simp add: read_u16_def bit_simps)
qed

lemma bit_read_u32: "n < 32 \<Longrightarrow> bit (read_u32 m a) n = bit (m (a + of_nat (n div 8))) (n mod 8)"
proof (cases "n < 16")
  case False
  assume n: "n < 32"
  from False obtain k where k: "n = 16 + k" by (metis le_Suc_ex not_less)
  have "(16 + k) div 8 = 2 + k div 8" "(16 + k) mod 8 = k mod 8" by presburger+
  moreover have "\<not> bit (read_u16 m a) (16 + k)" by (simp add: impossible_bit)
  ultimately show ?thesis using n unfolding k by (simp add: read_u32_def bit_simps bit_read_u16 add.assoc)
next
  case True
  then show ?thesis by (simp add: read_u32_def bit_simps bit_read_u16)
qed

lemma bit_read_u64: "n < 64 \<Longrightarrow> bit (read_u64 m a) n = bit (m (a + of_nat (n div 8))) (n mod 8)"
proof (cases "n < 32")
  case False
  assume n: "n < 64"
  from False obtain k where k: "n = 32 + k" by (metis le_Suc_ex not_less)
  have "(32 + k) div 8 = 4 + k div 8" "(32 + k) mod 8 = k mod 8" by presburger+
  moreover have "\<not> bit (read_u32 m a) (32 + k)" by (simp add: impossible_bit)
  ultimately show ?thesis using n unfolding k by (simp add: read_u64_def bit_simps bit_read_u32 add.assoc)
next
  case True
  then show ?thesis by (simp add: read_u64_def bit_simps bit_read_u32)
qed

lemma read_u64_cong: "(\<And>k. k < 8 \<Longrightarrow> m' (b + of_nat k) = m (a + of_nat k)) \<Longrightarrow> read_u64 m' b = read_u64 m a"
  by (rule bit_word_eqI) (simp add: bit_read_u64)

lemma write_u64_byte:
  assumes "k < 8"
  shows "write_u64 a v m (a + of_nat k) = ucast (drop_bit (8 * k) v)"
  using assms by (simp add: write_u64_def word_less_nat_alt unat_of_nat)

lemma read_write_u64 [simp]: "read_u64 (write_u64 a v m) a = v"
proof (rule bit_word_eqI)
  fix n assume n: "n < LENGTH(64)"
  then have "n div 8 < 8" by simp
  then show "bit (read_u64 (write_u64 a v m) a) n = bit v n"
    using n by (simp add: bit_read_u64 write_u64_byte bit_simps)
qed

lemma write_u64_other: "b \<notin> block a 8 \<Longrightarrow> write_u64 a v m b = m b"
proof -
  assume "b \<notin> block a 8"
  have "\<not> b - a < 8"
  proof
    assume "b - a < 8"
    then have "unat (b - a) < 8" by (simp add: word_less_nat_alt)
    then have "b \<in> block a 8" unfolding block_def by (intro CollectI exI [of _ "unat (b - a)"]) simp
    then show False using \<open>b \<notin> block a 8\<close> by simp
  qed
  then show ?thesis by (simp add: write_u64_def)
qed

lemma read_write_u64_other:
  assumes "block a 8 \<inter> block b 8 = {}"
  shows "read_u64 (write_u64 a v m) b = read_u64 m b"
proof (rule read_u64_cong)
  fix k :: nat assume "k < 8"
  then have "b + of_nat k \<in> block b 8" by (auto simp: block_def)
  then show "write_u64 a v m (b + of_nat k) = m (b + of_nat k)"
    using assms by (intro write_u64_other) blast
qed

lemma write_u64_same: "write_u64 a (read_u64 m a) m = m"
proof
  fix b
  show "write_u64 a (read_u64 m a) m b = m b"
  proof (cases "b - a < 8")
    case True
    let ?k = "unat (b - a)"
    have k: "?k < 8" using True by (simp add: word_less_nat_alt)
    have b: "a + of_nat ?k = b" by simp
    have "ucast (drop_bit (8 * ?k) (read_u64 m a)) = m b"
    proof (rule bit_word_eqI)
      fix n assume n: "n < LENGTH(8)"
      then have "bit (read_u64 m a) (8 * ?k + n) = bit (m (a + of_nat ((8 * ?k + n) div 8))) ((8 * ?k + n) mod 8)"
        using k by (intro bit_read_u64) simp
      then show "bit (ucast (drop_bit (8 * ?k) (read_u64 m a)) :: u8) n = bit (m b) n"
        using n k by (simp add: bit_simps)
    qed
    then show ?thesis using True by (simp add: write_u64_def)
  qed (simp add: write_u64_def)
qed

section \<open>Frames\<close>

text \<open>A page-aligned address that is not NULL.\<close>

definition frame_addr :: "u64 \<Rightarrow> bool" where
  "frame_addr t \<longleftrightarrow> unat t mod 4096 = 0 \<and> t \<noteq> 0"

lemma frame_end: "unat (t::u64) mod 4096 = 0 \<Longrightarrow> unat t + 4096 \<le> 2 ^ 64"
proof -
  assume a: "unat t mod 4096 = 0"
  have "unat t < 2 ^ 52 * 4096" using unsigned_less [of t] by simp
  then have "unat t div 4096 < 2 ^ 52" by (rule less_mult_imp_div_less)
  then have "unat t div 4096 * 4096 + 4096 \<le> 2 ^ 64" by simp
  then show ?thesis using a by (metis add.right_neutral div_mult_mod_eq)
qed

lemma unat_pte_addr:
  assumes "frame_addr t" and "i < 512"
  shows "unat (pte_addr t i) = unat t + 8 * unat i"
proof -
  have i: "unat i < 512" using assms(2) by (simp add: word_less_nat_alt)
  have "unat (8 * i) = 8 * unat i" using i by (simp add: unat_word_ariths)
  then show ?thesis using frame_end [of t] assms(1) i
    by (simp add: pte_addr_def frame_addr_def unat_word_ariths)
qed

lemma pte_block_in_frame:
  assumes "frame_addr t" and "i < 512"
  shows "b \<in> block (pte_addr t i) 8 \<longleftrightarrow> unat t + 8 * unat i \<le> unat b \<and> unat b < unat t + 8 * unat i + 8"
proof -
  have "unat i < 512" using assms(2) by (simp add: word_less_nat_alt)
  then show ?thesis using block_less [of "pte_addr t i" 8 b] unat_pte_addr [OF assms] frame_end [of t] assms
    by (simp add: frame_addr_def)
qed

lemma in_frame_iff:
  assumes "frame_addr t"
  shows "b \<in> block t 4096 \<longleftrightarrow> unat b div 4096 = unat t div 4096"
proof -
  have "b \<in> block t 4096 \<longleftrightarrow> unat t \<le> unat b \<and> unat b < unat t + 4096"
    using block_less [of t 4096 b] frame_end [of t] assms by (simp add: frame_addr_def)
  also have "\<dots> \<longleftrightarrow> unat b div 4096 = unat t div 4096"
    using assms by (auto simp: frame_addr_def)
  finally show ?thesis .
qed

lemma frames_disjoint:
  assumes "frame_addr t" and "frame_addr t'" and "t \<noteq> t'"
  shows "block t 4096 \<inter> block t' 4096 = {}"
proof -
  have "unat t div 4096 \<noteq> unat t' div 4096"
    using assms unfolding frame_addr_def by (metis div_mult_mod_eq word_unat_eq_iff)
  then show ?thesis using in_frame_iff [OF assms(1)] in_frame_iff [OF assms(2)] by auto
qed

lemma pte_block_subset:
  assumes "frame_addr t" and "i < 512"
  shows "block (pte_addr t i) 8 \<subseteq> block t 4096"
proof
  fix b assume "b \<in> block (pte_addr t i) 8"
  moreover have "unat i < 512" using assms(2) by (simp add: word_less_nat_alt)
  ultimately have "unat t \<le> unat b \<and> unat b < unat t + 4096"
    using pte_block_in_frame [OF assms] by auto
  then show "b \<in> block t 4096"
    using block_less [of t 4096 b] frame_end [of t] assms by (simp add: frame_addr_def)
qed

lemma pte_blocks_disjoint:
  assumes "frame_addr t" and "frame_addr t'" and "i < 512" and "i' < 512" and "t \<noteq> t' \<or> i \<noteq> i'"
  shows "block (pte_addr t i) 8 \<inter> block (pte_addr t' i') 8 = {}"
proof (cases "t = t'")
  case True
  then have "unat i \<noteq> unat i'" using assms(5) by (simp add: word_unat_eq_iff)
  then show ?thesis using pte_block_in_frame [OF assms(1,3)] pte_block_in_frame [OF assms(2,4)] True by fastforce
next
  case False
  then show ?thesis using frames_disjoint [OF assms(1,2)] pte_block_subset assms by blast
qed

lemma pte_write:
  assumes "frame_addr t" and "frame_addr t'" and "i < 512" and "i' < 512"
  shows "pte (write_u64 (pte_addr t i) v m) t' i' = (if t' = t \<and> i' = i then v else pte m t' i')"
  using pte_blocks_disjoint [OF assms] by (auto simp: pte_def read_write_u64_other)

lemma pte_addr_nonzero:
  assumes "frame_addr t" and "i < 512"
  shows "pte_addr t i \<noteq> 0"
proof -
  have "0 < unat t" using assms(1) by (simp add: frame_addr_def unat_gt_0)
  then show ?thesis using unat_pte_addr [OF assms] by (metis add_gr_0 less_numeral_extra(3) unat_0)
qed

text \<open>Changes of memory that leave a frame's bytes alone leave its entries alone.\<close>

lemma pte_cong_frame:
  assumes "frame_addr t" and "i < 512" and "\<And>b. b \<in> block t 4096 \<Longrightarrow> m' b = m b"
  shows "pte m' t i = pte m t i"
  unfolding pte_def
proof (rule read_u64_cong)
  fix k :: nat assume "k < 8"
  then have "pte_addr t i + of_nat k \<in> block (pte_addr t i) 8" by (auto simp: block_def)
  then show "m' (pte_addr t i + of_nat k) = m (pte_addr t i + of_nat k)"
    using assms(3) pte_block_subset [OF assms(1,2)] by blast
qed

lemma memset_page: "memset p c PAGE_SIZE m b = (if b \<in> block p 4096 then ucast c else m b)"
  by (simp add: memset_def memset_loop_spec PAGE_SIZE_def)

lemma read_u64_zero: "(\<And>k. k < 8 \<Longrightarrow> m (a + of_nat k) = 0) \<Longrightarrow> read_u64 m a = 0"
  by (rule bit_word_eqI) (simp add: bit_read_u64)

lemma pte_zero_page:
  assumes "frame_addr t" and "frame_addr p" and "i < 512"
  shows "pte (memset p 0 PAGE_SIZE m) t i = (if t = p then 0 else pte m t i)"
proof (cases "t = p")
  case True
  have "read_u64 (memset p 0 PAGE_SIZE m) (pte_addr p i) = 0"
  proof (rule read_u64_zero)
    fix k :: nat assume "k < 8"
    then have "pte_addr p i + of_nat k \<in> block (pte_addr p i) 8" by (auto simp: block_def)
    then have "pte_addr p i + of_nat k \<in> block p 4096" using pte_block_subset [OF assms(2,3)] by blast
    then show "memset p 0 PAGE_SIZE m (pte_addr p i + of_nat k) = 0" by (simp add: memset_page)
  qed
  then show ?thesis using True by (simp add: pte_def)
next
  case False
  then show ?thesis using frames_disjoint [OF assms(1,2)] assms
    by (auto intro!: pte_cong_frame simp: memset_page)
qed

section \<open>Entry bits\<close>

lemma pte_has_bits [simp]:
  "pte_has e VMM_PRESENT \<longleftrightarrow> bit e 0" "pte_has e VMM_WRITE \<longleftrightarrow> bit e 1" "pte_has e VMM_USER \<longleftrightarrow> bit e 2"
  "pte_has e VMM_HUGE \<longleftrightarrow> bit e 7" "pte_has e VMM_COW \<longleftrightarrow> bit e 9"
  using and_exp_eq_0 [of 0 e] and_exp_eq_0 [of 1 e] and_exp_eq_0 [of 2 e] and_exp_eq_0 [of 7 e] and_exp_eq_0 [of 9 e]
  by (simp_all add: pte_has_def VMM_PRESENT_def VMM_WRITE_def VMM_USER_def VMM_HUGE_def VMM_COW_def)

lemma PHYS_MASK_eq: "VMM_PHYS_MASK = push_bit 12 (mask 40)"
  by (simp add: VMM_PHYS_MASK_def mask_eq_exp_minus_1)

lemma bit_flags [simp]:
  "bit VMM_PRESENT n \<longleftrightarrow> n = 0" "bit VMM_WRITE n \<longleftrightarrow> n = 1" "bit VMM_USER n \<longleftrightarrow> n = 2"
  "bit VMM_HUGE n \<longleftrightarrow> n = 7" "bit VMM_COW n \<longleftrightarrow> n = 9"
  "bit VMM_PHYS_MASK n \<longleftrightarrow> 12 \<le> n \<and> n < 52"
  unfolding VMM_PRESENT_def VMM_WRITE_def VMM_USER_def VMM_HUGE_def VMM_COW_def PHYS_MASK_eq bit_push_bit_iff
  by (auto simp: bit_mask_iff bit_1_iff)

lemma phys_mask_aligned: "unat (e AND VMM_PHYS_MASK) mod 4096 = 0"
proof -
  have "take_bit 12 (e AND VMM_PHYS_MASK) = 0"
    by (rule bit_word_eqI) (simp add: bit_simps)
  then have "unat (take_bit 12 (e AND VMM_PHYS_MASK)) = 0" by simp
  then show ?thesis by (simp add: take_bit_eq_mod unat_mod)
qed

lemma aligned_no_low_bits:
  assumes "unat (t::u64) mod 4096 = 0" and "n < 12"
  shows "\<not> bit t n"
proof -
  have "take_bit 12 t = 0"
  proof (rule word_unat_eq_iff [THEN iffD2])
    show "unat (take_bit 12 t) = unat (0::u64)" using assms(1) by (simp add: take_bit_eq_mod unat_mod)
  qed
  then have "\<not> bit (take_bit 12 t) n" by simp
  then show ?thesis using assms(2) by (simp add: bit_take_bit_iff)
qed

section \<open>Walking the tree\<close>

text \<open>
  The table an entry points to, the table at the end of a path of indices, and the entry that maps a
  page: with \<open>True\<close> a 2 MiB entry of a page directory, with \<open>False\<close> an entry of a page table.
\<close>

definition link :: "u64 \<Rightarrow> u64 option" where
  "link e = (if bit e 0 \<and> \<not> bit e 7 then Some (e AND VMM_PHYS_MASK) else None)"

fun walk :: "mem \<Rightarrow> u64 \<Rightarrow> u64 list \<Rightarrow> u64 option" where
  "walk m t [] = Some t"
| "walk m t (i # is) = do { t \<leftarrow> link (pte m t i); walk m t is }"

definition leaf :: "mem \<Rightarrow> u64 \<Rightarrow> u64 \<Rightarrow> u64 \<Rightarrow> u64 \<Rightarrow> u64 \<Rightarrow> (bool \<times> u64) option" where
  "leaf m root a b c d =
     (case walk m root [a, b, c] of
        Some pt \<Rightarrow> if bit (pte m pt d) 0 then Some (False, pte m pt d) else None
      | None \<Rightarrow>
          (case walk m root [a, b] of
             Some pd \<Rightarrow> if bit (pte m pd c) 0 then Some (True, pte m pd c) else None
           | None \<Rightarrow> None))"

definition path_ok :: "u64 list \<Rightarrow> bool" where
  "path_ok p \<longleftrightarrow> length p \<le> 3 \<and> (\<forall>i \<in> set p. i < 512)"

definition tables :: "mem \<Rightarrow> u64 \<Rightarrow> u64 set" where
  "tables m root = {t. \<exists>p. path_ok p \<and> walk m root p = Some t}"

text \<open>
  A well-formed address space: its tables are proper frames, none of them free, every table is
  reached by one path only, and large pages occur in page directories only.
\<close>

definition tree_ok :: "mem \<Rightarrow> u64 \<Rightarrow> bool" where
  "tree_ok m root \<longleftrightarrow>
     (\<forall>t \<in> tables m root. frame_addr t) \<and>
     (\<forall>p q t. path_ok p \<and> path_ok q \<and> walk m root p = Some t \<and> walk m root q = Some t \<longrightarrow> p = q) \<and>
     (\<forall>p t i. path_ok (p @ [i]) \<and> walk m root p = Some t \<and> bit (pte m t i) 7 \<longrightarrow> length p = 2 \<and> bit (pte m t i) 0)"

definition space_ok :: "vmm_state \<Rightarrow> u64 \<Rightarrow> bool" where
  "space_ok s root \<longleftrightarrow>
     tree_ok (vm_mem s) root \<and> pmm_inv (vm_pmm s) \<and> 0 \<notin> avail_frames (vm_pmm s) \<and>
     tables (vm_mem s) root \<inter> avail_frames (vm_pmm s) = {}"

lemma walk_append: "walk m t (p @ q) = do { t' \<leftarrow> walk m t p; walk m t' q }"
  by (induction p arbitrary: t) (auto split: Option.bind_splits)

lemma walk_snoc: "walk m t (p @ [i]) = do { t' \<leftarrow> walk m t p; link (pte m t' i) }"
  by (simp add: walk_append)

lemma path_ok_Nil [simp]: "path_ok []"
  by (simp add: path_ok_def)

lemma path_ok_snocD: "path_ok (p @ [i]) \<Longrightarrow> path_ok p \<and> i < 512 \<and> length p \<le> 2"
  by (auto simp: path_ok_def)

lemma tablesI: "path_ok p \<Longrightarrow> walk m root p = Some t \<Longrightarrow> t \<in> tables m root"
  by (auto simp: tables_def)

lemma tree_okD:
  assumes "tree_ok m root"
  shows "path_ok p \<Longrightarrow> walk m root p = Some t \<Longrightarrow> frame_addr t"
    and "path_ok p \<Longrightarrow> path_ok q \<Longrightarrow> walk m root p = Some t \<Longrightarrow> walk m root q = Some t \<Longrightarrow> p = q"
    and "path_ok (p @ [i]) \<Longrightarrow> walk m root p = Some t \<Longrightarrow> bit (pte m t i) 7 \<Longrightarrow> length p = 2 \<and> bit (pte m t i) 0"
  using assms by (auto simp: tree_ok_def tables_def)

text \<open>The tree depends on the links of the tables it reaches.\<close>

lemma walk_cong:
  assumes "\<And>p t i. path_ok (p @ [i]) \<Longrightarrow> walk m root p = Some t \<Longrightarrow> link (pte m' t i) = link (pte m t i)"
    and "path_ok q"
  shows "walk m' root q = walk m root q"
  using assms(2)
proof (induction q rule: rev_induct)
  case (snoc i q)
  then have "walk m' root q = walk m root q" using path_ok_snocD by blast
  then show ?case using assms(1) [OF snoc.prems] by (auto simp: walk_snoc split: Option.bind_splits)
qed simp

text \<open>Changing the link of one entry affects the paths through that entry only.\<close>

lemma walk_change:
  assumes ok: "tree_ok m root" and p: "walk m root p = Some t" "path_ok p"
    and eq: "\<And>q t' j. path_ok (q @ [j]) \<Longrightarrow> walk m root q = Some t' \<Longrightarrow> (t', j) \<noteq> (t, i) \<Longrightarrow>
        link (pte m' t' j) = link (pte m t' j)"
    and q: "path_ok q" "\<And>r. q \<noteq> p @ i # r"
  shows "walk m' root q = walk m root q"
  using q
proof (induction q rule: rev_induct)
  case (snoc j q)
  have "q \<noteq> p @ i # r" for r using snoc.prems(2) [of "r @ [j]"] by auto
  then have IH: "walk m' root q = walk m root q" using snoc path_ok_snocD by blast
  show ?case
  proof (cases "walk m root q")
    case (Some t')
    have "(t', j) \<noteq> (t, i)"
    proof
      assume "(t', j) = (t, i)"
      then have "q = p" using tree_okD(2) [OF ok _ p(2) _ p(1)] Some path_ok_snocD [OF snoc.prems(1)] by auto
      then show False using snoc.prems(2) [of "[]"] \<open>(t', j) = (t, i)\<close> by auto
    qed
    then show ?thesis using eq [OF snoc.prems(1) Some] IH Some by (simp add: walk_snoc)
  qed (simp add: walk_snoc IH)
qed simp

lemma tree_ok_cong:
  assumes ok: "tree_ok m root"
    and eq: "\<And>p t i. path_ok (p @ [i]) \<Longrightarrow> walk m root p = Some t \<Longrightarrow> link (pte m' t i) = link (pte m t i)"
    and hi: "\<And>p t i. path_ok (p @ [i]) \<Longrightarrow> walk m root p = Some t \<Longrightarrow>
        bit (pte m' t i) 0 = bit (pte m t i) 0 \<and> bit (pte m' t i) 7 = bit (pte m t i) 7"
  shows "tree_ok m' root" "tables m' root = tables m root" "\<And>p. path_ok p \<Longrightarrow> walk m' root p = walk m root p"
proof -
  have w: "walk m' root p = walk m root p" if "path_ok p" for p by (rule walk_cong [OF eq that])
  then show "walk m' root p = walk m root p" if "path_ok p" for p using that .
  show t: "tables m' root = tables m root" using w by (auto simp: tables_def)
  have a: "\<forall>t \<in> tables m' root. frame_addr t" using ok t by (simp add: tree_ok_def)
  have b: "p = q" if "path_ok p" "path_ok q" "walk m' root p = Some t" "walk m' root q = Some t" for p q t
    using tree_okD(2) [OF ok that(1,2)] that w by simp
  have c: "length p = 2 \<and> bit (pte m' t i) 0"
    if "path_ok (p @ [i])" "walk m' root p = Some t" "bit (pte m' t i) 7" for p t i
    using tree_okD(3) [OF ok that(1)] hi [OF that(1)] that w path_ok_snocD [OF that(1)] by metis
  show "tree_ok m' root" unfolding tree_ok_def using a b c by blast
qed

section \<open>Memory changes that keep the tree\<close>

text \<open>A write to an entry of a page table, the last level.\<close>

lemma tree_ok_write_leaf:
  fixes v :: u64
  assumes ok: "tree_ok m root" and p: "walk m root p = Some t" "path_ok p" "length p = 3" and i: "i < 512"
  defines "m' \<equiv> write_u64 (pte_addr t i) v m"
  shows "tree_ok m' root" "tables m' root = tables m root" "\<And>q. path_ok q \<Longrightarrow> walk m' root q = walk m root q"
proof -
  have *: "pte m' t' j = pte m t' j" if "path_ok q" "length q \<le> 2" "j < 512" "walk m root q = Some t'" for q t' j
  proof -
    have "t' \<noteq> t" using tree_okD(2) [OF ok that(1) p(2)] that p by auto
    then show ?thesis unfolding m'_def
      using pte_write [OF tree_okD(1) [OF ok p(2,1)] tree_okD(1) [OF ok that(1,4)] i that(3)] by simp
  qed
  have A: "\<And>q t' j. path_ok (q @ [j]) \<Longrightarrow> walk m root q = Some t' \<Longrightarrow> link (pte m' t' j) = link (pte m t' j)"
    using * path_ok_snocD by metis
  have B: "\<And>q t' j. path_ok (q @ [j]) \<Longrightarrow> walk m root q = Some t' \<Longrightarrow>
      bit (pte m' t' j) 0 = bit (pte m t' j) 0 \<and> bit (pte m' t' j) 7 = bit (pte m t' j) 7"
    using * path_ok_snocD by metis
  show "tree_ok m' root" by (rule tree_ok_cong(1) [OF ok A B])
  show "tables m' root = tables m root" by (rule tree_ok_cong(2) [OF ok A B])
  show "walk m' root q = walk m root q" if "path_ok q" for q by (rule tree_ok_cong(3) [OF ok A B that])
qed

lemma leaf_write_leaf:
  assumes ok: "tree_ok m root" and p: "walk m root [a0, b0, c0] = Some t" "path_ok [a0, b0, c0]" and d0: "d0 < 512"
    and idx: "path_ok [a, b, c]" "d < 512"
  shows "leaf (write_u64 (pte_addr t d0) v m) root a b c d =
    (if (a, b, c, d) = (a0, b0, c0, d0) then if bit v 0 then Some (False, v) else None else leaf m root a b c d)"
proof -
  let ?m = "write_u64 (pte_addr t d0) v m"
  note w = tree_ok_write_leaf(3) [OF ok p(1,2) _ d0, of _ v, simplified]
  have idx2: "path_ok [a, b]" using idx by (simp add: path_ok_def)
  have c: "c < 512" using idx by (simp add: path_ok_def)
  have ft: "frame_addr t" by (rule tree_okD(1) [OF ok p(2,1)])
  have pt: "pte ?m pt d = (if (a, b, c, d) = (a0, b0, c0, d0) then v else pte m pt d)"
    if "walk m root [a, b, c] = Some pt" for pt
  proof -
    have "pt = t \<longleftrightarrow> [a, b, c] = [a0, b0, c0]" using tree_okD(2) [OF ok idx(1) p(2) that] p(1) that by auto
    then show ?thesis using pte_write [OF ft tree_okD(1) [OF ok idx(1) that] d0 idx(2), of v m] by auto
  qed
  have pd: "pte ?m pd c = pte m pd c" if "walk m root [a, b] = Some pd" for pd
  proof -
    have "pd \<noteq> t" using tree_okD(2) [OF ok idx2 p(2) that] p(1) by auto
    then show ?thesis using pte_write [OF ft tree_okD(1) [OF ok idx2 that] d0 c, of v m] by auto
  qed
  show ?thesis
  proof (cases "walk m root [a, b, c]")
    case (Some pt)
    then show ?thesis using pt [OF Some] w [OF idx(1)] by (auto simp: leaf_def simp del: walk.simps)
  next
    case None
    then have "(a, b, c, d) \<noteq> (a0, b0, c0, d0)" using p(1) by auto
    then show ?thesis using w [OF idx(1)] w [OF idx2] None pd
      by (auto simp: leaf_def simp del: walk.simps split: option.splits)
  qed
qed

text \<open>A change of an entry above the last level that keeps its link, as setting the user bit does.\<close>

lemma tree_ok_keep_link:
  fixes v :: u64
  assumes ok: "tree_ok m root" and p: "walk m root p = Some t" "path_ok p" and i: "i < 512"
    and v: "link v = link (pte m t i)" "bit v 0 = bit (pte m t i) 0" "bit v 7 = bit (pte m t i) 7"
  defines "m' \<equiv> write_u64 (pte_addr t i) v m"
  shows "tree_ok m' root" "tables m' root = tables m root" "\<And>q. path_ok q \<Longrightarrow> walk m' root q = walk m root q"
proof -
  have *: "pte m' t' j = (if t' = t \<and> j = i then v else pte m t' j)"
    if "path_ok q" "j < 512" "walk m root q = Some t'" for q t' j
    unfolding m'_def by (rule pte_write [OF tree_okD(1) [OF ok p(2,1)] tree_okD(1) [OF ok that(1,3)] i that(2)])
  have A: "\<And>q t' j. path_ok (q @ [j]) \<Longrightarrow> walk m root q = Some t' \<Longrightarrow> link (pte m' t' j) = link (pte m t' j)"
    using * path_ok_snocD v by metis
  have B: "\<And>q t' j. path_ok (q @ [j]) \<Longrightarrow> walk m root q = Some t' \<Longrightarrow>
      bit (pte m' t' j) 0 = bit (pte m t' j) 0 \<and> bit (pte m' t' j) 7 = bit (pte m t' j) 7"
    using * v path_ok_snocD by metis
  show "tree_ok m' root" by (rule tree_ok_cong(1) [OF ok A B])
  show "tables m' root = tables m root" by (rule tree_ok_cong(2) [OF ok A B])
  show "walk m' root q = walk m root q" if "path_ok q" for q by (rule tree_ok_cong(3) [OF ok A B that])
qed

lemma leaf_keep_link:
  assumes ok: "tree_ok m root" and p: "walk m root p = Some t" "path_ok (p @ [i])"
    and v: "link v = link (pte m t i)" "link v \<noteq> None"
    and idx: "path_ok [a, b, c]" "d < 512"
  shows "leaf (write_u64 (pte_addr t i) v m) root a b c d = leaf m root a b c d"
proof -
  let ?m = "write_u64 (pte_addr t i) v m"
  have pk: "path_ok p" "i < 512" "length p \<le> 2" using path_ok_snocD [OF p(2)] by auto
  have vb: "bit v 0 = bit (pte m t i) 0" "bit v 7 = bit (pte m t i) 7" using v by (auto simp: link_def split: if_splits)
  note w = tree_ok_keep_link(3) [OF ok p(1) pk(1,2) v(1) vb]
  have idx2: "path_ok [a, b]" and c: "c < 512" using idx by (simp_all add: path_ok_def)
  have ft: "frame_addr t" by (rule tree_okD(1) [OF ok pk(1) p(1)])
  show ?thesis
  proof (cases "walk m root [a, b, c]")
    case (Some pt)
    have "pt \<noteq> t" using tree_okD(2) [OF ok idx(1) pk(1) Some] p(1) pk(3) by auto
    then have "pte ?m pt d = pte m pt d"
      using pte_write [OF ft tree_okD(1) [OF ok idx(1) Some] pk(2) idx(2), of v m] by auto
    then show ?thesis using w [OF idx(1)] Some by (simp add: leaf_def del: walk.simps)
  next
    case None
    note abc = this
    show ?thesis
    proof (cases "walk m root [a, b]")
      case (Some pd)
      have "link (pte m pd c) = None" using None Some walk_snoc [of m root "[a, b]" c] by simp
      then have "pd \<noteq> t \<or> c \<noteq> i" using v by auto
      then have "pte ?m pd c = pte m pd c"
        using pte_write [OF ft tree_okD(1) [OF ok idx2 Some] pk(2) c, of v m] by auto
      then show ?thesis using w [OF idx(1)] w [OF idx2] None Some by (simp add: leaf_def del: walk.simps)
    next
      case None
      then show ?thesis using w [OF idx(1)] w [OF idx2] abc by (simp add: leaf_def del: walk.simps)
    qed
  qed
qed

text \<open>A fresh, cleared frame linked into an entry that was not present.\<close>

lemma frame_bits:
  assumes "frame_addr f" and "f < 2 ^ 52" and "bit f n"
  shows "12 \<le> n" "n < 52"
proof -
  show "12 \<le> n" using aligned_no_low_bits [of f n] assms(1,3) by (auto simp: frame_addr_def not_le [symmetric])
  have "unat f < 2 ^ 52" using assms(2) by (simp add: word_less_nat_alt)
  then have "take_bit 52 (unat f) = unat f" by (simp add: take_bit_nat_eq_self_iff)
  moreover have "bit (unat f) n" using assms(3) by (simp add: bit_unsigned_iff)
  ultimately show "n < 52" by (metis bit_take_bit_iff)
qed

lemma frame_masked: "frame_addr f \<Longrightarrow> f < 2 ^ 52 \<Longrightarrow> f AND VMM_PHYS_MASK = f"
  by (rule bit_word_eqI) (auto simp: bit_and_iff dest: frame_bits)

lemma link_new_entry:
  assumes "frame_addr f" and "f < 2 ^ 52"
  shows "link (f OR VMM_PRESENT OR VMM_WRITE) = Some f" "bit (f OR VMM_PRESENT OR VMM_WRITE) 0"
    "\<not> bit (f OR VMM_PRESENT OR VMM_WRITE) 7"
proof -
  show n7: "\<not> bit (f OR VMM_PRESENT OR VMM_WRITE) 7" using frame_bits(1) [OF assms, of 7] by (auto simp: bit_or_iff)
  show "bit (f OR VMM_PRESENT OR VMM_WRITE) 0" by (simp add: bit_or_iff)
  have "(f OR VMM_PRESENT OR VMM_WRITE) AND VMM_PHYS_MASK = f"
    by (rule bit_word_eqI) (auto simp: bit_simps dest: frame_bits [OF assms])
  then show "link (f OR VMM_PRESENT OR VMM_WRITE) = Some f" using n7 by (simp add: link_def bit_or_iff)
qed

lemma link_0 [simp]: "link 0 = None"
  by (simp add: link_def)

definition installs :: "mem \<Rightarrow> u64 \<Rightarrow> u64 list \<Rightarrow> u64 \<Rightarrow> u64 \<Rightarrow> u64 \<Rightarrow> u64 \<Rightarrow> mem \<Rightarrow> bool" where
  "installs m root p t i f v m' \<longleftrightarrow>
     tree_ok m root \<and> walk m root p = Some t \<and> path_ok (p @ [i]) \<and> \<not> bit (pte m t i) 0 \<and>
     frame_addr f \<and> f \<notin> tables m root \<and> link v = Some f \<and>
     m' = write_u64 (pte_addr t i) v (memset f 0 PAGE_SIZE m)"

lemma installsD:
  assumes "installs m root p t i f v m'"
  shows "tree_ok m root" "walk m root p = Some t" "path_ok (p @ [i])" "\<not> bit (pte m t i) 0" "frame_addr f"
    "f \<notin> tables m root" "link v = Some f" "m' = write_u64 (pte_addr t i) v (memset f 0 PAGE_SIZE m)"
    "path_ok p" "i < 512" "length p \<le> 2" "frame_addr t" "t \<noteq> f"
proof -
  show *: "tree_ok m root" "walk m root p = Some t" "path_ok (p @ [i])" "\<not> bit (pte m t i) 0" "frame_addr f"
    "f \<notin> tables m root" "link v = Some f" "m' = write_u64 (pte_addr t i) v (memset f 0 PAGE_SIZE m)"
    using assms by (auto simp: installs_def)
  show **: "path_ok p" "i < 512" "length p \<le> 2" using path_ok_snocD [OF *(3)] by auto
  show "frame_addr t" "t \<noteq> f" using tree_okD(1) [OF *(1) **(1) *(2)] tablesI [OF **(1) *(2)] *(6) by auto
qed

lemma new_table_pte:
  assumes inst: "installs m root p t i f v m'" and "frame_addr t'" and "j < 512"
  shows "pte m' t' j = (if t' = t \<and> j = i then v else if t' = f then 0 else pte m t' j)"
proof -
  note D = installsD [OF inst]
  have "pte m' t' j = (if t' = t \<and> j = i then v else pte (memset f 0 PAGE_SIZE m) t' j)"
    unfolding D(8) by (rule pte_write [OF D(12) assms(2) D(10) assms(3)])
  then show ?thesis by (simp only: pte_zero_page [OF assms(2) D(5) assms(3), of m])
qed

lemma new_table_walk_off:
  assumes inst: "installs m root p t i f v m'" and "path_ok q" and "\<And>r. q \<noteq> p @ i # r"
  shows "walk m' root q = walk m root q"
proof -
  note D = installsD [OF inst]
  have "link (pte m' t' j) = link (pte m t' j)"
    if q': "path_ok (q' @ [j])" "walk m root q' = Some t'" "(t', j) \<noteq> (t, i)" for q' t' j
  proof -
    have *: "path_ok q'" "j < 512" using path_ok_snocD [OF q'(1)] by auto
    have "t' \<noteq> f" using tablesI [OF *(1) q'(2)] D(6) by auto
    then show ?thesis using new_table_pte [OF inst tree_okD(1) [OF D(1) *(1) q'(2)] *(2)] q'(3) by auto
  qed
  then show ?thesis by (rule walk_change [OF D(1,2,9) _ assms(2,3)])
qed

lemma new_table_walk_on:
  assumes inst: "installs m root p t i f v m'" and "path_ok (p @ i # r)"
  shows "walk m' root (p @ i # r) = (if r = [] then Some f else None)"
proof -
  note D = installsD [OF inst]
  have "walk m' root p = Some t" using new_table_walk_off [OF inst D(9)] D(2) by simp
  then have "walk m' root (p @ i # r) = walk m' f r"
    using new_table_pte [OF inst D(12,10)] D(7) by (simp add: walk_append)
  moreover have "walk m' f r = None" if "r = j # r'" for j r'
  proof -
    have "j < 512" using assms(2) that by (simp add: path_ok_def)
    then show ?thesis using new_table_pte [OF inst D(5), of j] D(13) that by simp
  qed
  ultimately show ?thesis by (cases r) auto
qed

lemma absent_walk_on:
  assumes inst: "installs m root p t i f v m'"
  shows "walk m root (p @ i # r) = None"
  using installsD(2,4) [OF inst] by (simp add: walk_append link_def)

lemma new_table_walk_iff:
  assumes inst: "installs m root p t i f v m'" and q: "path_ok q"
  shows "walk m' root q = Some t' \<longleftrightarrow> q = p @ [i] \<and> t' = f \<or> walk m root q = Some t'"
proof (cases "\<exists>r. q = p @ i # r")
  case True
  then obtain r where r: "q = p @ i # r" by blast
  then show ?thesis using new_table_walk_on [OF inst, of r] absent_walk_on [OF inst, of r] q by auto
next
  case False
  then show ?thesis using new_table_walk_off [OF inst q] by auto
qed

lemma new_table_tree:
  assumes inst: "installs m root p t i f v m'"
  shows "tree_ok m' root" "tables m' root = insert f (tables m root)"
proof -
  note D = installsD [OF inst] and inv = new_table_walk_iff [OF inst]
  show tb: "tables m' root = insert f (tables m root)"
    using inv D(3) by (auto simp: tables_def)
  have a: "\<forall>t \<in> tables m' root. frame_addr t" using tb D(5) D(1) by (simp add: tree_ok_def)
  have notf: "walk m root q \<noteq> Some f" if "path_ok q" for q using D(6) tablesI [OF that] by auto
  have b: "q = q'" if "path_ok q" "path_ok q'" "walk m' root q = Some t'" "walk m' root q' = Some t'" for q q' t'
    using inv [OF that(1), of t'] inv [OF that(2), of t'] tree_okD(2) [OF D(1) that(1,2), of t'] that(3,4)
      notf [OF that(1)] notf [OF that(2)] by auto
  have v7: "\<not> bit v 7" using D(7) by (auto simp: link_def split: if_splits)
  have c: "length q = 2 \<and> bit (pte m' t' j) 0"
    if q: "path_ok (q @ [j])" "walk m' root q = Some t'" "bit (pte m' t' j) 7" for q t' j
  proof -
    have qk: "path_ok q" "j < 512" using path_ok_snocD [OF q(1)] by auto
    have ft': "frame_addr t'" using a tablesI [OF qk(1) q(2)] by simp
    note pt = new_table_pte [OF inst ft' qk(2)]
    have "t' \<noteq> f" "t' \<noteq> t \<or> j \<noteq> i" using pt q(3) v7 by (auto split: if_splits)
    then have "walk m root q = Some t'" "pte m' t' j = pte m t' j" using new_table_walk_iff [OF inst qk(1)] q(2) pt by auto
    then show ?thesis using tree_okD(3) [OF D(1) q(1)] q(3) by simp
  qed
  show "tree_ok m' root" unfolding tree_ok_def using a b c by blast
qed

lemma leaf_None_pd:
  "walk m root [a, b, c] = None \<Longrightarrow> walk m root [a, b] = Some pd \<Longrightarrow> \<not> bit (pte m pd c) 0 \<Longrightarrow> leaf m root a b c d = None"
  by (simp add: leaf_def del: walk.simps)

lemma new_table_leaf:
  assumes inst: "installs m root p t i f v m'" and idx: "path_ok [a, b, c]" "d < 512"
  shows "leaf m' root a b c d = leaf m root a b c d"
proof -
  note D = installsD [OF inst]
  have idx2: "path_ok [a, b]" and c: "c < 512" using idx by (simp_all add: path_ok_def)
  have f0: "pte m' f j = 0" if "j < 512" for j using new_table_pte [OF inst D(5) that] D(13) by simp
  consider "[a, b, c] = p @ i # []" | j r where "[a, b, c] = p @ i # j # r" | "\<forall>r. [a, b, c] \<noteq> p @ i # r"
    by (metis list.exhaust)
  then show ?thesis
  proof cases
    case 1
    then have p: "p = [a, b]" "i = c" by (auto simp: append_eq_Cons_conv Cons_eq_append_conv)
    have "leaf m' root a b c d = None"
      using new_table_walk_on [OF inst, of "[]"] f0 [OF idx(2)] idx(1) p by (simp add: leaf_def del: walk.simps)
    moreover have "leaf m root a b c d = None"
      using absent_walk_on [OF inst, of "[]"] D(2,4) p by (intro leaf_None_pd) auto
    ultimately show ?thesis by simp
  next
    case 2
    have n: "walk m' root [a, b, c] = None" "walk m root [a, b, c] = None"
      using new_table_walk_on [OF inst, of "j # r"] absent_walk_on [OF inst, of "j # r"] idx(1) 2 by auto
    from 2 obtain r' where r': "[a, b] = p @ i # r'"
      by (cases r rule: rev_cases) (auto simp: append_eq_Cons_conv Cons_eq_append_conv)
    then have n2: "walk m root [a, b] = None" "walk m' root [a, b] = (if r' = [] then Some f else None)"
      using new_table_walk_on [OF inst, of r'] absent_walk_on [OF inst, of r'] idx2 by auto
    show ?thesis using n n2 f0 [OF c] by (simp add: leaf_def del: walk.simps)
  next
    case h: 3
    have 3: "[a, b, c] \<noteq> p @ i # r" for r using h by blast
    have off2: "[a, b] \<noteq> p @ i # r" for r using 3 [of "r @ [c]"] by auto
    have w: "walk m' root [a, b, c] = walk m root [a, b, c]" "walk m' root [a, b] = walk m root [a, b]"
      using new_table_walk_off [OF inst idx(1) 3] new_table_walk_off [OF inst idx2 off2] by auto
    have pt: "pte m' pt d = pte m pt d" if "walk m root [a, b, c] = Some pt" for pt
    proof -
      have "pt \<noteq> f" using tablesI [OF idx(1) that] D(6) by auto
      moreover have "pt \<noteq> t" using tree_okD(2) [OF D(1) idx(1) D(9) that] D(2,11) by auto
      ultimately show ?thesis using new_table_pte [OF inst tree_okD(1) [OF D(1) idx(1) that] idx(2)] by auto
    qed
    have pd: "pte m' pd c = pte m pd c" if "walk m root [a, b] = Some pd" for pd
    proof -
      have "pd \<noteq> f" using tablesI [OF idx2 that] D(6) by auto
      moreover have "pd \<noteq> t \<or> c \<noteq> i" using tree_okD(2) [OF D(1) idx2 D(9) that] D(2) 3 [of "[]"] by auto
      ultimately show ?thesis using new_table_pte [OF inst tree_okD(1) [OF D(1) idx2 that] c] by auto
    qed
    show ?thesis using w pt pd by (auto simp: leaf_def simp del: walk.simps split: option.splits)
  qed
qed

section \<open>Growing an address space\<close>

lemma avail_frame_addr:
  assumes "pmm_inv p" and "a \<in> avail_frames p" and "0 \<notin> avail_frames p"
  shows "frame_addr a" "a < 2 ^ 52"
proof -
  obtain f where f: "a = f * PMM_FRAME_SIZE" "f < PMM_MAX_FRAMES"
    using assms(1,2) free_set_below by (auto simp: avail_frames_def)
  have u: "unat a = unat f * 4096" using unat_frame_addr [OF f(2)] f(1) by simp
  have "unat f < 2 ^ 20" using f(2) by (simp add: PMM_MAX_FRAMES_eq word_less_nat_alt)
  then show "a < 2 ^ 52" using u by (simp add: word_less_nat_alt)
  show "frame_addr a" using u assms(2,3) by (auto simp: frame_addr_def)
qed

lemma vmm_alloc_frame_failed:
  assumes "pmm_inv (vm_pmm s)" and "vmm_alloc_frame s = (PMM_ALLOC_FAILED, s')"
  shows "s' = s" "avail_frames (vm_pmm s) = {}"
proof -
  obtain p where p: "pmm_alloc_frame (vm_pmm s) = (PMM_ALLOC_FAILED, p)" "s' = s\<lparr>vm_pmm := p\<rparr>"
    using assms(2) by (auto simp: vmm_alloc_frame_def split: prod.splits)
  then show e: "avail_frames (vm_pmm s) = {}" using pmm.alloc_failed_iff [OF assms(1)] by simp
  then show "s' = s" using pmm.alloc_empty [OF assms(1) e] p by simp
qed

lemma vmm_alloc_frame_ok:
  assumes "pmm_inv (vm_pmm s)" and "vmm_alloc_frame s = (a, s')" and "a \<noteq> PMM_ALLOC_FAILED"
  shows "a \<in> avail_frames (vm_pmm s)" "s' = s\<lparr>vm_pmm := vm_pmm s'\<rparr>" "pmm_inv (vm_pmm s')"
    "avail_frames (vm_pmm s') = avail_frames (vm_pmm s) - {a}"
    "frame_refs (vm_pmm s') = (frame_refs (vm_pmm s))(a := 1)"
proof -
  obtain p where p: "pmm_alloc_frame (vm_pmm s) = (a, p)" "s' = s\<lparr>vm_pmm := p\<rparr>"
    using assms(2) by (auto simp: vmm_alloc_frame_def split: prod.splits)
  note ok = pmm.alloc_ok [OF assms(1) p(1) assms(3)]
  show "a \<in> avail_frames (vm_pmm s)" "s' = s\<lparr>vm_pmm := vm_pmm s'\<rparr>" "pmm_inv (vm_pmm s')"
    "avail_frames (vm_pmm s') = avail_frames (vm_pmm s) - {a}"
    "frame_refs (vm_pmm s') = (frame_refs (vm_pmm s))(a := 1)" using ok p(2) by simp_all
qed

lemma vmm_alloc_frame_fields:
  assumes "vmm_alloc_frame s = (a, s')"
  shows "vm_mem s' = vm_mem s" "vm_cr3 s' = vm_cr3 s" "kernel_pml4 s' = kernel_pml4 s"
    "kheap_next s' = kheap_next s" "vm_invlpg s' = vm_invlpg s"
  using assms by (auto simp: vmm_alloc_frame_def split: prod.splits)

text \<open>
  What an operation on the entry at the end of a path may do besides: take free frames, add them as
  tables, and write to the tables on the path and the frames it took.
\<close>

definition path_tables :: "mem \<Rightarrow> u64 \<Rightarrow> u64 list \<Rightarrow> u64 set" where
  "path_tables m root P = {t. \<exists>p r. P = p @ r \<and> walk m root p = Some t}"

definition vm_grows :: "u64 \<Rightarrow> u64 list \<Rightarrow> vmm_state \<Rightarrow> vmm_state \<Rightarrow> bool" where
  "vm_grows root P s s' \<longleftrightarrow>
     space_ok s' root \<and>
     (\<forall>q t. path_ok q \<and> walk (vm_mem s) root q = Some t \<longrightarrow> walk (vm_mem s') root q = Some t) \<and>
     avail_frames (vm_pmm s') \<subseteq> avail_frames (vm_pmm s) \<and>
     tables (vm_mem s') root \<subseteq> tables (vm_mem s) root \<union> (avail_frames (vm_pmm s) - avail_frames (vm_pmm s')) \<and>
     (\<forall>a. a \<notin> avail_frames (vm_pmm s) \<longrightarrow> frame_refs (vm_pmm s') a = frame_refs (vm_pmm s) a) \<and>
     path_tables (vm_mem s') root P \<subseteq> path_tables (vm_mem s) root P \<union> (avail_frames (vm_pmm s) - avail_frames (vm_pmm s')) \<and>
     (\<forall>b. (\<forall>t \<in> path_tables (vm_mem s) root P \<union> avail_frames (vm_pmm s). b \<notin> block t 4096) \<longrightarrow> vm_mem s' b = vm_mem s b) \<and>
     vm_cr3 s' = vm_cr3 s \<and> kernel_pml4 s' = kernel_pml4 s \<and> kheap_next s' = kheap_next s"

definition same_leaves :: "u64 \<Rightarrow> mem \<Rightarrow> mem \<Rightarrow> bool" where
  "same_leaves root m m' \<longleftrightarrow>
     (\<forall>a b c d. path_ok [a, b, c] \<and> d < 512 \<longrightarrow> leaf m' root a b c d = leaf m root a b c d)"

lemma same_leaves_refl [simp]: "same_leaves root m m"
  by (simp add: same_leaves_def)

lemma same_leaves_trans: "same_leaves root m m' \<Longrightarrow> same_leaves root m' m'' \<Longrightarrow> same_leaves root m m''"
  by (simp add: same_leaves_def)

lemma vm_grows_refl: "space_ok s root \<Longrightarrow> vm_grows root P s s"
  by (auto simp: vm_grows_def)

lemma vm_grows_trans:
  assumes a: "vm_grows root P s s'" and b: "vm_grows root P s' s''"
  shows "vm_grows root P s s''"
proof -
  have mem: "vm_mem s'' x = vm_mem s x"
    if x: "\<forall>t \<in> path_tables (vm_mem s) root P \<union> avail_frames (vm_pmm s). x \<notin> block t 4096" for x
  proof -
    have "\<forall>t \<in> path_tables (vm_mem s') root P \<union> avail_frames (vm_pmm s'). x \<notin> block t 4096"
      using a x by (auto simp: vm_grows_def)
    then show ?thesis using a b x by (simp add: vm_grows_def)
  qed
  have refs: "frame_refs (vm_pmm s'') x = frame_refs (vm_pmm s) x" if "x \<notin> avail_frames (vm_pmm s)" for x
    using a b that by (metis (no_types, lifting) vm_grows_def subsetD)
  have tb: "tables (vm_mem s'') root \<subseteq> tables (vm_mem s) root \<union> (avail_frames (vm_pmm s) - avail_frames (vm_pmm s''))"
    using a b unfolding vm_grows_def by blast
  have pt: "path_tables (vm_mem s'') root P \<subseteq>
      path_tables (vm_mem s) root P \<union> (avail_frames (vm_pmm s) - avail_frames (vm_pmm s''))"
    using a b unfolding vm_grows_def by blast
  show ?thesis using a b mem refs tb pt unfolding vm_grows_def by (metis (no_types, lifting) order_trans)
qed

lemma space_ok_set_mem:
  assumes "space_ok s root" and "tree_ok m' root" and "tables m' root = tables (vm_mem s) root"
  shows "space_ok (s\<lparr>vm_mem := m'\<rparr>) root"
  using assms by (simp add: space_ok_def)

lemma write_pte_elsewhere:
  assumes "frame_addr t" and "i < 512" and "b \<notin> block t 4096"
  shows "write_u64 (pte_addr t i) v m b = m b"
  using assms pte_block_subset [OF assms(1,2)] by (intro write_u64_other) blast

lemma pt_walk_or_alloc_spec:
  assumes ok: "space_ok s root" and p: "walk (vm_mem s) root p = Some t" "path_ok (p @ [i])"
    and P: "P = p @ i # r0" "path_ok P" and small: "\<not> bit (pte (vm_mem s) t i) 7"
    and run: "pt_walk_or_alloc (pte_addr t i) s = (r, s')"
  shows "vm_grows root P s s'" "same_leaves root (vm_mem s) (vm_mem s')"
    "r = 0 \<longleftrightarrow> avail_frames (vm_pmm s) = {} \<and> \<not> bit (pte (vm_mem s) t i) 0"
    "r \<noteq> 0 \<Longrightarrow> walk (vm_mem s') root (p @ [i]) = Some r"
    "card (avail_frames (vm_pmm s)) \<le> card (avail_frames (vm_pmm s')) + 1"
    "r = 0 \<Longrightarrow> s' = s" "vm_invlpg s' = vm_invlpg s"
proof -
  let ?m = "vm_mem s"
  have tok: "tree_ok ?m root" and pinv: "pmm_inv (vm_pmm s)" and nz: "0 \<notin> avail_frames (vm_pmm s)"
    and dis: "tables ?m root \<inter> avail_frames (vm_pmm s) = {}" using ok by (auto simp: space_ok_def)
  have pk: "path_ok p" "i < 512" "length p \<le> 2" using path_ok_snocD [OF p(2)] by auto
  have rd: "read_u64 ?m (pte_addr t i) = pte ?m t i" by (simp add: pte_def)
  have ft: "frame_addr t" by (rule tree_okD(1) [OF tok pk(1) p(1)])
  have "vm_grows root P s s' \<and> same_leaves root ?m (vm_mem s') \<and>
    (r = 0 \<longleftrightarrow> avail_frames (vm_pmm s) = {} \<and> \<not> bit (pte (vm_mem s) t i) 0) \<and>
    (r \<noteq> 0 \<longrightarrow> walk (vm_mem s') root (p @ [i]) = Some r) \<and>
    card (avail_frames (vm_pmm s)) \<le> card (avail_frames (vm_pmm s')) + 1 \<and>
    (r = 0 \<longrightarrow> s' = s) \<and> vm_invlpg s' = vm_invlpg s"
  proof (cases "bit (pte ?m t i) 0")
    case True
    then have rs: "r = pte ?m t i AND VMM_PHYS_MASK" "s' = s" using run rd by (auto simp: pt_walk_or_alloc_def)
    have "link (pte ?m t i) = Some r" using True small rs by (simp add: link_def)
    then have w: "walk ?m root (p @ [i]) = Some r" using p(1) by (simp add: walk_snoc)
    then have "r \<noteq> 0" using tree_okD(1) [OF tok p(2)] by (simp add: frame_addr_def)
    then show ?thesis using w rs vm_grows_refl [OF ok] True by simp
  next
    case absent: False
    obtain f s1 where al: "vmm_alloc_frame s = (f, s1)" by (cases "vmm_alloc_frame s")
    show ?thesis
    proof (cases "f = PMM_ALLOC_FAILED")
      case True
      then have "r = 0" "s' = s1" using run rd absent al by (auto simp: pt_walk_or_alloc_def)
      then show ?thesis using vmm_alloc_frame_failed [OF pinv] al True vm_grows_refl [OF ok] absent by auto
    next
      case False
      note fld = vmm_alloc_frame_fields [OF al]
      note al = vmm_alloc_frame_ok [OF pinv al False]
      let ?v = "f OR VMM_PRESENT OR VMM_WRITE"
      have fa: "frame_addr f" "f < 2 ^ 52" using avail_frame_addr [OF pinv al(1) nz] by auto
      then have nzf: "f \<noteq> 0" by (simp add: frame_addr_def)
      have rs: "r = f" "s' = set_mem (pte_addr t i) ?v (zero_page f s1)"
        using run rd absent \<open>vmm_alloc_frame s = (f, s1)\<close> False by (auto simp: pt_walk_or_alloc_def)
      have m': "vm_mem s' = write_u64 (pte_addr t i) ?v (memset f 0 PAGE_SIZE ?m)"
        and pm': "vm_pmm s' = vm_pmm s1" using rs(2) fld
        by (auto simp: set_mem_def zero_page_def)
      have nf: "f \<notin> tables ?m root" using al(1) dis by auto
      have inst: "installs ?m root p t i f ?v (vm_mem s')"
        using tok p absent fa nf link_new_entry(1) [OF fa] m' by (simp add: installs_def)
      note tr = new_table_tree [OF inst] and wi = new_table_walk_iff [OF inst]
      have sp: "space_ok s' root"
        using tr pm' al dis nz by (auto simp: space_ok_def)
      have "same_leaves root ?m (vm_mem s')" using new_table_leaf [OF inst] by (simp add: same_leaves_def)
      moreover have "walk (vm_mem s') root (p @ [i]) = Some f" using wi [OF p(2)] by simp
      moreover have "vm_mem s' b = ?m b"
        if b: "\<forall>t \<in> path_tables ?m root P \<union> avail_frames (vm_pmm s). b \<notin> block t 4096" for b
      proof -
        have "t \<in> path_tables ?m root P" using p(1) P(1) by (auto simp: path_tables_def)
        then show ?thesis using b al(1) write_pte_elsewhere [OF ft pk(2)] by (simp add: m' memset_page)
      qed
      moreover have "path_tables (vm_mem s') root P \<subseteq> insert f (path_tables ?m root P)"
      proof
        fix u assume "u \<in> path_tables (vm_mem s') root P"
        then obtain q r' where q: "P = q @ r'" "walk (vm_mem s') root q = Some u" by (auto simp: path_tables_def)
        then have "path_ok q" using P(2) by (auto simp: path_ok_def)
        then show "u \<in> insert f (path_tables ?m root P)" using wi [of q u] q by (auto simp: path_tables_def)
      qed
      moreover have "vm_cr3 s' = vm_cr3 s" "kernel_pml4 s' = kernel_pml4 s" "kheap_next s' = kheap_next s"
          "vm_invlpg s' = vm_invlpg s"
        using rs(2) fld by (auto simp: set_mem_def zero_page_def)
      moreover have "card (avail_frames (vm_pmm s)) \<le> card (avail_frames (vm_pmm s')) + 1"
        using al(1,4) pm' by (simp add: card_Diff_singleton)
      ultimately show ?thesis
        using sp wi al tr(2) pm' rs(1) nzf by (auto simp: vm_grows_def)
    qed
  qed
  then show "vm_grows root P s s'" "same_leaves root (vm_mem s) (vm_mem s')"
    "r = 0 \<longleftrightarrow> avail_frames (vm_pmm s) = {} \<and> \<not> bit (pte (vm_mem s) t i) 0"
    "r \<noteq> 0 \<Longrightarrow> walk (vm_mem s') root (p @ [i]) = Some r"
    "card (avail_frames (vm_pmm s)) \<le> card (avail_frames (vm_pmm s')) + 1"
    "r = 0 \<Longrightarrow> s' = s" "vm_invlpg s' = vm_invlpg s" by auto
qed

section \<open>Mapping and unmapping pages\<close>

lemma low9_less: "(w::u64) AND 0x1FF < 512"
proof -
  have "w AND 0x1FF \<le> 0x1FF" by (rule word_and_le1)
  then show ?thesis by (simp add: word_le_nat_alt word_less_nat_alt)
qed

lemma idx_less [simp]: "pml4_idx v < 512" "pdpt_idx v < 512" "pd_idx v < 512" "pt_idx v < 512"
  by (simp_all add: pml4_idx_def pdpt_idx_def pd_idx_def pt_idx_def low9_less)

lemma idx_path_ok [simp]:
  "path_ok [pml4_idx v]" "path_ok [pml4_idx v, pdpt_idx v]" "path_ok [pml4_idx v, pdpt_idx v, pd_idx v]"
  by (simp_all add: path_ok_def)

definition leaf_at :: "mem \<Rightarrow> u64 \<Rightarrow> u64 \<Rightarrow> (bool \<times> u64) option" where
  "leaf_at m root v = leaf m root (pml4_idx v) (pdpt_idx v) (pd_idx v) (pt_idx v)"

text \<open>The number of the page of an address: bits 12 to 47.\<close>

definition vpn :: "u64 \<Rightarrow> u64" where
  "vpn v = drop_bit 12 v AND mask 36"

lemma bit_idx:
  "n < 9 \<Longrightarrow> bit (pt_idx v) n = bit v (n + 12)" "n < 9 \<Longrightarrow> bit (pd_idx v) n = bit v (n + 21)"
  "n < 9 \<Longrightarrow> bit (pdpt_idx v) n = bit v (n + 30)" "n < 9 \<Longrightarrow> bit (pml4_idx v) n = bit v (n + 39)"
proof -
  have m: "(0x1FF::u64) = mask 9" by (simp add: mask_eq_exp_minus_1)
  show "n < 9 \<Longrightarrow> bit (pt_idx v) n = bit v (n + 12)" "n < 9 \<Longrightarrow> bit (pd_idx v) n = bit v (n + 21)"
    "n < 9 \<Longrightarrow> bit (pdpt_idx v) n = bit v (n + 30)" "n < 9 \<Longrightarrow> bit (pml4_idx v) n = bit v (n + 39)"
    unfolding pt_idx_def pd_idx_def pdpt_idx_def pml4_idx_def m
    by (auto simp: bit_and_iff bit_mask_iff bit_drop_bit_eq add.commute)
qed

lemma idx9: "n \<ge> 9 \<Longrightarrow> \<not> bit (w AND (0x1FF :: u64)) n"
proof -
  have m: "(0x1FF::u64) = mask 9" by (simp add: mask_eq_exp_minus_1)
  show "n \<ge> 9 \<Longrightarrow> \<not> bit (w AND (0x1FF :: u64)) n" unfolding m by (simp add: bit_and_iff bit_mask_iff)
qed

lemma bit_idx_high:
  "n \<ge> 9 \<Longrightarrow> \<not> bit (pt_idx v) n" "n \<ge> 9 \<Longrightarrow> \<not> bit (pd_idx v) n"
  "n \<ge> 9 \<Longrightarrow> \<not> bit (pdpt_idx v) n" "n \<ge> 9 \<Longrightarrow> \<not> bit (pml4_idx v) n"
  by (simp_all add: pt_idx_def pd_idx_def pdpt_idx_def pml4_idx_def idx9)

lemma idx_eqI:
  fixes v w :: u64
  assumes "\<And>n. n < 9 \<Longrightarrow> bit x n = bit y n" "\<And>n. n \<ge> 9 \<Longrightarrow> \<not> bit x n" "\<And>n. n \<ge> 9 \<Longrightarrow> \<not> bit y n"
  shows "x = (y::u64)"
proof (rule bit_word_eqI)
  fix n assume "n < LENGTH(64)"
  show "bit x n = bit y n" using assms by (cases "n < 9") auto
qed

lemma vpn_eq_iff:
  "vpn v = vpn w \<longleftrightarrow> pml4_idx v = pml4_idx w \<and> pdpt_idx v = pdpt_idx w \<and> pd_idx v = pd_idx w \<and> pt_idx v = pt_idx w"
proof
  assume eq: "vpn v = vpn w"
  have b: "bit v n = bit w n" if "12 \<le> n" "n < 48" for n
  proof -
    have "bit (vpn v) (n - 12) = bit (vpn w) (n - 12)" using eq by simp
    moreover have "n - 12 < 36" "n - 12 < 64" using that by auto
    ultimately show ?thesis using that by (simp add: vpn_def bit_and_iff bit_mask_iff bit_drop_bit_eq)
  qed
  show "pml4_idx v = pml4_idx w \<and> pdpt_idx v = pdpt_idx w \<and> pd_idx v = pd_idx w \<and> pt_idx v = pt_idx w"
    by (intro conjI; rule idx_eqI) (simp_all add: bit_idx bit_idx_high b)
next
  assume eq: "pml4_idx v = pml4_idx w \<and> pdpt_idx v = pdpt_idx w \<and> pd_idx v = pd_idx w \<and> pt_idx v = pt_idx w"
  have b: "bit v n = bit w n" if "12 \<le> n" "n < 48" for n
  proof -
    consider "n < 21" | "21 \<le> n" "n < 30" | "30 \<le> n" "n < 39" | "39 \<le> n" by linarith
    then show ?thesis
    proof cases
      case 1 then show ?thesis using bit_idx(1) [of "n - 12" v] bit_idx(1) [of "n - 12" w] eq that by simp
    next
      case 2 then show ?thesis using bit_idx(2) [of "n - 21" v] bit_idx(2) [of "n - 21" w] eq that by simp
    next
      case 3 then show ?thesis using bit_idx(3) [of "n - 30" v] bit_idx(3) [of "n - 30" w] eq that by simp
    next
      case 4 then show ?thesis using bit_idx(4) [of "n - 39" v] bit_idx(4) [of "n - 39" w] eq that by simp
    qed
  qed
  show "vpn v = vpn w"
    by (rule bit_word_eqI) (auto simp: vpn_def bit_and_iff bit_mask_iff bit_drop_bit_eq b)
qed

text \<open>Translation and flags read off the mapping entry.\<close>

definition leaf_phys :: "(bool \<times> u64) option \<Rightarrow> u64 \<Rightarrow> u64" where
  "leaf_phys l v = (case l of None \<Rightarrow> PMM_ALLOC_FAILED
     | Some (True, e) \<Rightarrow> e AND 0x000FFFFFFFE00000 OR v AND 0x1FFFFF
     | Some (False, e) \<Rightarrow> e AND VMM_PHYS_MASK OR v AND 0xFFF)"

definition leaf_flags :: "(bool \<times> u64) option \<Rightarrow> u64" where
  "leaf_flags l = (case l of None \<Rightarrow> 0 | Some (_, e) \<Rightarrow> e AND NOT VMM_PHYS_MASK)"

lemma tree_upper_small:
  assumes "tree_ok m root"
  shows "\<not> bit (pte m root (pml4_idx v)) 7"
    "walk m root [pml4_idx v] = Some t \<Longrightarrow> \<not> bit (pte m t (pdpt_idx v)) 7"
  using tree_okD(3) [OF assms, of "[]" "pml4_idx v" root] tree_okD(3) [OF assms, of "[pml4_idx v]" "pdpt_idx v" t]
  by auto

lemma leaf_at_unfold:
  assumes "tree_ok m root"
  shows "leaf_at m root v =
    (let e4 = pte m root (pml4_idx v); e3 = pte m (e4 AND VMM_PHYS_MASK) (pdpt_idx v);
         e2 = pte m (e3 AND VMM_PHYS_MASK) (pd_idx v); e1 = pte m (e2 AND VMM_PHYS_MASK) (pt_idx v) in
     if \<not> bit e4 0 \<or> \<not> bit e3 0 \<or> \<not> bit e2 0 then None
     else if bit e2 7 then Some (True, e2) else if bit e1 0 then Some (False, e1) else None)"
  using tree_upper_small [OF assms, of v]
  by (auto simp: leaf_at_def leaf_def link_def Let_def)

lemma vmm_get_physical_leaf:
  assumes "tree_ok (vm_mem s) root"
  shows "vmm_get_physical root v s = leaf_phys (leaf_at (vm_mem s) root v) v"
  using tree_upper_small [OF assms, of v]
  by (auto simp: leaf_at_unfold [OF assms] vmm_get_physical_def leaf_phys_def Let_def link_def)

lemma vmm_get_flags_leaf:
  assumes "tree_ok (vm_mem s) root"
  shows "vmm_get_flags root v s = leaf_flags (leaf_at (vm_mem s) root v)"
  using tree_upper_small [OF assms, of v]
  by (auto simp: leaf_at_unfold [OF assms] vmm_get_flags_def leaf_flags_def Let_def link_def)

lemma vmm_get_pte_leaf:
  assumes "tree_ok (vm_mem s) root"
  shows "vmm_get_pte root v s = (case walk (vm_mem s) root [pml4_idx v, pdpt_idx v, pd_idx v] of
     None \<Rightarrow> 0 | Some pt \<Rightarrow> pte_addr pt (pt_idx v))"
  using tree_upper_small [OF assms, of v]
  by (auto simp: vmm_get_pte_def Let_def link_def)

lemma vm_grows_set_pte:
  assumes ok: "space_ok s root" and p: "walk (vm_mem s) root p = Some t" "path_ok p" and i: "i < 512"
    and P: "P = p @ r0" "path_ok P" and tr: "tree_ok (write_u64 (pte_addr t i) v (vm_mem s)) root"
      "tables (write_u64 (pte_addr t i) v (vm_mem s)) root = tables (vm_mem s) root"
      "\<And>q. path_ok q \<Longrightarrow> walk (write_u64 (pte_addr t i) v (vm_mem s)) root q = walk (vm_mem s) root q"
  shows "vm_grows root P s (set_mem (pte_addr t i) v s)"
proof -
  have ft: "frame_addr t" and tp: "t \<in> path_tables (vm_mem s) root P"
    using ok tree_okD(1) p P by (auto simp: space_ok_def path_tables_def)
  have "path_tables (write_u64 (pte_addr t i) v (vm_mem s)) root P = path_tables (vm_mem s) root P"
    using tr(3) P(2) unfolding path_tables_def by (metis (no_types, opaque_lifting) Un_iff path_ok_def le_add1 le_trans length_append set_append)
  then show ?thesis
    using ok tr write_pte_elsewhere [OF ft i] tp by (auto simp: vm_grows_def set_mem_def space_ok_def)
qed

lemma vm_grows_invlpg [simp]: "vm_grows root P s (invlpg v s') \<longleftrightarrow> vm_grows root P s s'"
  by (simp add: vm_grows_def invlpg_def space_ok_def)

lemma state_fields [simp]:
  "vm_mem (invlpg v s) = vm_mem s" "vm_pmm (invlpg v s) = vm_pmm s" "vm_cr3 (invlpg v s) = vm_cr3 s"
  "vm_invlpg (invlpg v s) = v # vm_invlpg s"
  "vm_mem (set_mem a e s) = write_u64 a e (vm_mem s)" "vm_pmm (set_mem a e s) = vm_pmm s"
  "vm_cr3 (set_mem a e s) = vm_cr3 s" "vm_invlpg (set_mem a e s) = vm_invlpg s"
  "vm_mem (zero_page a s) = memset a 0 PAGE_SIZE (vm_mem s)" "vm_pmm (zero_page a s) = vm_pmm s"
  "vm_cr3 (zero_page a s) = vm_cr3 s" "vm_invlpg (zero_page a s) = vm_invlpg s"
  by (simp_all add: invlpg_def set_mem_def zero_page_def)

lemma link_or_user: "link (e OR VMM_USER) = link e" "bit (e OR VMM_USER) 0 = bit e 0" "bit (e OR VMM_USER) 7 = bit e 7"
proof -
  have "(e OR VMM_USER) AND VMM_PHYS_MASK = e AND VMM_PHYS_MASK"
    by (rule bit_word_eqI) (auto simp: bit_simps)
  then show "link (e OR VMM_USER) = link e" by (simp add: link_def bit_or_iff)
qed (simp_all add: bit_or_iff)

lemma or_user_spec:
  assumes ok: "space_ok s root" and p: "walk (vm_mem s) root p = Some t" "path_ok (p @ [i])"
    and ln: "walk (vm_mem s) root (p @ [i]) = Some u" and P: "P = p @ i # r0" "path_ok P"
  shows "vm_grows root P s (or_user flags (pte_addr t i) s)"
    "same_leaves root (vm_mem s) (vm_mem (or_user flags (pte_addr t i) s))"
    "vm_pmm (or_user flags (pte_addr t i) s) = vm_pmm s" "vm_invlpg (or_user flags (pte_addr t i) s) = vm_invlpg s"
    "walk (vm_mem (or_user flags (pte_addr t i) s)) root (p @ [i]) = Some u"
proof -
  let ?m = "vm_mem s" and ?e = "pte (vm_mem s) t i"
  have tok: "tree_ok ?m root" using ok by (simp add: space_ok_def)
  have pk: "path_ok p" "i < 512" using path_ok_snocD [OF p(2)] by auto
  have le: "link ?e = Some u" using ln p(1) by (simp add: walk_snoc)
  note tr = tree_ok_keep_link [OF tok p(1) pk link_or_user [of ?e]]
  have g: "vm_grows root P s (set_mem (pte_addr t i) (?e OR VMM_USER) s)"
    by (rule vm_grows_set_pte [OF ok p(1) pk P tr])
  have l: "same_leaves root ?m (write_u64 (pte_addr t i) (?e OR VMM_USER) ?m)"
    using leaf_keep_link [OF tok p link_or_user(1)] le by (simp add: same_leaves_def link_or_user(1))
  have rd: "read_u64 ?m (pte_addr t i) = ?e" by (simp add: pte_def)
  have eq: "or_user flags (pte_addr t i) s = (if bit flags 2 then set_mem (pte_addr t i) (?e OR VMM_USER) s else s)"
    by (simp add: or_user_def rd)
  show "vm_grows root P s (or_user flags (pte_addr t i) s)" using g vm_grows_refl [OF ok] eq by simp
  show "same_leaves root ?m (vm_mem (or_user flags (pte_addr t i) s))" using l eq by simp
  show "vm_pmm (or_user flags (pte_addr t i) s) = vm_pmm s" "vm_invlpg (or_user flags (pte_addr t i) s) = vm_invlpg s"
    using eq by simp_all
  show "walk (vm_mem (or_user flags (pte_addr t i) s)) root (p @ [i]) = Some u" using eq tr(3) [OF p(2)] ln by simp
qed

lemma vm_growsD:
  assumes "vm_grows root P s s'"
  shows "space_ok s' root" "path_ok q \<Longrightarrow> walk (vm_mem s) root q = Some t \<Longrightarrow> walk (vm_mem s') root q = Some t"
    "avail_frames (vm_pmm s') \<subseteq> avail_frames (vm_pmm s)"
  using assms by (auto simp: vm_grows_def)

text \<open>
  One level of the descent: the table below an entry is found or made, and the entry marked for
  user access.
\<close>

lemma descend:
  fixes flags :: u64
  assumes ok: "space_ok s root" and p: "walk (vm_mem s) root p = Some t" "path_ok (p @ [i])"
    and P: "P = p @ i # r0" "path_ok P" and small: "\<not> bit (pte (vm_mem s) t i) 7"
    and run: "pt_walk_or_alloc (pte_addr t i) s = (r, s1)" and r: "r \<noteq> 0"
  defines "s2 \<equiv> or_user flags (pte_addr t i) s1"
  shows "vm_grows root P s s2" "same_leaves root (vm_mem s) (vm_mem s2)" "walk (vm_mem s2) root (p @ [i]) = Some r"
    "card (avail_frames (vm_pmm s)) \<le> card (avail_frames (vm_pmm s2)) + 1" "vm_invlpg s2 = vm_invlpg s"
proof -
  note w = pt_walk_or_alloc_spec [OF ok p P small run]
  have pk: "path_ok p" using path_ok_snocD [OF p(2)] by simp
  have t: "walk (vm_mem s1) root p = Some t" by (rule vm_growsD(2) [OF w(1) pk p(1)])
  note u = or_user_spec [OF vm_growsD(1) [OF w(1)] t p(2) w(4) [OF r] P, where flags = flags]
  show "vm_grows root P s s2" unfolding s2_def by (rule vm_grows_trans [OF w(1) u(1)])
  show "same_leaves root (vm_mem s) (vm_mem s2)" unfolding s2_def by (rule same_leaves_trans [OF w(2) u(2)])
  show "walk (vm_mem s2) root (p @ [i]) = Some r" unfolding s2_def by (rule u(5))
  show "card (avail_frames (vm_pmm s)) \<le> card (avail_frames (vm_pmm s2)) + 1" using w(5) u(3) by (simp add: s2_def)
  show "vm_invlpg s2 = vm_invlpg s" using w(7) u(4) by (simp add: s2_def)
qed

text \<open>The entry vmm_map_page writes.\<close>

definition map_entry :: "u64 \<Rightarrow> u64 \<Rightarrow> u64" where
  "map_entry phys flags = (phys AND VMM_PHYS_MASK OR flags AND NOT VMM_PHYS_MASK OR VMM_PRESENT)"

lemma bit_map_entry_0 [simp]: "bit (map_entry phys flags) 0"
  by (simp add: map_entry_def bit_or_iff)

definition maps_page :: "u64 \<Rightarrow> u64 \<Rightarrow> u64 \<Rightarrow> u64 \<Rightarrow> vmm_state \<Rightarrow> vmm_state \<Rightarrow> bool" where
  "maps_page root v phys flags s s' \<longleftrightarrow>
     (\<forall>a b c d. path_ok [a, b, c] \<and> d < 512 \<longrightarrow>
        leaf (vm_mem s') root a b c d =
          (if (a, b, c, d) = (pml4_idx v, pdpt_idx v, pd_idx v, pt_idx v) then Some (False, map_entry phys flags)
           else leaf (vm_mem s) root a b c d))"

definition vmm_map_result :: "u64 \<Rightarrow> u64 \<Rightarrow> u64 \<Rightarrow> u64 \<Rightarrow> vmm_state \<Rightarrow> int \<Rightarrow> vmm_state \<Rightarrow> bool" where
  "vmm_map_result root v phys flags s r s' \<longleftrightarrow>
     vm_grows root [pml4_idx v, pdpt_idx v, pd_idx v] s s' \<and>
     (r = 0 \<and> maps_page root v phys flags s s' \<and> vm_invlpg s' = v # vm_invlpg s \<or>
      r = -1 \<and> same_leaves root (vm_mem s) (vm_mem s') \<and> vm_invlpg s' = vm_invlpg s \<and>
        (avail_frames (vm_pmm s') = {} \<or> (\<exists>e. leaf_at (vm_mem s) root v = Some (True, e)))) \<and>
     card (avail_frames (vm_pmm s)) \<le> card (avail_frames (vm_pmm s')) + (if r = 0 then 3 else 2)"

lemma map_result_failed:
  assumes "vm_grows root [pml4_idx v, pdpt_idx v, pd_idx v] s s'" and "same_leaves root (vm_mem s) (vm_mem s')" and "vm_invlpg s' = vm_invlpg s"
    and "avail_frames (vm_pmm s') = {} \<or> (\<exists>e. leaf_at (vm_mem s) root v = Some (True, e))"
    and "card (avail_frames (vm_pmm s)) \<le> card (avail_frames (vm_pmm s')) + 2"
  shows "vmm_map_result root v phys flags s (-1) s'"
  using assms by (simp add: vmm_map_result_def)

lemma vmm_map_leaf:
  fixes e :: u64
  assumes ok: "space_ok s root" and w: "walk (vm_mem s) root [pml4_idx v, pdpt_idx v, pd_idx v] = Some pt"
  defines "s' \<equiv> set_mem (pte_addr pt (pt_idx v)) e s"
  shows "vm_grows root [pml4_idx v, pdpt_idx v, pd_idx v] s s'"
    "path_ok [a, b, c] \<Longrightarrow> d < 512 \<Longrightarrow> leaf (vm_mem s') root a b c d =
       (if (a, b, c, d) = (pml4_idx v, pdpt_idx v, pd_idx v, pt_idx v) then if bit e 0 then Some (False, e) else None
        else leaf (vm_mem s) root a b c d)"
proof -
  have tok: "tree_ok (vm_mem s) root" using ok by (simp add: space_ok_def)
  have l3: "length [pml4_idx v, pdpt_idx v, pd_idx v] = 3" by simp
  have P0: "[pml4_idx v, pdpt_idx v, pd_idx v] = [pml4_idx v, pdpt_idx v, pd_idx v] @ []" by simp
  show "vm_grows root [pml4_idx v, pdpt_idx v, pd_idx v] s s'" unfolding s'_def
    by (rule vm_grows_set_pte [OF ok w idx_path_ok(3) idx_less(4) P0 idx_path_ok(3) tree_ok_write_leaf [OF tok w idx_path_ok(3) l3 idx_less(4)]])
  show "path_ok [a, b, c] \<Longrightarrow> d < 512 \<Longrightarrow> leaf (vm_mem s') root a b c d =
       (if (a, b, c, d) = (pml4_idx v, pdpt_idx v, pd_idx v, pt_idx v) then if bit e 0 then Some (False, e) else None
        else leaf (vm_mem s) root a b c d)"
    unfolding s'_def state_fields by (rule leaf_write_leaf [OF tok w idx_path_ok(3) idx_less(4)])
qed

lemma same_leaves_at: "same_leaves root m m' \<Longrightarrow> leaf_at m' root v = leaf_at m root v"
  by (simp add: same_leaves_def leaf_at_def)

lemma vmm_map_page_spec:
  assumes ok: "space_ok s root" and run: "vmm_map_page root v phys flags s = (r, s')"
  shows "vmm_map_result root v phys flags s r s'"
proof -
  let ?a = "pml4_idx v" and ?b = "pdpt_idx v" and ?c = "pd_idx v" and ?d = "pt_idx v"
  have tok: "tree_ok (vm_mem s) root" using ok by (simp add: space_ok_def)
  obtain pdpt s1 where w1: "pt_walk_or_alloc (pte_addr root ?a) s = (pdpt, s1)" by fastforce
  have P1: "[?a, ?b, ?c] = [] @ ?a # [?b, ?c]" and P2: "[?a, ?b, ?c] = [?a] @ ?b # [?c]"
    and P3: "[?a, ?b, ?c] = [?a, ?b] @ ?c # []" by simp_all
  have p1: "walk (vm_mem s) root [] = Some root" "path_ok ([] @ [?a])" by simp_all
  note sm1 = tree_upper_small(1) [OF tok, of v]
  note q1 = pt_walk_or_alloc_spec [OF ok p1 P1 idx_path_ok(3) sm1 w1]
  show ?thesis
  proof (cases "pdpt = 0")
    case True
    then have "r = -1" "s' = s1" using run w1 by (auto simp: vmm_map_page_def)
    then show ?thesis using q1 True vm_grows_refl [OF ok] by (auto intro!: map_result_failed)
  next
    case z1: False
    define t1 where "t1 = or_user flags (pte_addr root ?a) s1"
    note d1 = descend [OF ok p1 P1 idx_path_ok(3) sm1 w1 z1, where flags = flags, folded t1_def]
    note ok1 = vm_growsD(1) [OF d1(1)]
    obtain pd s2 where w2: "pt_walk_or_alloc (pte_addr pdpt ?b) t1 = (pd, s2)" by fastforce
    have p2: "walk (vm_mem t1) root [?a] = Some pdpt" "path_ok ([?a] @ [?b])" using d1(3) by simp_all
    have tok1: "tree_ok (vm_mem t1) root" using ok1 by (simp add: space_ok_def)
    note sm2 = tree_upper_small(2) [OF tok1 p2(1)]
    note q2 = pt_walk_or_alloc_spec [OF ok1 p2 P2 idx_path_ok(3) sm2 w2]
    show ?thesis
    proof (cases "pd = 0")
      case True
      then have "r = -1" "s' = s2" using run w1 w2 z1 by (auto simp: vmm_map_page_def t1_def)
      then show ?thesis using q2 True d1 by (auto intro!: map_result_failed)
    next
      case z2: False
      define t2 where "t2 = or_user flags (pte_addr pdpt ?b) s2"
      note d2 = descend [OF ok1 p2 P2 idx_path_ok(3) sm2 w2 z2, where flags = flags, folded t2_def]
      note ok2 = vm_growsD(1) [OF d2(1)]
      note g2 = vm_grows_trans [OF d1(1) d2(1)] and l2 = same_leaves_trans [OF d1(2) d2(2)]
      have p3: "walk (vm_mem t2) root [?a, ?b] = Some pd" "path_ok ([?a, ?b] @ [?c])" using d2(3) by simp_all
      have tok2: "tree_ok (vm_mem t2) root" using ok2 by (simp add: space_ok_def)
      show ?thesis
      proof (cases "bit (pte (vm_mem t2) pd ?c) 7")
        case True
        then have rs: "r = -1" "s' = t2" using run w1 w2 z1 z2 by (auto simp: vmm_map_page_def t1_def t2_def)
        have "bit (pte (vm_mem t2) pd ?c) 0" using tree_okD(3) [OF tok2 p3(2,1) True] by simp
        moreover have "walk (vm_mem t2) root [?a, ?b, ?c] = None"
          using walk_snoc [of "vm_mem t2" root "[?a, ?b]" ?c] p3(1) True by (simp add: link_def del: walk.simps)
        ultimately have "leaf_at (vm_mem t2) root v = Some (True, pte (vm_mem t2) pd ?c)"
          using p3(1) by (simp add: leaf_at_def leaf_def del: walk.simps)
        then show ?thesis using same_leaves_at [OF l2, of v] rs g2 l2 d1 d2
          by (auto intro!: map_result_failed)
      next
        case sm3: False
        obtain pt s3 where w3: "pt_walk_or_alloc (pte_addr pd ?c) t2 = (pt, s3)" by fastforce
        note q3 = pt_walk_or_alloc_spec [OF ok2 p3 P3 idx_path_ok(3) sm3 w3]
        show ?thesis
        proof (cases "pt = 0")
          case True
          then have "r = -1" "s' = s3" using run w1 w2 w3 z1 z2 sm3 by (auto simp: vmm_map_page_def t1_def t2_def)
          then show ?thesis using q3 True g2 l2 d1 d2 by (auto intro!: map_result_failed)
        next
          case z3: False
          define t3 where "t3 = or_user flags (pte_addr pd ?c) s3"
          note d3 = descend [OF ok2 p3 P3 idx_path_ok(3) sm3 w3 z3, where flags = flags, folded t3_def]
          note ok3 = vm_growsD(1) [OF d3(1)]
          have w: "walk (vm_mem t3) root [?a, ?b, ?c] = Some pt" using d3(3) by simp
          let ?s = "set_mem (pte_addr pt ?d) (map_entry phys flags) t3"
          have rs: "r = 0" "s' = invlpg v ?s" using run w1 w2 w3 z1 z2 z3 sm3
            by (auto simp: vmm_map_page_def t1_def t2_def t3_def map_entry_def)
          have g3: "vm_grows root [pml4_idx v, pdpt_idx v, pd_idx v] s t3" and l3: "same_leaves root (vm_mem s) (vm_mem t3)"
            using vm_grows_trans [OF g2 d3(1)] same_leaves_trans [OF l2 d3(2)] by auto
          have "vm_grows root [pml4_idx v, pdpt_idx v, pd_idx v] s s'" using vm_grows_trans [OF g3 vmm_map_leaf(1) [OF ok3 w]] rs by simp
          moreover have "maps_page root v phys flags s s'"
            using vmm_map_leaf(2) [OF ok3 w, where e = "map_entry phys flags"] l3 rs
            by (auto simp: maps_page_def same_leaves_def)
          moreover have "vm_invlpg s' = v # vm_invlpg s" using rs d1 d2 d3 by simp
          moreover have "card (avail_frames (vm_pmm s)) \<le> card (avail_frames (vm_pmm s')) + 3"
            using rs d1 d2 d3 by simp
          ultimately show ?thesis using rs(1) by (simp add: vmm_map_result_def)
        qed
      qed
    qed
  qed
qed

lemma vmm_unmap_page_spec:
  assumes ok: "space_ok s root"
  shows "vm_grows root [pml4_idx v, pdpt_idx v, pd_idx v] s (vmm_unmap_page root v s)"
    "path_ok [a, b, c] \<Longrightarrow> d < 512 \<Longrightarrow>
     leaf (vm_mem (vmm_unmap_page root v s)) root a b c d =
       (if (a, b, c, d) = (pml4_idx v, pdpt_idx v, pd_idx v, pt_idx v) \<and> \<not> (\<exists>e. leaf_at (vm_mem s) root v = Some (True, e))
        then None else leaf (vm_mem s) root a b c d)"
proof -
  have tok: "tree_ok (vm_mem s) root" using ok by (simp add: space_ok_def)
  let ?w = "walk (vm_mem s) root [pml4_idx v, pdpt_idx v, pd_idx v]"
  have eq: "vmm_unmap_page root v s = (case ?w of None \<Rightarrow> s
     | Some pt \<Rightarrow> invlpg v (set_mem (pte_addr pt (pt_idx v)) 0 s))"
    using tree_upper_small [OF tok, of v] by (auto simp: vmm_unmap_page_def Let_def link_def)
  have "vm_grows root [pml4_idx v, pdpt_idx v, pd_idx v] s (vmm_unmap_page root v s) \<and> (path_ok [a, b, c] \<longrightarrow> d < 512 \<longrightarrow>
     leaf (vm_mem (vmm_unmap_page root v s)) root a b c d =
       (if (a, b, c, d) = (pml4_idx v, pdpt_idx v, pd_idx v, pt_idx v) \<and> \<not> (\<exists>e. leaf_at (vm_mem s) root v = Some (True, e))
        then None else leaf (vm_mem s) root a b c d))"
  proof (cases ?w)
    case None
    then have "leaf_at (vm_mem s) root v = None \<or> (\<exists>e. leaf_at (vm_mem s) root v = Some (True, e))"
      by (auto simp: leaf_at_def leaf_def simp del: walk.simps split: option.splits)
    then show ?thesis using None eq vm_grows_refl [OF ok] by (auto simp: leaf_at_def simp del: walk.simps)
  next
    case (Some pt)
    have "leaf_at (vm_mem s) root v \<noteq> Some (True, e)" for e
      using Some by (auto simp: leaf_at_def leaf_def simp del: walk.simps)
    then show ?thesis using vmm_map_leaf [OF ok Some, where e = 0] Some eq by (auto simp del: walk.simps)
  qed
  then show "vm_grows root [pml4_idx v, pdpt_idx v, pd_idx v] s (vmm_unmap_page root v s)"
    "path_ok [a, b, c] \<Longrightarrow> d < 512 \<Longrightarrow>
     leaf (vm_mem (vmm_unmap_page root v s)) root a b c d =
       (if (a, b, c, d) = (pml4_idx v, pdpt_idx v, pd_idx v, pt_idx v) \<and> \<not> (\<exists>e. leaf_at (vm_mem s) root v = Some (True, e))
        then None else leaf (vm_mem s) root a b c d)" by auto
qed

section \<open>Copy on write\<close>

lemma tree_ok_same_tables:
  assumes ok: "tree_ok m root" and eq: "\<forall>t \<in> tables m root. \<forall>b \<in> block t 4096. m' b = m b"
  shows "tree_ok m' root" "tables m' root = tables m root" "\<And>q. path_ok q \<Longrightarrow> walk m' root q = walk m root q"
    "same_leaves root m m'"
proof -
  have *: "pte m' t i = pte m t i" if "path_ok p" "i < 512" "walk m root p = Some t" for p t i
    using eq tablesI [OF that(1,3)] by (intro pte_cong_frame [OF tree_okD(1) [OF ok that(1,3)] that(2)]) blast
  have A: "\<And>q t' j. path_ok (q @ [j]) \<Longrightarrow> walk m root q = Some t' \<Longrightarrow> link (pte m' t' j) = link (pte m t' j)"
    using * path_ok_snocD by metis
  have B: "\<And>q t' j. path_ok (q @ [j]) \<Longrightarrow> walk m root q = Some t' \<Longrightarrow>
      bit (pte m' t' j) 0 = bit (pte m t' j) 0 \<and> bit (pte m' t' j) 7 = bit (pte m t' j) 7"
    using * path_ok_snocD by metis
  show "tree_ok m' root" by (rule tree_ok_cong(1) [OF ok A B])
  show "tables m' root = tables m root" by (rule tree_ok_cong(2) [OF ok A B])
  show w: "walk m' root q = walk m root q" if "path_ok q" for q by (rule tree_ok_cong(3) [OF ok A B that])
  show "same_leaves root m m'" unfolding same_leaves_def
  proof (intro allI impI)
    fix a b c d :: u64 assume idx: "path_ok [a, b, c] \<and> d < 512"
    then have idx2: "path_ok [a, b]" "c < 512" by (simp_all add: path_ok_def)
    show "leaf m' root a b c d = leaf m root a b c d"
      using w [of "[a, b, c]"] w [OF idx2(1)] * [of "[a, b, c]" d] * [of "[a, b]" c] idx idx2
      by (auto simp: leaf_def simp del: walk.simps split: option.splits)
  qed
qed

lemma memcpy_page:
  assumes "frame_addr d" "frame_addr s" "d \<noteq> s"
  shows "i < 4096 \<Longrightarrow> memcpy d s PAGE_SIZE m (d + of_nat i) = m (s + of_nat i)"
    "b \<notin> block d 4096 \<Longrightarrow> memcpy d s PAGE_SIZE m b = m b"
proof -
  have e: "unat d + 4096 \<le> 2 ^ 64" "unat s + 4096 \<le> 2 ^ 64" using frame_end assms by (auto simp: frame_addr_def)
  have "unat d \<le> unat s \<or> unat s + 4096 \<le> unat d"
  proof -
    obtain a b where "unat d = 4096 * a" "unat s = 4096 * b" using assms by (auto simp: frame_addr_def elim!: dvdE)
    then show ?thesis by (cases "a \<le> b") auto
  qed
  then show "i < 4096 \<Longrightarrow> memcpy d s PAGE_SIZE m (d + of_nat i) = m (s + of_nat i)"
    using copy_up_spec [OF e] by (simp add: memcpy_def PAGE_SIZE_def)
  show "b \<notin> block d 4096 \<Longrightarrow> memcpy d s PAGE_SIZE m b = m b"
    using copy_up_outside by (simp add: memcpy_def PAGE_SIZE_def)
qed

lemma vpn_align_down [simp]: "vpn (ALIGN_DOWN v PAGE_SIZE) = vpn v"
proof -
  have m: "PAGE_SIZE - 1 = mask 12" by (simp add: PAGE_SIZE_def mask_eq_exp_minus_1)
  show ?thesis unfolding vpn_def ALIGN_DOWN_def m
    by (rule bit_word_eqI) (auto simp: bit_simps)
qed

lemma refcount_refs:
  assumes "0 < frame_refs p a"
  shows "\<exists>n. pmm_frame_refcount a p = Some n \<and> unat n = frame_refs p a"
  using assms by (auto simp: frame_refs_def pmm_frame_refcount_def Let_def unat_ucast_up split: if_splits)

lemma leaf_small_walk:
  assumes "leaf_at m root v = Some (False, e)"
  obtains pt where "walk m root [pml4_idx v, pdpt_idx v, pd_idx v] = Some pt" "e = pte m pt (pt_idx v)" "bit e 0"
  using assms by (auto simp: leaf_at_def leaf_def simp del: walk.simps split: option.splits if_splits)

text \<open>The entry that makes a copy-on-write page writable again, on frame \<open>f\<close>.\<close>

definition owned_entry :: "u64 \<Rightarrow> u64 \<Rightarrow> u64" where
  "owned_entry f e = f OR (e AND NOT VMM_PHYS_MASK AND NOT VMM_COW OR VMM_WRITE)"

lemma cow_flags:
  "e AND (VMM_PRESENT OR VMM_USER OR VMM_COW) = VMM_PRESENT OR VMM_USER OR VMM_COW \<longleftrightarrow> bit e 0 \<and> bit e 2 \<and> bit e 9"
proof
  assume a: "e AND (VMM_PRESENT OR VMM_USER OR VMM_COW) = VMM_PRESENT OR VMM_USER OR VMM_COW"
  have "bit (e AND (VMM_PRESENT OR VMM_USER OR VMM_COW)) n" if "n \<in> {0, 2, 9}" for n
    unfolding a using that by (auto simp: bit_or_iff)
  then show "bit e 0 \<and> bit e 2 \<and> bit e 9" by (simp add: bit_and_iff)
next
  assume "bit e 0 \<and> bit e 2 \<and> bit e 9"
  then show "e AND (VMM_PRESENT OR VMM_USER OR VMM_COW) = VMM_PRESENT OR VMM_USER OR VMM_COW"
    by (intro bit_word_eqI) (auto simp: bit_simps)
qed

lemma vmm_free_frame_ok:
  assumes "pmm_inv (vm_pmm s)" and "0 < frame_refs (vm_pmm s) a"
  obtains p where "vmm_free_frame a s = Some (s\<lparr>vm_pmm := p\<rparr>)" "pmm_inv p"
    "frame_refs p = (frame_refs (vm_pmm s))(a := frame_refs (vm_pmm s) a - 1)"
    "avail_frames p = (if frame_refs (vm_pmm s) a = 1 then insert a (avail_frames (vm_pmm s)) else avail_frames (vm_pmm s))"
  using pmm.free_owned [OF assms] by (auto simp: vmm_free_frame_def)

lemma fault_entry:
  assumes ok: "space_ok s (vmm_current_pml4 s)"
  shows "vmm_get_pte (vmm_current_pml4 s) (ALIGN_DOWN v PAGE_SIZE) s =
    (case walk (vm_mem s) (vmm_current_pml4 s) [pml4_idx v, pdpt_idx v, pd_idx v] of
     None \<Rightarrow> 0 | Some pt \<Rightarrow> pte_addr pt (pt_idx v))"
proof -
  have "tree_ok (vm_mem s) (vmm_current_pml4 s)" using ok by (simp add: space_ok_def)
  note * = vmm_get_pte_leaf [OF this, of "ALIGN_DOWN v PAGE_SIZE"]
  have "pml4_idx (ALIGN_DOWN v PAGE_SIZE) = pml4_idx v" "pdpt_idx (ALIGN_DOWN v PAGE_SIZE) = pdpt_idx v"
    "pd_idx (ALIGN_DOWN v PAGE_SIZE) = pd_idx v" "pt_idx (ALIGN_DOWN v PAGE_SIZE) = pt_idx v"
    using vpn_eq_iff [of "ALIGN_DOWN v PAGE_SIZE" v] by simp_all
  with * show ?thesis by (simp only:)
qed

text \<open>The faults that are not for this handler.\<close>

lemma vmm_fault_refused:
  assumes ok: "space_ok s (vmm_current_pml4 s)"
    and "error_code AND 3 \<noteq> 3 \<or> v \<ge> USER_SPACE_TOP \<or>
      \<not> (\<exists>e. leaf_at (vm_mem s) (vmm_current_pml4 s) v = Some (False, e) \<and> bit e 2 \<and> bit e 9)"
  shows "vmm_handle_page_fault v error_code s = Some (False, s)"
proof (cases "error_code AND 3 \<noteq> 3 \<or> v \<ge> USER_SPACE_TOP")
  case True
  then show ?thesis by (auto simp: vmm_handle_page_fault_def)
next
  case F: False
  let ?root = "vmm_current_pml4 s"
  show ?thesis
  proof (cases "walk (vm_mem s) ?root [pml4_idx v, pdpt_idx v, pd_idx v]")
    case None
    then show ?thesis using F fault_entry [OF ok, of v] by (auto simp: vmm_handle_page_fault_def Let_def simp del: walk.simps)
  next
    case (Some pt)
    let ?e = "pte (vm_mem s) pt (pt_idx v)"
    have p: "vmm_get_pte ?root (ALIGN_DOWN v PAGE_SIZE) s = pte_addr pt (pt_idx v)" using fault_entry [OF ok, of v] Some
      by (simp del: walk.simps)
    have rd: "read_u64 (vm_mem s) (pte_addr pt (pt_idx v)) = ?e" by (simp add: pte_def)
    have "\<not> (bit ?e 0 \<and> bit ?e 2 \<and> bit ?e 9)"
      using assms(2) F Some by (auto simp: leaf_at_def leaf_def simp del: walk.simps)
    then show ?thesis using F p rd cow_flags [of ?e] by (auto simp: vmm_handle_page_fault_def Let_def)
  qed
qed

text \<open>A fault on a copy-on-write page of frame \<open>old\<close>, shared or not.\<close>

definition fault_result :: "u64 \<Rightarrow> u64 \<Rightarrow> u64 \<Rightarrow> vmm_state \<Rightarrow> vmm_state \<Rightarrow> bool" where
  "fault_result root v f s s' \<longleftrightarrow>
     (\<exists>e. leaf_at (vm_mem s) root v = Some (False, e) \<and>
        (\<forall>w. leaf_at (vm_mem s') root w = (if vpn w = vpn v then Some (False, owned_entry f e) else leaf_at (vm_mem s) root w)) \<and>
        (\<forall>i < 4096. vm_mem s' (f + of_nat i) = vm_mem s ((e AND VMM_PHYS_MASK) + of_nat i)))"

lemma leaf_at_eqI:
  assumes "\<And>a b c d. path_ok [a, b, c] \<Longrightarrow> d < 512 \<Longrightarrow> leaf m' root a b c d =
       (if (a, b, c, d) = (pml4_idx v, pdpt_idx v, pd_idx v, pt_idx v) then x else leaf m root a b c d)"
  shows "leaf_at m' root w = (if vpn w = vpn v then x else leaf_at m root w)"
  using assms [of "pml4_idx w" "pdpt_idx w" "pd_idx w" "pt_idx w"] vpn_eq_iff [of w v] by (auto simp: leaf_at_def)

lemma bit_owned_entry: "frame_addr f \<Longrightarrow> bit (owned_entry f e) n \<longleftrightarrow>
    (if 12 \<le> n \<and> n < 52 then bit f n else n = 1 \<or> n \<noteq> 9 \<and> bit e n \<or> 52 \<le> n \<and> bit f n)"
  using aligned_no_low_bits [of f n] bit_imp_le_length [of e n]
  by (auto simp: owned_entry_def bit_simps frame_addr_def)

text \<open>The copy of a shared frame into a fresh one leaves the address space as it was.\<close>

lemma cow_copy:
  assumes ok: "space_ok s root" and al0: "vmm_alloc_frame s = (f, s1)" "f \<noteq> PMM_ALLOC_FAILED"
    and fo: "frame_addr old" "0 < frame_refs (vm_pmm s) old"
  defines "s2 \<equiv> s1\<lparr>vm_mem := memcpy f old PAGE_SIZE (vm_mem s)\<rparr>"
  shows "space_ok s2 root" "path_ok q \<Longrightarrow> walk (vm_mem s2) root q = walk (vm_mem s) root q"
    "same_leaves root (vm_mem s) (vm_mem s2)"
    "i < 4096 \<Longrightarrow> vm_mem s2 (f + of_nat i) = vm_mem s (old + of_nat i)"
    "old \<noteq> f" "frame_addr f" "f \<notin> tables (vm_mem s) root"
proof -
  let ?m = "vm_mem s" and ?m1 = "memcpy f old PAGE_SIZE (vm_mem s)"
  have tok: "tree_ok ?m root" and pinv: "pmm_inv (vm_pmm s)" and nz: "0 \<notin> avail_frames (vm_pmm s)"
    and dis: "tables ?m root \<inter> avail_frames (vm_pmm s) = {}" using ok by (auto simp: space_ok_def)
  note al = vmm_alloc_frame_ok [OF pinv al0]
  show ff: "frame_addr f" using avail_frame_addr [OF pinv al(1) nz] by simp
  show nf: "f \<notin> tables ?m root" using dis al(1) by auto
  show ne: "old \<noteq> f" using pmm.avail_unowned [OF pinv al(1)] fo(2) by auto
  note mc = memcpy_page [OF ff fo(1) ne [symmetric], where m = ?m]
  have "\<forall>t \<in> tables ?m root. \<forall>b \<in> block t 4096. ?m1 b = ?m b"
  proof (intro ballI)
    fix t b assume t: "t \<in> tables ?m root" "b \<in> block t 4096"
    then have "frame_addr t" "t \<noteq> f" using tok nf by (auto simp: tree_ok_def)
    then have "b \<notin> block f 4096" using frames_disjoint [OF _ ff, of t] t(2) by auto
    then show "?m1 b = ?m b" by (rule mc(2))
  qed
  note tr = tree_ok_same_tables [OF tok this]
  show "space_ok s2 root" using tr al dis nz by (auto simp: space_ok_def s2_def)
  show "path_ok q \<Longrightarrow> walk (vm_mem s2) root q = walk ?m root q" using tr(3) by (simp add: s2_def)
  show "same_leaves root ?m (vm_mem s2)" using tr(4) by (simp add: s2_def)
  show "i < 4096 \<Longrightarrow> vm_mem s2 (f + of_nat i) = ?m (old + of_nat i)" using mc(1) by (simp add: s2_def)
qed

text \<open>The run of the handler up to the choice between taking over and copying.\<close>

lemma fault_run:
  assumes ok: "space_ok s root" and cur: "root = vmm_current_pml4 s"
    and l: "leaf_at (vm_mem s) root v = Some (False, e)" and cow: "bit e 2" "bit e 9"
    and acc: "error_code AND 3 = 3" "v < USER_SPACE_TOP"
    and old: "old = e AND VMM_PHYS_MASK" "0 < frame_refs (vm_pmm s) old"
  obtains pt where "walk (vm_mem s) root [pml4_idx v, pdpt_idx v, pd_idx v] = Some pt" "frame_addr pt" "bit e 0"
    "vmm_handle_page_fault v error_code s =
       (if frame_refs (vm_pmm s) old \<le> 1
        then Some (True, invlpg (ALIGN_DOWN v PAGE_SIZE) (set_mem (pte_addr pt (pt_idx v)) (owned_entry old e) s))
        else
          (let (f, s1) = vmm_alloc_frame s in
           if f = PMM_ALLOC_FAILED then Some (False, s1)
           else do {
             s \<leftarrow> vmm_free_frame old (set_mem (pte_addr pt (pt_idx v)) (owned_entry f e)
                    (s1\<lparr>vm_mem := memcpy f old PAGE_SIZE (vm_mem s1)\<rparr>));
             Some (True, invlpg (ALIGN_DOWN v PAGE_SIZE) s) }))"
proof -
  have tok: "tree_ok (vm_mem s) root" using ok by (simp add: space_ok_def)
  from l obtain pt where pt: "walk (vm_mem s) root [pml4_idx v, pdpt_idx v, pd_idx v] = Some pt"
    "e = pte (vm_mem s) pt (pt_idx v)" "bit e 0" by (rule leaf_small_walk)
  have fpt: "frame_addr pt" by (rule tree_okD(1) [OF tok _ pt(1)]) simp
  have entry: "vmm_get_pte (vmm_current_pml4 s) (ALIGN_DOWN v PAGE_SIZE) s = pte_addr pt (pt_idx v)"
    using fault_entry [of s v] ok pt(1) unfolding cur by (simp del: walk.simps)
  have nzp: "pte_addr pt (pt_idx v) \<noteq> 0" by (rule pte_addr_nonzero [OF fpt idx_less(4)])
  have rd: "read_u64 (vm_mem s) (pte_addr pt (pt_idx v)) = e" by (simp add: pt(2) pte_def)
  obtain n where n: "pmm_frame_refcount old (vm_pmm s) = Some n" "unat n = frame_refs (vm_pmm s) old"
    using refcount_refs [OF old(2)] by blast
  have n1: "n \<le> 1 \<longleftrightarrow> frame_refs (vm_pmm s) old \<le> 1" using n(2) by (simp add: word_le_nat_alt)
  have "\<not> (error_code AND 3 \<noteq> 3 \<or> v \<ge> USER_SPACE_TOP)" using acc by simp
  moreover have "\<not> (pte_addr pt (pt_idx v) = 0 \<or>
      e AND (VMM_PRESENT OR VMM_USER OR VMM_COW) \<noteq> VMM_PRESENT OR VMM_USER OR VMM_COW)"
    using nzp cow pt(3) cow_flags [of e] by simp
  ultimately show ?thesis
    using that [OF pt(1) fpt pt(3)] n n1
    unfolding vmm_handle_page_fault_def Let_def entry rd owned_entry_def old(1) [symmetric]
    by (simp only: if_False bind.bind_lunit n1)
qed

lemma owned_leaf:
  assumes ok: "space_ok s root" and w: "walk (vm_mem s) root [pml4_idx v, pdpt_idx v, pd_idx v] = Some pt"
    and f: "frame_addr f" and e: "bit e 0"
  shows "space_ok (set_mem (pte_addr pt (pt_idx v)) (owned_entry f e) s) root"
    "leaf_at (vm_mem (set_mem (pte_addr pt (pt_idx v)) (owned_entry f e) s)) root w =
       (if vpn w = vpn v then Some (False, owned_entry f e) else leaf_at (vm_mem s) root w)"
proof -
  note l = vmm_map_leaf [OF ok w, where e = "owned_entry f e"]
  show "space_ok (set_mem (pte_addr pt (pt_idx v)) (owned_entry f e) s) root" using l(1) by (rule vm_growsD(1))
  have "bit (owned_entry f e) 0" using bit_owned_entry [OF f, of e 0] e by simp
  then show "leaf_at (vm_mem (set_mem (pte_addr pt (pt_idx v)) (owned_entry f e) s)) root w =
       (if vpn w = vpn v then Some (False, owned_entry f e) else leaf_at (vm_mem s) root w)"
    using l(2) by (intro leaf_at_eqI) simp
qed

lemma owned_bytes:
  assumes "frame_addr pt" and "frame_addr f" and "pt \<noteq> f" and "i < 4096"
  shows "write_u64 (pte_addr pt (pt_idx v)) x m (f + of_nat i) = m (f + of_nat i)"
proof -
  have "f + of_nat i \<in> block f 4096" using assms(4) by (auto simp: block_def)
  then have "f + of_nat i \<notin> block pt 4096" using frames_disjoint [OF assms(1-3)] by auto
  then show ?thesis by (rule write_pte_elsewhere [OF assms(1) idx_less(4)])
qed

text \<open>A page of an unshared frame is taken over in place.\<close>

lemma vmm_fault_last:
  assumes ok: "space_ok s root" and cur: "root = vmm_current_pml4 s"
    and l: "leaf_at (vm_mem s) root v = Some (False, e)" and cow: "bit e 2" "bit e 9"
    and acc: "error_code AND 3 = 3" "v < USER_SPACE_TOP"
    and old: "old = e AND VMM_PHYS_MASK" "frame_refs (vm_pmm s) old = 1" "old \<notin> tables (vm_mem s) root" "old \<noteq> 0"
  shows "\<exists>s'. vmm_handle_page_fault v error_code s = Some (True, s') \<and> fault_result root v old s s' \<and>
    space_ok s' root \<and> vm_pmm s' = vm_pmm s \<and> vm_invlpg s' = ALIGN_DOWN v PAGE_SIZE # vm_invlpg s"
proof -
  have o: "0 < frame_refs (vm_pmm s) old" using old(2) by simp
  from fault_run [OF ok cur l cow acc old(1) o] old(2) obtain pt where
    pt: "walk (vm_mem s) root [pml4_idx v, pdpt_idx v, pd_idx v] = Some pt" "frame_addr pt" "bit e 0"
    and run: "vmm_handle_page_fault v error_code s =
      Some (True, invlpg (ALIGN_DOWN v PAGE_SIZE) (set_mem (pte_addr pt (pt_idx v)) (owned_entry old e) s))"
    by (auto simp del: walk.simps)
  have fo: "frame_addr old" using old(1,4) phys_mask_aligned [of e] by (simp add: frame_addr_def)
  have "pt \<noteq> old" using tablesI [OF idx_path_ok(3) pt(1)] old(3) by auto
  note ow = owned_leaf [OF ok pt(1) fo pt(3)] and by4 = owned_bytes [OF pt(2) fo this]
  have "fault_result root v old s (invlpg (ALIGN_DOWN v PAGE_SIZE) (set_mem (pte_addr pt (pt_idx v)) (owned_entry old e) s))"
    using l ow(2) by4 old(1) unfolding fault_result_def by auto
  then show ?thesis using run ow(1) by (auto simp: space_ok_def)
qed

text \<open>A page of a shared frame gets a copy of its own.\<close>

lemma vmm_fault_shared:
  assumes ok: "space_ok s root" and cur: "root = vmm_current_pml4 s"
    and l: "leaf_at (vm_mem s) root v = Some (False, e)" and cow: "bit e 2" "bit e 9"
    and acc: "error_code AND 3 = 3" "v < USER_SPACE_TOP"
    and old: "old = e AND VMM_PHYS_MASK" "1 < frame_refs (vm_pmm s) old" "old \<noteq> 0"
    and free: "avail_frames (vm_pmm s) \<noteq> {}"
  shows "\<exists>f s'. vmm_handle_page_fault v error_code s = Some (True, s') \<and> fault_result root v f s s' \<and>
    space_ok s' root \<and> f \<in> avail_frames (vm_pmm s) \<and> avail_frames (vm_pmm s') = avail_frames (vm_pmm s) - {f} \<and>
    frame_refs (vm_pmm s') = (frame_refs (vm_pmm s))(f := 1, old := frame_refs (vm_pmm s) old - 1) \<and>
    vm_invlpg s' = ALIGN_DOWN v PAGE_SIZE # vm_invlpg s"
proof -
  have o: "0 < frame_refs (vm_pmm s) old" and pinv: "pmm_inv (vm_pmm s)" using old(2) ok by (simp_all add: space_ok_def)
  obtain f s1 where al0: "vmm_alloc_frame s = (f, s1)" by fastforce
  have nf: "f \<noteq> PMM_ALLOC_FAILED" using vmm_alloc_frame_failed(2) [OF pinv] al0 free by auto
  note al = vmm_alloc_frame_ok [OF pinv al0 nf] and fld = vmm_alloc_frame_fields [OF al0]
  define s2 where "s2 = s1\<lparr>vm_mem := memcpy f old PAGE_SIZE (vm_mem s)\<rparr>"
  have fo: "frame_addr old" using old(1,3) phys_mask_aligned [of e] by (simp add: frame_addr_def)
  note cp = cow_copy [OF ok al0 nf fo o, folded s2_def]
  from fault_run [OF ok cur l cow acc old(1) o] old(2) al0 nf fld(1) obtain pt where
    pt: "walk (vm_mem s) root [pml4_idx v, pdpt_idx v, pd_idx v] = Some pt" "frame_addr pt" "bit e 0"
    and run: "vmm_handle_page_fault v error_code s = do {
       s \<leftarrow> vmm_free_frame old (set_mem (pte_addr pt (pt_idx v)) (owned_entry f e) s2);
       Some (True, invlpg (ALIGN_DOWN v PAGE_SIZE) s) }"
    unfolding s2_def by (auto simp: not_le simp del: walk.simps)
  have w2: "walk (vm_mem s2) root [pml4_idx v, pdpt_idx v, pd_idx v] = Some pt" using cp(2) pt(1) by (simp del: walk.simps)
  define s3 where "s3 = set_mem (pte_addr pt (pt_idx v)) (owned_entry f e) s2"
  note ow = owned_leaf [OF cp(1) w2 cp(6) pt(3), folded s3_def]
  have p3: "vm_pmm s3 = vm_pmm s1" by (simp add: s3_def s2_def)
  have r3: "frame_refs (vm_pmm s3) old = frame_refs (vm_pmm s) old" using al(5) cp(5) p3 by simp
  have pinv3: "pmm_inv (vm_pmm s3)" using ow(1) by (simp add: space_ok_def)
  have o3: "0 < frame_refs (vm_pmm s3) old" using r3 o by simp
  obtain p where p: "vmm_free_frame old s3 = Some (s3\<lparr>vm_pmm := p\<rparr>)" "pmm_inv p"
    "frame_refs p = (frame_refs (vm_pmm s3))(old := frame_refs (vm_pmm s3) old - 1)"
    "avail_frames p = (if frame_refs (vm_pmm s3) old = 1 then insert old (avail_frames (vm_pmm s3)) else avail_frames (vm_pmm s3))"
    by (rule vmm_free_frame_ok [OF pinv3 o3])
  have pav: "avail_frames p = avail_frames (vm_pmm s3)" using p(4) r3 old(2) by simp
  define s' where "s' = invlpg (ALIGN_DOWN v PAGE_SIZE) (s3\<lparr>vm_pmm := p\<rparr>)"
  have "pt \<noteq> f" using tablesI [OF idx_path_ok(3) pt(1)] cp(7) by auto
  then have by4: "vm_mem s' (f + of_nat i) = vm_mem s (old + of_nat i)" if "i < 4096" for i
    using owned_bytes [OF pt(2) cp(6)] cp(4) that by (simp add: s'_def s3_def)
  have "leaf_at (vm_mem s') root w = (if vpn w = vpn v then Some (False, owned_entry f e) else leaf_at (vm_mem s) root w)" for w
    using ow(2) [of w] same_leaves_at [OF cp(3), of w] by (simp add: s'_def)
  then have "fault_result root v f s s'" using l by4 old(1) unfolding fault_result_def by auto
  moreover have "vmm_handle_page_fault v error_code s = Some (True, s')" using run p(1) by (simp add: s'_def s3_def)
  moreover have "space_ok s' root" using ow(1) p(2) pav by (simp add: space_ok_def s'_def)
  moreover have "frame_refs (vm_pmm s') = (frame_refs (vm_pmm s))(f := 1, old := frame_refs (vm_pmm s) old - 1)"
    using p(3) r3 p3 al(5) by (simp add: s'_def)
  moreover have "avail_frames (vm_pmm s') = avail_frames (vm_pmm s) - {f}" using pav p3 al(4) by (simp add: s'_def)
  moreover have "vm_invlpg s' = ALIGN_DOWN v PAGE_SIZE # vm_invlpg s" using fld by (simp add: s'_def s3_def s2_def)
  ultimately show ?thesis using al(1) by blast
qed

end
