(* ===== verification/Address_Space.thy ===== *)
theory Address_Space
  imports Paging
begin

text \<open>
  Whole address spaces: the tables vmm_init builds and what they translate, new address spaces that
  share the kernel's part, and the properties of the public operations of vmm.c with their samples.
\<close>

section \<open>The kernel's own tables\<close>

text \<open>
  The tables vmm_init builds, entry by entry: six frames, the first 2 MiB page by page without the
  null page and the guard page, the rest of the first GiB in large pages, and the kernel alias.
\<close>

definition kernel_tables :: "mem \<Rightarrow> u64 \<Rightarrow> u64 \<Rightarrow> u64 \<Rightarrow> u64 \<Rightarrow> u64 \<Rightarrow> u64 \<Rightarrow> u64 \<Rightarrow> bool" where
  "kernel_tables m guard pml4 pdpt pd pt pdpt_hh pd_hh \<longleftrightarrow>
     distinct [pml4, pdpt, pd, pt, pdpt_hh, pd_hh] \<and>
     (\<forall>t \<in> {pml4, pdpt, pd, pt, pdpt_hh, pd_hh}. frame_addr t \<and> t < 2 ^ 52) \<and>
     (\<forall>i < 512.
        pte m pml4 i = (if i = 0 then pdpt OR VMM_PRESENT OR VMM_WRITE
                        else if i = 511 then pdpt_hh OR VMM_PRESENT OR VMM_WRITE else 0) \<and>
        pte m pdpt i = (if i = 0 then pd OR VMM_PRESENT OR VMM_WRITE else 0) \<and>
        pte m pd i = (if i = 0 then pt OR VMM_PRESENT OR VMM_WRITE
                      else i * 0x200000 OR VMM_PRESENT OR VMM_WRITE OR VMM_HUGE) \<and>
        pte m pt i = (if i = 0 \<or> i * PAGE_SIZE = guard then 0 else i * PAGE_SIZE OR VMM_PRESENT OR VMM_WRITE) \<and>
        pte m pdpt_hh i = (if i = 510 then pd_hh OR VMM_PRESENT OR VMM_WRITE else 0) \<and>
        pte m pd_hh i = (if i = 0 then VMM_PRESENT OR VMM_WRITE OR VMM_HUGE else 0))"

lemma pte_fold_set:
  assumes "frame_addr t" and "frame_addr t'" and "j < 512" and "\<forall>i \<in> set is. i < 512"
  shows "pte (vm_mem (fold (\<lambda>i s. if P i then s else set_mem (pte_addr t (of_nat i)) (g i) s) is s)) t' j =
    (if t' = t \<and> unat j \<in> set is \<and> \<not> P (unat j) then g (unat j) else pte (vm_mem s) t' j)"
  using assms(4)
proof (induction "is" arbitrary: s)
  case (Cons i "is")
  have i: "(of_nat i :: u64) < 512" "unat (of_nat i :: u64) = i"
    using Cons.prems by (auto simp: word_less_nat_alt unat_of_nat)
  have "of_nat i = j \<longleftrightarrow> i = unat j" using i(2) by auto
  then show ?case using Cons pte_write [OF assms(1,2) i(1) assms(3)] by auto
qed simp

lemma fold_set_fields:
  "vm_pmm (fold (\<lambda>i s. if P i then s else set_mem (a i) (g i) s) is s) = vm_pmm s"
  "vm_invlpg (fold (\<lambda>i s. if P i then s else set_mem (a i) (g i) s) is s) = vm_invlpg s"
  by (induction "is" arbitrary: s) auto

lemma vmm_new_table_spec:
  assumes "pmm_inv (vm_pmm s)" and "0 \<notin> avail_frames (vm_pmm s)" and "vmm_new_table s = Some (f, s')"
  shows "f \<in> avail_frames (vm_pmm s)" "frame_addr f" "f < 2 ^ 52" "pmm_inv (vm_pmm s')"
    "avail_frames (vm_pmm s') = avail_frames (vm_pmm s) - {f}" "frame_refs (vm_pmm s') = (frame_refs (vm_pmm s))(f := 1)"
    "vm_mem s' = memset f 0 PAGE_SIZE (vm_mem s)" "0 \<notin> avail_frames (vm_pmm s')"
proof -
  obtain s1 where al0: "vmm_alloc_frame s = (f, s1)" and nf: "f \<noteq> PMM_ALLOC_FAILED" and s': "s' = zero_page f s1"
    using assms(3) by (auto simp: vmm_new_table_def Let_def split: prod.splits if_splits)
  note al = vmm_alloc_frame_ok [OF assms(1) al0 nf] and fld = vmm_alloc_frame_fields [OF al0]
  show "f \<in> avail_frames (vm_pmm s)" by (rule al(1))
  show "frame_addr f" "f < 2 ^ 52" using avail_frame_addr [OF assms(1) al(1) assms(2)] by auto
  show "pmm_inv (vm_pmm s')" "avail_frames (vm_pmm s') = avail_frames (vm_pmm s) - {f}"
    "frame_refs (vm_pmm s') = (frame_refs (vm_pmm s))(f := 1)" "vm_mem s' = memset f 0 PAGE_SIZE (vm_mem s)"
    "0 \<notin> avail_frames (vm_pmm s')"
    using al fld assms(2) by (simp_all add: s')
qed

lemma vmm_new_table_None:
  assumes "pmm_inv (vm_pmm s)"
  shows "vmm_new_table s = None \<longleftrightarrow> avail_frames (vm_pmm s) = {}"
  using pmm.alloc_failed_iff [OF assms]
  by (auto simp: vmm_new_table_def vmm_alloc_frame_def Let_def split: prod.splits)

text \<open>The walks of these tables, and with them their shape.\<close>

lemma kernel_tablesD:
  assumes "kernel_tables m guard pml4 pdpt pd pt pdpt_hh pd_hh" and "i < 512"
  shows "link (pte m pml4 i) = (if i = 0 then Some pdpt else if i = 511 then Some pdpt_hh else None)"
    and "link (pte m pdpt i) = (if i = 0 then Some pd else None)"
    and "link (pte m pd i) = (if i = 0 then Some pt else None)"
    and "link (pte m pdpt_hh i) = (if i = 510 then Some pd_hh else None)"
    and "link (pte m pd_hh i) = None"
proof -
  have huge: "link (x OR VMM_PRESENT OR VMM_WRITE OR VMM_HUGE) = None" for x by (simp add: link_def bit_or_iff)
  have new: "link (f OR VMM_PRESENT OR VMM_WRITE) = Some f" if "f \<in> {pml4, pdpt, pd, pt, pdpt_hh, pd_hh}" for f
    using assms(1) that link_new_entry(1) unfolding kernel_tables_def by blast
  show "link (pte m pml4 i) = (if i = 0 then Some pdpt else if i = 511 then Some pdpt_hh else None)"
    "link (pte m pdpt i) = (if i = 0 then Some pd else None)"
    "link (pte m pd i) = (if i = 0 then Some pt else None)"
    "link (pte m pdpt_hh i) = (if i = 510 then Some pd_hh else None)"
    "link (pte m pd_hh i) = None"
    using assms huge [of 0] huge [of "i * 0x200000"] by (auto simp: kernel_tables_def new)
qed

lemma kernel_walk:
  assumes kt: "kernel_tables m guard pml4 pdpt pd pt pdpt_hh pd_hh" and "path_ok p"
  shows "walk m pml4 p = Some t \<longleftrightarrow> (p, t) \<in> {([], pml4), ([0], pdpt), ([0, 0], pd), ([0, 0, 0], pt),
    ([511], pdpt_hh), ([511, 510], pd_hh)}"
proof -
  note L = kernel_tablesD [OF kt]
  consider "p = []" | i where "p = [i]" "i < 512" | i j where "p = [i, j]" "i < 512" "j < 512"
    | i j k where "p = [i, j, k]" "i < 512" "j < 512" "k < 512"
  proof -
    assume "p = [] \<Longrightarrow> thesis" "\<And>i. p = [i] \<Longrightarrow> i < 512 \<Longrightarrow> thesis"
      "\<And>i j. p = [i, j] \<Longrightarrow> i < 512 \<Longrightarrow> j < 512 \<Longrightarrow> thesis"
      "\<And>i j k. p = [i, j, k] \<Longrightarrow> i < 512 \<Longrightarrow> j < 512 \<Longrightarrow> k < 512 \<Longrightarrow> thesis"
    moreover have "length p \<le> 3" "\<forall>i \<in> set p. i < 512" using assms(2) by (auto simp: path_ok_def)
    ultimately show thesis
      by (cases p; cases "tl p"; cases "tl (tl p)"; cases "tl (tl (tl p))") auto
  qed
  then show ?thesis by cases (auto simp: L split: if_splits)
qed

lemma kernel_tree_ok:
  assumes kt: "kernel_tables m guard pml4 pdpt pd pt pdpt_hh pd_hh"
  shows "tree_ok m pml4" "tables m pml4 = {pml4, pdpt, pd, pt, pdpt_hh, pd_hh}"
proof -
  note W = kernel_walk [OF kt]
  have six: "path_ok []" "path_ok [0]" "path_ok [0, 0]" "path_ok [0, 0, 0]" "path_ok [511]" "path_ok [511, 510]"
    by (simp_all add: path_ok_def)
  have sub: "t \<in> {pml4, pdpt, pd, pt, pdpt_hh, pd_hh}" if "t \<in> tables m pml4" for t
    using that W by (auto simp: tables_def)
  moreover have "t \<in> tables m pml4" if "t \<in> {pml4, pdpt, pd, pt, pdpt_hh, pd_hh}" for t
  proof -
    have "\<exists>p. path_ok p \<and> (p, t) \<in> {([], pml4), ([0], pdpt), ([0, 0], pd), ([0, 0, 0], pt), ([511], pdpt_hh), ([511, 510], pd_hh)}"
      using that six by blast
    then show ?thesis using W unfolding tables_def by blast
  qed
  ultimately show tb: "tables m pml4 = {pml4, pdpt, pd, pt, pdpt_hh, pd_hh}" by blast
  have a: "\<forall>t \<in> tables m pml4. frame_addr t" unfolding tb using kt unfolding kernel_tables_def by blast
  have d: "distinct [pml4, pdpt, pd, pt, pdpt_hh, pd_hh]" using kt by (simp add: kernel_tables_def)
  have b: "p = q" if "path_ok p" "path_ok q" "walk m pml4 p = Some t" "walk m pml4 q = Some t" for p q t
    using W [OF that(1), of t] W [OF that(2), of t] that(3,4) d by auto
  have c: "length p = 2 \<and> bit (pte m t i) 0"
    if p: "path_ok (p @ [i])" "walk m pml4 p = Some t" "bit (pte m t i) 7" for p t i
  proof -
    have pk: "path_ok p" "i < 512" "length p \<le> 2" using path_ok_snocD [OF p(1)] by auto
    have n7: "\<not> bit (f OR VMM_PRESENT OR VMM_WRITE) 7" if "f \<in> {pml4, pdpt, pd, pt, pdpt_hh, pd_hh}" for f
      using kt that link_new_entry(3) unfolding kernel_tables_def by blast
    have K: "pte m pml4 i = (if i = 0 then pdpt OR VMM_PRESENT OR VMM_WRITE
          else if i = 511 then pdpt_hh OR VMM_PRESENT OR VMM_WRITE else 0)"
        "pte m pdpt i = (if i = 0 then pd OR VMM_PRESENT OR VMM_WRITE else 0)"
        "pte m pd i = (if i = 0 then pt OR VMM_PRESENT OR VMM_WRITE else i * 0x200000 OR VMM_PRESENT OR VMM_WRITE OR VMM_HUGE)"
        "pte m pdpt_hh i = (if i = 510 then pd_hh OR VMM_PRESENT OR VMM_WRITE else 0)"
        "pte m pd_hh i = (if i = 0 then VMM_PRESENT OR VMM_WRITE OR VMM_HUGE else 0)"
      using kt pk(2) by (auto simp: kernel_tables_def)
    have up: "\<not> bit (pte m pml4 i) 7" "\<not> bit (pte m pdpt i) 7" "\<not> bit (pte m pdpt_hh i) 7" using K n7 by auto
    have low: "bit (pte m pd i) 7 \<longrightarrow> bit (pte m pd i) 0" "bit (pte m pd_hh i) 7 \<longrightarrow> bit (pte m pd_hh i) 0"
      using K by (auto simp: bit_or_iff)
    show ?thesis using W [OF pk(1), of t] p(2,3) up low pk(3) by auto
  qed
  show "tree_ok m pml4" unfolding tree_ok_def using a b c by blast
qed

lemma unat_low9: "unat ((w::u64) AND 0x1FF) = unat w mod 512"
proof -
  have m: "(0x1FF::u64) = mask 9" by (simp add: mask_eq_exp_minus_1)
  show ?thesis unfolding m by (simp add: take_bit_eq_mask [symmetric] take_bit_eq_mod unat_mod)
qed

lemma unat_idx:
  "unat (pml4_idx v) = unat v div 2 ^ 39 mod 512" "unat (pdpt_idx v) = unat v div 2 ^ 30 mod 512"
  "unat (pd_idx v) = unat v div 2 ^ 21 mod 512" "unat (pt_idx v) = unat v div 2 ^ 12 mod 512"
  unfolding pml4_idx_def pdpt_idx_def pd_idx_def pt_idx_def unat_low9
  by (simp_all add: drop_bit_eq_div unat_div)

lemma idx_low:
  assumes "unat v < 2 ^ 47"
  shows "pml4_idx v \<noteq> 511" "pml4_idx v = 0 \<longleftrightarrow> unat v < 2 ^ 39" "unat v < 2 ^ 39 \<Longrightarrow> pdpt_idx v = 0 \<longleftrightarrow> unat v < 2 ^ 30"
    "unat v < 2 ^ 30 \<Longrightarrow> unat (pd_idx v) = unat v div 2 ^ 21" "unat v < 2 ^ 30 \<Longrightarrow> pd_idx v = 0 \<longleftrightarrow> unat v < 2 ^ 21"
    "unat v < 2 ^ 21 \<Longrightarrow> unat (pt_idx v) = unat v div 2 ^ 12"
proof -
  have z: "x = (0::u64) \<longleftrightarrow> unat x = 0" for x by (simp add: unat_eq_0)
  have e: "x = (511::u64) \<longleftrightarrow> unat x = 511" for x by (simp add: word_unat_eq_iff)
  show "pml4_idx v \<noteq> 511" unfolding e unat_idx using assms by simp
  show "pml4_idx v = 0 \<longleftrightarrow> unat v < 2 ^ 39" unfolding z unat_idx using assms by (simp add: div_eq_0_iff)
  show "unat v < 2 ^ 39 \<Longrightarrow> pdpt_idx v = 0 \<longleftrightarrow> unat v < 2 ^ 30" unfolding z unat_idx by (simp add: div_eq_0_iff)
  show "unat v < 2 ^ 30 \<Longrightarrow> unat (pd_idx v) = unat v div 2 ^ 21" unfolding unat_idx by simp
  show "unat v < 2 ^ 30 \<Longrightarrow> pd_idx v = 0 \<longleftrightarrow> unat v < 2 ^ 21" unfolding z unat_idx by (simp add: div_eq_0_iff)
  show "unat v < 2 ^ 21 \<Longrightarrow> unat (pt_idx v) = unat v div 2 ^ 12" unfolding unat_idx by simp
qed

lemma idx_high:
  assumes "unat v \<ge> 2 ^ 64 - 2 ^ 47"
  shows "pml4_idx v \<noteq> 0" "pml4_idx v = 511 \<and> pdpt_idx v = 510 \<and> pd_idx v = 0 \<longleftrightarrow>
    2 ^ 64 - 2 ^ 31 \<le> unat v \<and> unat v < 2 ^ 64 - 2 ^ 31 + 2 ^ 21"
proof -
  have z: "x = (0::u64) \<longleftrightarrow> unat x = 0" for x by (simp add: unat_eq_0)
  have e: "x = (511::u64) \<longleftrightarrow> unat x = 511" "x = (510::u64) \<longleftrightarrow> unat x = 510" for x by (simp_all add: word_unat_eq_iff)
  let ?a = "unat v div 2 ^ 21"
  have v: "unat v < 2 ^ 64" using unsigned_less [of v] by simp
  have b: "2 ^ 43 - 2 ^ 26 \<le> ?a" "?a < 2 ^ 43" using assms v by simp_all
  have d: "unat v div 2 ^ 39 = ?a div 2 ^ 18" "unat v div 2 ^ 30 = ?a div 2 ^ 9"
    by (simp_all add: div_mult2_eq [symmetric])
  let ?q = "?a div 2 ^ 18"
  have q: "2 ^ 25 - 2 ^ 8 \<le> ?q" "?q < 2 ^ 25" using b by simp_all
  have q512: "?q = 512 * (?q div 512) + ?q mod 512" by simp
  have qd: "?q div 512 = 65535" using q by simp
  have "33554176 \<le> ?q" using q(1) by simp
  then have "0 < ?q mod 512" using q512 qd by linarith
  then show "pml4_idx v \<noteq> 0" unfolding z unat_idx d by simp
  have "?q mod 512 = 511 \<and> ?a div 2 ^ 9 mod 512 = 510 \<and> ?a mod 512 = 0 \<longleftrightarrow> ?a = 2 ^ 43 - 2 ^ 10" (is "?l \<longleftrightarrow> ?r")
  proof
    assume h: ?l
    have "?q = 33554431" using q512 qd h by linarith
    moreover have "?a div 2 ^ 9 div 512 = ?q" by (simp add: div_mult2_eq [symmetric])
    ultimately have "?a div 2 ^ 9 = 512 * 33554431 + 510" using h div_mult_mod_eq [of "?a div 2 ^ 9" 512] by linarith
    then have "?a div 512 = 17179869182" by simp
    moreover have "?a = ?a div 512 * 512" using h by (metis add_0_right div_mult_mod_eq)
    ultimately have "?a = 17179869182 * 512" by metis
    then show ?r by simp
  next
    assume h: ?r
    show ?l unfolding h by simp
  qed
  also have "\<dots> \<longleftrightarrow> 2 ^ 64 - 2 ^ 31 \<le> unat v \<and> unat v < 2 ^ 64 - 2 ^ 31 + 2 ^ 21" by auto
  finally show "pml4_idx v = 511 \<and> pdpt_idx v = 510 \<and> pd_idx v = 0 \<longleftrightarrow>
    2 ^ 64 - 2 ^ 31 \<le> unat v \<and> unat v < 2 ^ 64 - 2 ^ 31 + 2 ^ 21" unfolding z e unat_idx d .
qed


lemma low_bits_below:
  assumes "unat (v::u64) < 2 ^ k" and "k \<le> n"
  shows "\<not> bit v n"
proof
  assume "bit v n"
  then have "bit (unat v) n" by (simp add: bit_unsigned_iff)
  moreover have "take_bit k (unat v) = unat v" using assms(1) by (simp add: take_bit_nat_eq_self_iff)
  ultimately show False using assms(2) by (metis bit_take_bit_iff not_le)
qed

lemma mult_pow: "(x::u64) * 0x200000 = push_bit 21 x" "x * PAGE_SIZE = push_bit 12 x"
  by (simp_all add: push_bit_eq_mult PAGE_SIZE_def)

lemma large_mask: "(0x000FFFFFFFE00000 :: u64) = push_bit 21 (mask 31)" "(0x1FFFFF :: u64) = mask 21" "(0xFFF :: u64) = mask 12"
  by (simp_all add: mask_eq_exp_minus_1)

lemma identity_large:
  assumes "unat v < 2 ^ 30"
  shows "(pd_idx v * 0x200000 OR VMM_PRESENT OR VMM_WRITE OR VMM_HUGE) AND 0x000FFFFFFFE00000 OR v AND 0x1FFFFF = v"
  unfolding mult_pow large_mask
proof (rule bit_word_eqI)
  fix n assume n: "n < LENGTH(64)"
  have hi: "\<not> bit v n" if "30 \<le> n" using low_bits_below [OF assms that] .
  have "bit (pd_idx v) (n - 21) = bit v n" if "21 \<le> n" "n < 30"
    using bit_idx(2) [of "n - 21" v] that by simp
  then show "bit ((push_bit 21 (pd_idx v) OR VMM_PRESENT OR VMM_WRITE OR VMM_HUGE) AND push_bit 21 (mask 31) OR v AND mask 21) n = bit v n"
    using hi n bit_idx_high(2) [of "n - 21" v]
    by (cases "n < 21"; cases "n < 30") (auto simp: bit_simps)
qed

lemma identity_small:
  assumes "unat v < 2 ^ 21"
  shows "(pt_idx v * PAGE_SIZE OR VMM_PRESENT OR VMM_WRITE) AND VMM_PHYS_MASK OR v AND 0xFFF = v"
  unfolding mult_pow large_mask
proof (rule bit_word_eqI)
  fix n assume n: "n < LENGTH(64)"
  have hi: "\<not> bit v n" if "21 \<le> n" using low_bits_below [OF assms that] .
  have "bit (pt_idx v) (n - 12) = bit v n" if "12 \<le> n" "n < 21"
    using bit_idx(1) [of "n - 12" v] that by simp
  then show "bit ((push_bit 12 (pt_idx v) OR VMM_PRESENT OR VMM_WRITE) AND VMM_PHYS_MASK OR v AND mask 12) n = bit v n"
    using hi n bit_idx_high(1) [of "n - 12" v]
    by (cases "n < 12"; cases "n < 21") (auto simp: bit_simps)
qed

lemma page_start:
  assumes "unat v < 2 ^ 21"
  shows "pt_idx v * PAGE_SIZE = ALIGN_DOWN v PAGE_SIZE" "pt_idx v = 0 \<longleftrightarrow> v < 4096"
proof -
  have m: "PAGE_SIZE - 1 = mask 12" by (simp add: PAGE_SIZE_def mask_eq_exp_minus_1)
  show "pt_idx v * PAGE_SIZE = ALIGN_DOWN v PAGE_SIZE" unfolding mult_pow ALIGN_DOWN_def m
  proof (rule bit_word_eqI)
    fix n assume n: "n < LENGTH(64)"
    have hi: "\<not> bit v n" if "21 \<le> n" using low_bits_below [OF assms that] .
    have "bit (pt_idx v) (n - 12) = bit v n" if "12 \<le> n" "n < 21"
      using bit_idx(1) [of "n - 12" v] that by simp
    then show "bit (push_bit 12 (pt_idx v)) n = bit (v AND NOT (mask 12)) n"
      using hi n bit_idx_high(1) [of "n - 12" v]
      by (cases "n < 12"; cases "n < 21") (auto simp: bit_simps)
  qed
  have "unat (pt_idx v) = 0 \<longleftrightarrow> unat v < 4096" using idx_low(6) [of v] assms by (simp add: div_eq_0_iff)
  then show "pt_idx v = 0 \<longleftrightarrow> v < 4096" by (simp add: unat_eq_0 word_less_nat_alt)
qed

lemma kernel_vma_offset:
  assumes "2 ^ 64 - 2 ^ 31 \<le> unat v" "unat v < 2 ^ 64 - 2 ^ 31 + 2 ^ 21"
  shows "v AND 0x1FFFFF = v - KERNEL_VMA"
proof -
  have "unat (v - KERNEL_VMA) = unat v - (2 ^ 64 - 2 ^ 31)"
  proof -
    have "KERNEL_VMA \<le> v" using assms(1) by (simp add: KERNEL_VMA_def word_le_nat_alt)
    then show ?thesis by (simp add: unat_sub KERNEL_VMA_def)
  qed
  moreover have "unat (v AND 0x1FFFFF) = unat v mod 2 ^ 21"
    unfolding large_mask(2) by (simp add: take_bit_eq_mask [symmetric] take_bit_eq_mod unat_mod)
  moreover have "unat v mod 2 ^ 21 = unat v - (2 ^ 64 - 2 ^ 31)"
  proof -
    have "unat v = (unat v - (2 ^ 64 - 2 ^ 31)) + 2 ^ 21 * (2 ^ 43 - 2 ^ 10)" using assms by simp
    then have "unat v mod 2 ^ 21 = (unat v - (2 ^ 64 - 2 ^ 31)) mod 2 ^ 21" by (metis mod_mult_self2)
    then show ?thesis using assms by simp
  qed
  ultimately show ?thesis by (simp add: word_unat_eq_iff)
qed

lemma kernel_walk_None:
  assumes "kernel_tables m guard pml4 pdpt pd pt pdpt_hh pd_hh" and "path_ok p"
    and "p \<notin> {[], [0], [0, 0], [0, 0, 0], [511], [511, 510]}"
  shows "walk m pml4 p = None"
  using kernel_walk [OF assms(1,2)] assms(3) by (cases "walk m pml4 p") auto

text \<open>What the kernel's tables translate.\<close>

definition kernel_map :: "u64 \<Rightarrow> u64 \<Rightarrow> u64" where
  "kernel_map guard v =
     (if v < 2 ^ 30 then
        if v < 4096 \<or> v < 0x200000 \<and> ALIGN_DOWN v PAGE_SIZE = guard then PMM_ALLOC_FAILED else v
      else if KERNEL_VMA \<le> v \<and> v < KERNEL_VMA + 0x200000 then v - KERNEL_VMA
      else PMM_ALLOC_FAILED)"

definition canonical :: "u64 \<Rightarrow> bool" where
  "canonical v \<longleftrightarrow> v < USER_SPACE_TOP \<or> 0xFFFF800000000000 \<le> v"

lemma kernel_translation:
  assumes kt: "kernel_tables (vm_mem s) guard pml4 pdpt pd pt pdpt_hh pd_hh" and v: "canonical v"
  shows "vmm_get_physical pml4 v s = kernel_map guard v"
proof -
  let ?m = "vm_mem s"
  have tok: "tree_ok ?m pml4" by (rule kernel_tree_ok(1) [OF kt])
  note W = kernel_walk [OF kt] and N = kernel_walk_None [OF kt]
  have K: "pte ?m pd (pd_idx v) = (if pd_idx v = 0 then pt OR VMM_PRESENT OR VMM_WRITE
        else pd_idx v * 0x200000 OR VMM_PRESENT OR VMM_WRITE OR VMM_HUGE)"
      "pte ?m pt (pt_idx v) = (if pt_idx v = 0 \<or> pt_idx v * PAGE_SIZE = guard then 0
        else pt_idx v * PAGE_SIZE OR VMM_PRESENT OR VMM_WRITE)"
      "pte ?m pd_hh (pd_idx v) = (if pd_idx v = 0 then VMM_PRESENT OR VMM_WRITE OR VMM_HUGE else 0)"
    using kt idx_less unfolding kernel_tables_def by blast+
  note eq = vmm_get_physical_leaf [OF tok, of v]
  show ?thesis
  proof (cases "unat v < 2 ^ 47")
    case True
    note I = idx_low [OF True]
    show ?thesis
    proof (cases "unat v < 2 ^ 30")
      case low: True
      then have i: "pml4_idx v = 0" "pdpt_idx v = 0" using I by auto
      have pd: "walk ?m pml4 [pml4_idx v, pdpt_idx v] = Some pd" using W [OF idx_path_ok(2), of v] i by (simp del: walk.simps)
      have lt: "v < 2 ^ 30" using low by (simp add: word_less_nat_alt)
      show ?thesis
      proof (cases "unat v < 2 ^ 21")
        case True
        then have pt: "walk ?m pml4 [pml4_idx v, pdpt_idx v, pd_idx v] = Some pt"
          using W [OF idx_path_ok(3), of v] i I(5) [OF low] by (simp del: walk.simps)
        have "bit (pt_idx v * PAGE_SIZE OR VMM_PRESENT OR VMM_WRITE) 0" by (simp add: bit_or_iff)
        moreover have "v < 0x200000" using True by (simp add: word_less_nat_alt)
        ultimately show ?thesis using eq pt K(2) page_start [OF True] identity_small [OF True] lt
          by (auto simp: leaf_at_def leaf_def leaf_phys_def kernel_map_def simp del: walk.simps)
      next
        case False
        then have nz: "pd_idx v \<noteq> 0" using I(5) [OF low] by simp
        then have "walk ?m pml4 [pml4_idx v, pdpt_idx v, pd_idx v] = None"
          using N [OF idx_path_ok(3), of v] i by (auto simp del: walk.simps)
        moreover have "bit (pd_idx v * 0x200000 OR VMM_PRESENT OR VMM_WRITE OR VMM_HUGE) 0" by (simp add: bit_or_iff)
        moreover have "\<not> v < 0x200000" "\<not> v < 4096" using False by (simp_all add: word_less_nat_alt)
        ultimately show ?thesis using eq pd K(1) nz identity_large [OF low] lt
          by (auto simp: leaf_at_def leaf_def leaf_phys_def kernel_map_def simp del: walk.simps)
      qed
    next
      case False
      have "walk ?m pml4 [pml4_idx v, pdpt_idx v] = None"
        using N [OF idx_path_ok(2), of v] I(1-3) False by (auto simp del: walk.simps)
      moreover have "walk ?m pml4 [pml4_idx v, pdpt_idx v, pd_idx v] = None"
        using N [OF idx_path_ok(3), of v] I(1-3) False by (auto simp del: walk.simps)
      moreover have "\<not> v < 2 ^ 30" "\<not> KERNEL_VMA \<le> v" using False True
        by (simp_all add: word_less_nat_alt word_le_nat_alt KERNEL_VMA_def)
      ultimately show ?thesis using eq
        by (simp add: leaf_at_def leaf_def leaf_phys_def kernel_map_def del: walk.simps)
    qed
  next
    case False
    then have hi: "unat v \<ge> 2 ^ 64 - 2 ^ 47"
      using v by (auto simp: canonical_def USER_SPACE_TOP_def word_less_nat_alt word_le_nat_alt)
    note I = idx_high [OF hi]
    have n3: "walk ?m pml4 [pml4_idx v, pdpt_idx v, pd_idx v] = None"
      using N [OF idx_path_ok(3), of v] I(1) by (auto simp del: walk.simps)
    have k: "KERNEL_VMA \<le> v \<and> v < KERNEL_VMA + 0x200000 \<longleftrightarrow> 2 ^ 64 - 2 ^ 31 \<le> unat v \<and> unat v < 2 ^ 64 - 2 ^ 31 + 2 ^ 21"
      by (simp add: word_less_nat_alt word_le_nat_alt KERNEL_VMA_def)
    have big: "\<not> v < 2 ^ 30" using hi by (simp add: word_less_nat_alt)
    show ?thesis
    proof (cases "pml4_idx v = 511 \<and> pdpt_idx v = 510")
      case True
      then have w: "walk ?m pml4 [pml4_idx v, pdpt_idx v] = Some pd_hh"
        using W [OF idx_path_ok(2), of v] by (auto simp del: walk.simps)
      have "(VMM_PRESENT OR VMM_WRITE OR VMM_HUGE) AND 0x000FFFFFFFE00000 = 0" "bit (VMM_PRESENT OR VMM_WRITE OR VMM_HUGE) 0"
        by (simp_all add: VMM_PRESENT_def VMM_WRITE_def VMM_HUGE_def)
      then show ?thesis using eq w n3 K(3) I(2) True kernel_vma_offset [of v] k big
        by (auto simp: leaf_at_def leaf_def leaf_phys_def kernel_map_def simp del: walk.simps)
    next
      case False
      then have "walk ?m pml4 [pml4_idx v, pdpt_idx v] = None"
        using N [OF idx_path_ok(2), of v] I(1) by (auto simp del: walk.simps)
      then show ?thesis using eq n3 I(2) False k big
        by (auto simp: leaf_at_def leaf_def leaf_phys_def kernel_map_def simp del: walk.simps)
    qed
  qed
qed

lemma pte_fold_all:
  assumes "frame_addr t" and "frame_addr t'" and "j < 512" and "\<forall>i \<in> set is. i < 512"
  shows "pte (vm_mem (fold (\<lambda>i. set_mem (pte_addr t (of_nat i)) (g i)) is s)) t' j =
    (if t' = t \<and> unat j \<in> set is then g (unat j) else pte (vm_mem s) t' j)"
  using pte_fold_set [OF assms, of "\<lambda>_. False" g s] by simp

lemma fold_all_fields: "vm_pmm (fold (\<lambda>i. set_mem (a i) (g i)) is s) = vm_pmm s"
  using fold_set_fields(1) [of "\<lambda>_. False" a g "is" s] by simp

lemma vmm_new_table_pte:
  assumes "pmm_inv (vm_pmm s)" and "0 \<notin> avail_frames (vm_pmm s)" and "vmm_new_table s = Some (f, s')"
    and "frame_addr t" and "j < 512"
  shows "pte (vm_mem s') t j = (if t = f then 0 else pte (vm_mem s) t j)"
  using pte_zero_page [OF assms(4) vmm_new_table_spec(2) [OF assms(1-3)] assms(5), of "vm_mem s"]
    vmm_new_table_spec(7) [OF assms(1-3)] by simp

text \<open>The two page-wise parts of vmm_init: the table of the first 2 MiB, and the directory above it.\<close>

lemma vmm_init_run:
  assumes inv: "pmm_inv (vm_pmm s)" and nz: "0 \<notin> avail_frames (vm_pmm s)" and run: "vmm_init sb kend s = Some s'"
  shows "\<exists>pdpt pd pt pdpt_hh pd_hh.
    kernel_tables (vm_mem s') (sb - PAGE_SIZE) (kernel_pml4 s') pdpt pd pt pdpt_hh pd_hh \<and>
    {kernel_pml4 s', pdpt, pd, pt, pdpt_hh, pd_hh} \<subseteq> avail_frames (vm_pmm s) \<and>
    avail_frames (vm_pmm s') = avail_frames (vm_pmm s) - {kernel_pml4 s', pdpt, pd, pt, pdpt_hh, pd_hh} \<and>
    pmm_inv (vm_pmm s') \<and> vm_cr3 s' = kernel_pml4 s' \<and> kheap_next s' = ALIGN_UP (KERNEL_VMA + kend) 0x200000"
proof -
  let ?g = "sb - PAGE_SIZE" and ?pw = "VMM_PRESENT OR VMM_WRITE"
  obtain a s1 where A: "vmm_new_table s = Some (a, s1)"
    using run by (auto simp: vmm_init_def Let_def split: Option.bind_splits prod.splits)
  obtain b s2 where B: "vmm_new_table s1 = Some (b, s2)"
    using run A by (auto simp: vmm_init_def Let_def split: Option.bind_splits prod.splits)
  define s3 where "s3 = fold (\<lambda>i s. if of_nat i * PAGE_SIZE = ?g then s
         else set_mem (pte_addr b (of_nat i)) (of_nat i * PAGE_SIZE OR ?pw) s) [1..<512] s2"
  obtain c s4 where C: "vmm_new_table s3 = Some (c, s4)"
    using run A B by (auto simp: vmm_init_def Let_def s3_def split: Option.bind_splits prod.splits)
  define s5 where "s5 = fold (\<lambda>i. set_mem (pte_addr c (of_nat i)) (of_nat i * 0x200000 OR VMM_PRESENT OR VMM_WRITE OR VMM_HUGE))
         [1..<512] (set_mem (pte_addr c 0) (b OR ?pw) s4)"
  obtain d s6 where D: "vmm_new_table s5 = Some (d, s6)"
    using run A B C by (auto simp: vmm_init_def Let_def s3_def s5_def split: Option.bind_splits prod.splits)
  define s7 where "s7 = set_mem (pte_addr a 0) (d OR ?pw) (set_mem (pte_addr d 0) (c OR ?pw) s6)"
  obtain e s8 where E: "vmm_new_table s7 = Some (e, s8)"
    using run A B C D by (auto simp: vmm_init_def Let_def s3_def s5_def s7_def split: Option.bind_splits prod.splits)
  obtain f s9 where F: "vmm_new_table s8 = Some (f, s9)"
    using run A B C D E by (auto simp: vmm_init_def Let_def s3_def s5_def s7_def split: Option.bind_splits prod.splits)
  define s10 where "s10 = set_mem (pte_addr a 511) (e OR ?pw) (set_mem (pte_addr e 510) (f OR ?pw)
     (set_mem (pte_addr f 0) (0 OR VMM_PRESENT OR VMM_WRITE OR VMM_HUGE) s9))"
  have fin: "s' = s10\<lparr>kernel_pml4 := a, vm_cr3 := a, kheap_next := ALIGN_UP (KERNEL_VMA + kend) 0x200000\<rparr>"
    using run A B C D E F
    by (simp add: vmm_init_def Let_def s3_def s5_def s7_def s10_def vmm_switch_def)
  note A1 = vmm_new_table_spec [OF inv nz A] and A2 = vmm_new_table_pte [OF inv nz A]
  note B1 = vmm_new_table_spec [OF A1(4,8) B] and B2 = vmm_new_table_pte [OF A1(4,8) B]
  have p3: "vm_pmm s3 = vm_pmm s2" unfolding s3_def by (rule fold_set_fields(1))
  have i3: "pmm_inv (vm_pmm s3)" "0 \<notin> avail_frames (vm_pmm s3)" using B1 p3 by simp_all
  note C1 = vmm_new_table_spec [OF i3 C] and C2 = vmm_new_table_pte [OF i3 C]
  have p5: "vm_pmm s5 = vm_pmm s4" by (simp add: s5_def fold_all_fields)
  have i5: "pmm_inv (vm_pmm s5)" "0 \<notin> avail_frames (vm_pmm s5)" using C1 p5 by simp_all
  note D1 = vmm_new_table_spec [OF i5 D] and D2 = vmm_new_table_pte [OF i5 D]
  have p7: "vm_pmm s7 = vm_pmm s6" by (simp add: s7_def)
  have i7: "pmm_inv (vm_pmm s7)" "0 \<notin> avail_frames (vm_pmm s7)" using D1 p7 by simp_all
  note E1 = vmm_new_table_spec [OF i7 E] and E2 = vmm_new_table_pte [OF i7 E]
  note F1 = vmm_new_table_spec [OF E1(4,8) F] and F2 = vmm_new_table_pte [OF E1(4,8) F]
  have p10: "vm_pmm s10 = vm_pmm s9" by (simp add: s10_def)
  have fr: "frame_addr a" "frame_addr b" "frame_addr c" "frame_addr d" "frame_addr e" "frame_addr f"
    using A1(2) B1(2) C1(2) D1(2) E1(2) F1(2) by auto
  have av: "avail_frames (vm_pmm s10) = avail_frames (vm_pmm s) - {a, d, c, b, e, f}"
    "{a, d, c, b, e, f} \<subseteq> avail_frames (vm_pmm s)" "distinct [a, d, c, b, e, f]"
    using A1(1,5) B1(1,5) C1(1,5) D1(1,5) E1(1,5) F1(1,5) p3 p5 p7 p10 by auto
  have ne: "a \<noteq> b" "a \<noteq> c" "a \<noteq> d" "a \<noteq> e" "a \<noteq> f" "b \<noteq> c" "b \<noteq> d" "b \<noteq> e" "b \<noteq> f" "c \<noteq> d" "c \<noteq> e" "c \<noteq> f"
     "d \<noteq> e" "d \<noteq> f" "e \<noteq> f"
    using av(3) by auto
  have rng: "unat j \<in> {1..<512} \<longleftrightarrow> j \<noteq> 0" if "j < 512" for j :: u64
    using that by (auto simp: word_less_nat_alt unat_eq_0 Suc_le_eq unat_gt_0)
  have P3: "pte (vm_mem s3) t j = (if t = b \<and> j \<noteq> 0 \<and> j * PAGE_SIZE \<noteq> ?g
      then j * PAGE_SIZE OR ?pw else pte (vm_mem s2) t j)" if "frame_addr t" "j < 512" for t j
    unfolding s3_def using rng [OF that(2)] by (subst pte_fold_set [OF fr(2) that]) auto
  have P5: "pte (vm_mem s5) t j = (if t = c \<and> j \<noteq> 0
      then j * 0x200000 OR VMM_PRESENT OR VMM_WRITE OR VMM_HUGE
      else if t = c \<and> j = 0 then b OR ?pw else pte (vm_mem s4) t j)" if "frame_addr t" "j < 512" for t j
    unfolding s5_def using rng [OF that(2)] by (subst pte_fold_all [OF fr(3) that]) (auto simp: pte_write fr that)
  have "kernel_tables (vm_mem s10) ?g a d c b e f"
    unfolding kernel_tables_def
  proof (intro conjI allI impI)
    show "distinct [a, d, c, b, e, f]" by (rule av(3))
    show "\<forall>t\<in>{a, d, c, b, e, f}. frame_addr t \<and> t < 2 ^ 52" using A1(3) B1(3) C1(3) D1(3) E1(3) F1(3) fr by auto
    fix i :: u64 assume i: "i < 512"
    note S = s10_def pte_write fr i F2 E2 s7_def D2 P5 C2 P3 B2 A2 ne ne [symmetric]
    show "pte (vm_mem s10) a i = (if i = 0 then d OR ?pw else if i = 511 then e OR ?pw else 0)" by (simp add: S)
    show "pte (vm_mem s10) d i = (if i = 0 then c OR ?pw else 0)" by (simp add: S)
    show "pte (vm_mem s10) c i = (if i = 0 then b OR ?pw else i * 0x200000 OR VMM_PRESENT OR VMM_WRITE OR VMM_HUGE)"
      by (simp add: S)
    show "pte (vm_mem s10) b i = (if i = 0 \<or> i * PAGE_SIZE = ?g then 0 else i * PAGE_SIZE OR ?pw)" by (simp add: S)
    show "pte (vm_mem s10) e i = (if i = 510 then f OR ?pw else 0)" by (simp add: S)
    show "pte (vm_mem s10) f i = (if i = 0 then VMM_PRESENT OR VMM_WRITE OR VMM_HUGE else 0)" by (simp add: S)
  qed
  then have "kernel_tables (vm_mem s') ?g (kernel_pml4 s') d c b e f \<and>
    {kernel_pml4 s', d, c, b, e, f} \<subseteq> avail_frames (vm_pmm s) \<and>
    avail_frames (vm_pmm s') = avail_frames (vm_pmm s) - {kernel_pml4 s', d, c, b, e, f} \<and>
    pmm_inv (vm_pmm s') \<and> vm_cr3 s' = kernel_pml4 s' \<and> kheap_next s' = ALIGN_UP (KERNEL_VMA + kend) 0x200000"
    using av F1(4) p10 by (simp add: fin)
  then show ?thesis by (intro exI)
qed

lemma vmm_new_table_some:
  assumes "pmm_inv (vm_pmm s)" and "0 \<notin> avail_frames (vm_pmm s)" and "Suc n \<le> card (avail_frames (vm_pmm s))"
  obtains f s' where "vmm_new_table s = Some (f, s')" "pmm_inv (vm_pmm s')" "0 \<notin> avail_frames (vm_pmm s')"
    "n \<le> card (avail_frames (vm_pmm s'))"
proof -
  have "avail_frames (vm_pmm s) \<noteq> {}" using assms(3) by auto
  then obtain f s' where f: "vmm_new_table s = Some (f, s')" using vmm_new_table_None [OF assms(1)] by fastforce
  note sp = vmm_new_table_spec [OF assms(1,2) f]
  have "n \<le> card (avail_frames (vm_pmm s'))" using sp(1,5) assms(3) by simp
  then show thesis using that f sp by blast
qed

lemma vmm_init_total:
  assumes inv: "pmm_inv (vm_pmm s)" and nz: "0 \<notin> avail_frames (vm_pmm s)" and card: "6 \<le> card (avail_frames (vm_pmm s))"
  shows "\<exists>s'. vmm_init sb kend s = Some s'"
proof -
  let ?g = "sb - PAGE_SIZE" and ?pw = "VMM_PRESENT OR VMM_WRITE"
  have c6: "Suc 5 \<le> card (avail_frames (vm_pmm s))" using card by simp
  obtain a s1 where A: "vmm_new_table s = Some (a, s1)" "pmm_inv (vm_pmm s1)" "0 \<notin> avail_frames (vm_pmm s1)"
    "5 \<le> card (avail_frames (vm_pmm s1))" using vmm_new_table_some [OF inv nz c6] by blast
  have c5: "Suc 4 \<le> card (avail_frames (vm_pmm s1))" using A(4) by simp
  obtain b s2 where B: "vmm_new_table s1 = Some (b, s2)" "pmm_inv (vm_pmm s2)" "0 \<notin> avail_frames (vm_pmm s2)"
    "4 \<le> card (avail_frames (vm_pmm s2))" using vmm_new_table_some [OF A(2,3) c5] by blast
  define s3 where "s3 = fold (\<lambda>i s. if of_nat i * PAGE_SIZE = ?g then s
         else set_mem (pte_addr b (of_nat i)) (of_nat i * PAGE_SIZE OR ?pw) s) [1..<512] s2"
  have p3: "vm_pmm s3 = vm_pmm s2" unfolding s3_def by (rule fold_set_fields(1))
  have i3: "pmm_inv (vm_pmm s3)" "0 \<notin> avail_frames (vm_pmm s3)" "Suc 3 \<le> card (avail_frames (vm_pmm s3))"
    using B p3 by simp_all
  obtain c s4 where C: "vmm_new_table s3 = Some (c, s4)" "pmm_inv (vm_pmm s4)" "0 \<notin> avail_frames (vm_pmm s4)"
    "3 \<le> card (avail_frames (vm_pmm s4))" using vmm_new_table_some [OF i3] by blast
  define s5 where "s5 = fold (\<lambda>i. set_mem (pte_addr c (of_nat i)) (of_nat i * 0x200000 OR VMM_PRESENT OR VMM_WRITE OR VMM_HUGE))
         [1..<512] (set_mem (pte_addr c 0) (b OR ?pw) s4)"
  have i5: "pmm_inv (vm_pmm s5)" "0 \<notin> avail_frames (vm_pmm s5)" "Suc 2 \<le> card (avail_frames (vm_pmm s5))"
    using C by (simp_all add: s5_def fold_all_fields)
  obtain d s6 where D: "vmm_new_table s5 = Some (d, s6)" "pmm_inv (vm_pmm s6)" "0 \<notin> avail_frames (vm_pmm s6)"
    "2 \<le> card (avail_frames (vm_pmm s6))" using vmm_new_table_some [OF i5] by blast
  define s7 where "s7 = set_mem (pte_addr a 0) (d OR ?pw) (set_mem (pte_addr d 0) (c OR ?pw) s6)"
  have i7: "pmm_inv (vm_pmm s7)" "0 \<notin> avail_frames (vm_pmm s7)" "Suc 1 \<le> card (avail_frames (vm_pmm s7))"
    using D by (simp_all add: s7_def)
  obtain e s8 where E: "vmm_new_table s7 = Some (e, s8)" "pmm_inv (vm_pmm s8)" "0 \<notin> avail_frames (vm_pmm s8)"
    "1 \<le> card (avail_frames (vm_pmm s8))" using vmm_new_table_some [OF i7] by blast
  have c1: "Suc 0 \<le> card (avail_frames (vm_pmm s8))" using E(4) by simp
  obtain f s9 where F: "vmm_new_table s8 = Some (f, s9)" using vmm_new_table_some [OF E(2,3) c1] by blast
  show ?thesis using A(1) B(1) C(1) D(1) E(1) F
    by (simp add: vmm_init_def Let_def s3_def s5_def s7_def)
qed

section \<open>New address spaces\<close>

lemma pte_fold_copy:
  assumes fr: "frame_addr t" "frame_addr cur" "frame_addr t'" and ne: "cur \<noteq> t" and j: "j < 512"
    and ix: "\<forall>i \<in> set is. i < 512"
  shows "pte (vm_mem (fold (\<lambda>i s. set_mem (pte_addr t (of_nat i)) (pte (vm_mem s) cur (of_nat i)) s) is s)) t' j =
    (if t' = t \<and> unat j \<in> set is then pte (vm_mem s) cur j else pte (vm_mem s) t' j)"
  using ix
proof (induction "is" arbitrary: s)
  case (Cons i "is")
  have i: "(of_nat i :: u64) < 512" "unat (of_nat i :: u64) = i"
    using Cons.prems by (auto simp: word_less_nat_alt unat_of_nat)
  have "of_nat i = j \<longleftrightarrow> i = unat j" using i(2) by auto
  then show ?case using Cons pte_write [OF fr(1,3) i(1) j] pte_write [OF fr(1,2) i(1) j] ne by auto
qed simp

lemma fold_copy_fields:
  "vm_pmm (fold (\<lambda>i s. set_mem (a i) (g i s) s) is s) = vm_pmm s"
  "vm_cr3 (fold (\<lambda>i s. set_mem (a i) (g i s) s) is s) = vm_cr3 s"
  "vm_invlpg (fold (\<lambda>i s. set_mem (a i) (g i s) s) is s) = vm_invlpg s"
  by (induction "is" arbitrary: s) auto

text \<open>
  The memory after vmm_create_address_space: a root that shares the upper half of \<open>cur\<close>, and, where
  \<open>cur\<close> has a lower half, a table \<open>low\<close> of its own that shares the first GiB.
\<close>

definition shares_kernel :: "mem \<Rightarrow> u64 \<Rightarrow> mem \<Rightarrow> u64 \<Rightarrow> u64 \<Rightarrow> bool" where
  "shares_kernel m cur m' new low \<longleftrightarrow>
     frame_addr new \<and> frame_addr low \<and> new \<notin> tables m cur \<and> low \<notin> tables m cur \<and> low \<noteq> new \<and>
     (\<forall>t \<in> tables m cur. \<forall>i < 512. pte m' t i = pte m t i) \<and>
     (\<forall>i < 512.
        link (pte m' new i) = (if 256 \<le> i then link (pte m cur i)
          else if i = 0 \<and> bit (pte m cur 0) 0 then Some low else None) \<and>
        (bit (pte m' new i) 7 \<longrightarrow> 256 \<le> i \<and> bit (pte m cur i) 7) \<and>
        (bit (pte m cur 0) 0 \<longrightarrow>
          pte m' low i = (if i = 0 then pte m (pte m cur 0 AND VMM_PHYS_MASK) 0 else 0)))"

text \<open>The paths of the new space that are paths of the old one, shared tables included.\<close>

definition shared_path :: "u64 list \<Rightarrow> bool" where
  "shared_path p \<longleftrightarrow> p \<noteq> [] \<and> (256 \<le> hd p \<or> 2 \<le> length p \<and> hd p = 0 \<and> hd (tl p) = 0)"

lemma walk_same_tables:
  assumes eq: "\<forall>t \<in> tables m root. \<forall>i < 512. pte m' t i = pte m t i"
    and p: "path_ok (p @ q)" "walk m root p = Some t"
  shows "walk m' t q = walk m t q"
  using p
proof (induction q arbitrary: p t)
  case (Cons i q)
  have "path_ok p" "i < 512" using Cons.prems(1) by (auto simp: path_ok_def)
  then have "pte m' t i = pte m t i" using eq tablesI [OF _ Cons.prems(2)] by simp
  moreover have "walk m' u q = walk m u q" if "link (pte m t i) = Some u" for u
    using Cons.IH [of "p @ [i]" u] Cons.prems that by (simp add: walk_append)
  ultimately show ?case by (auto split: Option.bind_splits)
qed simp

lemma shared_walk:
  assumes ok: "tree_ok m cur" and sh: "shares_kernel m cur m' new low" and p: "path_ok p"
  shows "walk m' new p = (if p = [] then Some new else if shared_path p then walk m cur p
    else if p = [0] \<and> bit (pte m cur 0) 0 then Some low else None)"
proof (cases p)
  case (Cons i q)
  have i: "i < 512" and pq: "path_ok ([i] @ q)" using p Cons by (auto simp: path_ok_def)
  have ln: "link (pte m' new i) = (if 256 \<le> i then link (pte m cur i)
          else if i = 0 \<and> bit (pte m cur 0) 0 then Some low else None)"
    using sh i unfolding shares_kernel_def by blast
  have eq: "\<forall>t \<in> tables m cur. \<forall>i < 512. pte m' t i = pte m t i" using sh by (simp add: shares_kernel_def)
  show ?thesis
  proof (cases "256 \<le> i")
    case True
    then show ?thesis using Cons ln walk_same_tables [OF eq pq]
      by (auto simp: shared_path_def split: Option.bind_splits)
  next
    case False
    show ?thesis
    proof (cases "i = 0 \<and> bit (pte m cur 0) 0 \<and> q \<noteq> []")
      case True
      then obtain j r where q: "q = j # r" by (cases q) auto
      have j: "j < 512" and pqr: "path_ok ([0, 0] @ r)" using pq q True by (auto simp: path_ok_def)
      have l7: "\<not> bit (pte m cur 0) 7" using tree_okD(3) [OF ok, of "[]" 0 cur] by (auto simp: path_ok_def)
      have lc: "link (pte m cur 0) = Some (pte m cur 0 AND VMM_PHYS_MASK)" using True l7 by (simp add: link_def)
      have pl: "pte m' low j = (if j = 0 then pte m (pte m cur 0 AND VMM_PHYS_MASK) 0 else 0)"
        using sh j True unfolding shares_kernel_def by blast
      have "walk m' t r = walk m t r" if "link (pte m (pte m cur 0 AND VMM_PHYS_MASK) 0) = Some t" for t
        using walk_same_tables [OF eq pqr, of t] lc that by simp
      then show ?thesis using True False Cons q ln pl lc
        by (auto simp: shared_path_def split: Option.bind_splits)
    next
      case no: False
      have "walk m cur p = None" if "shared_path p"
        using that no False Cons by (auto simp: shared_path_def link_def)
      then show ?thesis using no False Cons ln by (auto simp: shared_path_def)
    qed
  qed
qed simp

lemma shared_tree:
  assumes ok: "tree_ok m cur" and sh: "shares_kernel m cur m' new low"
  shows "tree_ok m' new" "tables m' new \<subseteq> insert new (insert low (tables m cur))"
proof -
  note W = shared_walk [OF ok sh]
  have F: "frame_addr new" "frame_addr low" "new \<notin> tables m cur" "low \<notin> tables m cur" "low \<noteq> new"
    using sh by (auto simp: shares_kernel_def)
  have eq: "pte m' t i = pte m t i" if "t \<in> tables m cur" "i < 512" for t i
    using sh that by (simp add: shares_kernel_def)
  have cases3: "p = [] \<and> t = new \<or> p = [0] \<and> t = low \<and> bit (pte m cur 0) 0 \<or> shared_path p \<and> walk m cur p = Some t"
    if "path_ok p" "walk m' new p = Some t" for p t
    using W [OF that(1)] that(2) by (auto split: if_splits)
  show tb: "tables m' new \<subseteq> insert new (insert low (tables m cur))"
    using cases3 tablesI by (fastforce simp: tables_def)
  have a: "\<forall>t \<in> tables m' new. frame_addr t" using tb F ok by (auto simp: tree_ok_def)
  have b: "p = q" if "path_ok p" "path_ok q" "walk m' new p = Some t" "walk m' new q = Some t" for p q t
    using cases3 [OF that(1,3)] cases3 [OF that(2,4)] F tablesI [OF that(1)] tablesI [OF that(2)]
      tree_okD(2) [OF ok that(1,2)] by auto
  have c: "length p = 2 \<and> bit (pte m' t i) 0"
    if p: "path_ok (p @ [i])" "walk m' new p = Some t" "bit (pte m' t i) 7" for p t i
  proof -
    have pk: "path_ok p" "i < 512" using path_ok_snocD [OF p(1)] by auto
    have c0: "path_ok []" "path_ok [0]" by (simp_all add: path_ok_def)
    show ?thesis using cases3 [OF pk(1) p(2)]
    proof (elim disjE conjE)
      assume "p = []" "t = new"
      then have "bit (pte m cur i) 7" using sh pk(2) p(3) unfolding shares_kernel_def by blast
      then show ?thesis using tree_okD(3) [OF ok, of "[]" i cur] p(1) \<open>p = []\<close> by simp
    next
      assume h: "p = [0]" "t = low" "bit (pte m cur 0) 0"
      have l7: "\<not> bit (pte m cur 0) 7" using tree_okD(3) [OF ok, of "[]" 0 cur] by (auto simp: path_ok_def)
      have "pte m' low i = (if i = 0 then pte m (pte m cur 0 AND VMM_PHYS_MASK) 0 else 0)"
        using sh pk(2) h(3) unfolding shares_kernel_def by blast
      then have "i = 0" "bit (pte m (pte m cur 0 AND VMM_PHYS_MASK) 0) 7" using p(3) h(2) by (auto split: if_splits)
      then show ?thesis using tree_okD(3) [OF ok, of "[0]" 0 "pte m cur 0 AND VMM_PHYS_MASK"] h l7
        by (auto simp: path_ok_def link_def)
    next
      assume "shared_path p" "walk m cur p = Some t"
      then show ?thesis using tree_okD(3) [OF ok p(1)] eq [OF tablesI [OF pk(1)] pk(2)] p(3) by simp
    qed
  qed
  show "tree_ok m' new" unfolding tree_ok_def using a b c by blast
qed

lemma shared_leaf:
  assumes ok: "tree_ok m cur" and sh: "shares_kernel m cur m' new low" and idx: "path_ok [a, b, c]" "d < 512"
  shows "leaf m' new a b c d = (if 256 \<le> a \<or> a = 0 \<and> b = 0 then leaf m cur a b c d else None)"
proof -
  note W = shared_walk [OF ok sh]
  have eq: "pte m' t i = pte m t i" if "t \<in> tables m cur" "i < 512" for t i
    using sh that by (simp add: shares_kernel_def)
  have idx2: "path_ok [a, b]" and c: "c < 512" using idx by (simp_all add: path_ok_def)
  have sp: "shared_path [a, b, c] \<longleftrightarrow> 256 \<le> a \<or> a = 0 \<and> b = 0" "shared_path [a, b] \<longleftrightarrow> 256 \<le> a \<or> a = 0 \<and> b = 0"
    by (simp_all add: shared_path_def)
  show ?thesis using W [OF idx(1)] W [OF idx2] sp eq [OF tablesI [OF idx(1)] idx(2)] eq [OF tablesI [OF idx2] c]
    by (auto simp: leaf_def simp del: walk.simps split: option.splits)
qed

text \<open>Memory outside the frames that were free.\<close>

definition old_mem_same :: "vmm_state \<Rightarrow> vmm_state \<Rightarrow> bool" where
  "old_mem_same s s' \<longleftrightarrow> (\<forall>b. (\<forall>t \<in> avail_frames (vm_pmm s). b \<notin> block t 4096) \<longrightarrow> vm_mem s' b = vm_mem s b)"

lemma space_ok_old_mem:
  assumes ok: "space_ok s root" and mem: "old_mem_same s s'" and inv: "pmm_inv (vm_pmm s')"
    and av: "avail_frames (vm_pmm s') \<subseteq> avail_frames (vm_pmm s)"
  shows "space_ok s' root" "same_leaves root (vm_mem s) (vm_mem s')" "tables (vm_mem s') root = tables (vm_mem s) root"
    "\<And>q. path_ok q \<Longrightarrow> walk (vm_mem s') root q = walk (vm_mem s) root q"
    "\<forall>t \<in> tables (vm_mem s) root. \<forall>i < 512. pte (vm_mem s') t i = pte (vm_mem s) t i"
proof -
  have tok: "tree_ok (vm_mem s) root" using ok by (simp add: space_ok_def)
  have *: "\<forall>t \<in> tables (vm_mem s) root. \<forall>b \<in> block t 4096. vm_mem s' b = vm_mem s b"
  proof (intro ballI)
    fix t b assume t: "t \<in> tables (vm_mem s) root" "b \<in> block t 4096"
    have "b \<notin> block u 4096" if "u \<in> avail_frames (vm_pmm s)" for u
    proof -
      have "frame_addr u" using avail_frame_addr(1) [OF _ that] ok by (simp add: space_ok_def)
      moreover have "frame_addr t" "t \<noteq> u" using t(1) tok ok that by (auto simp: tree_ok_def space_ok_def)
      ultimately show ?thesis using frames_disjoint t(2) by blast
    qed
    then show "vm_mem s' b = vm_mem s b" using mem by (simp add: old_mem_same_def)
  qed
  note tr = tree_ok_same_tables [OF tok *]
  show "space_ok s' root" using ok tr inv av by (auto simp: space_ok_def)
  show "same_leaves root (vm_mem s) (vm_mem s')" "tables (vm_mem s') root = tables (vm_mem s) root"
    "\<And>q. path_ok q \<Longrightarrow> walk (vm_mem s') root q = walk (vm_mem s) root q" using tr by auto
  show "\<forall>t \<in> tables (vm_mem s) root. \<forall>i < 512. pte (vm_mem s') t i = pte (vm_mem s) t i"
  proof (intro ballI allI impI)
    fix t i :: u64 assume t: "t \<in> tables (vm_mem s) root" "i < 512"
    have "frame_addr t" using tok t(1) by (simp add: tree_ok_def)
    then show "pte (vm_mem s') t i = pte (vm_mem s) t i"
      by (rule pte_cong_frame [OF _ t(2)]) (use * t(1) in blast)
  qed
qed

definition copy_upper :: "u64 \<Rightarrow> u64 \<Rightarrow> vmm_state \<Rightarrow> vmm_state" where
  "copy_upper f cur s = fold (\<lambda>i s. set_mem (pte_addr f (of_nat i)) (pte (vm_mem s) cur (of_nat i)) s) [256..<512] s"

lemma copy_upper_fields [simp]:
  "vm_pmm (copy_upper f cur s) = vm_pmm s" "vm_cr3 (copy_upper f cur s) = vm_cr3 s"
  "vm_invlpg (copy_upper f cur s) = vm_invlpg s"
  unfolding copy_upper_def fold_copy_fields by (rule refl)+

lemma pte_copy_upper:
  assumes "frame_addr f" "frame_addr cur" "frame_addr t" "cur \<noteq> f" "j < 512"
  shows "pte (vm_mem (copy_upper f cur (zero_page f s))) t j =
    (if t = f then if 256 \<le> j then pte (vm_mem s) cur j else 0 else pte (vm_mem s) t j)"
proof -
  have ix: "\<forall>i \<in> set [256..<512]. i < 512" by (simp only: set_upt) simp
  have in_iff: "unat j \<in> set [256..<512] \<longleftrightarrow> 256 \<le> j"
    using assms(5) by (simp only: set_upt) (simp add: word_less_nat_alt word_le_nat_alt)
  have z: "pte (vm_mem (zero_page f s)) u j = (if u = f then 0 else pte (vm_mem s) u j)" if "frame_addr u" for u
    using pte_zero_page [OF that assms(1,5)] by simp
  have "pte (vm_mem (copy_upper f cur (zero_page f s))) t j =
    (if t = f \<and> unat j \<in> set [256..<512] then pte (vm_mem (zero_page f s)) cur j else pte (vm_mem (zero_page f s)) t j)"
    unfolding copy_upper_def by (rule pte_fold_copy [OF assms(1-5) ix])
  then show ?thesis unfolding in_iff z [OF assms(2)] z [OF assms(3)] using assms(4) by (simp del: state_fields)
qed

lemma fold_set_other:
  assumes "frame_addr t" and "\<forall>i \<in> set is. i < 512" and "b \<notin> block t 4096"
  shows "vm_mem (fold (\<lambda>i s. set_mem (pte_addr t (of_nat i)) (g i s) s) is s) b = vm_mem s b"
  using assms(2)
proof (induction "is" arbitrary: s)
  case (Cons i "is")
  have "(of_nat i :: u64) < 512" using Cons.prems by (auto simp: word_less_nat_alt unat_of_nat)
  then show ?case using Cons write_pte_elsewhere [OF assms(1) _ assms(3)] by simp
qed simp

lemma copy_upper_other:
  assumes "frame_addr f" and "b \<notin> block f 4096"
  shows "vm_mem (copy_upper f cur s) b = vm_mem s b"
proof -
  have ix: "\<forall>i \<in> set [256..<512]. i < 512" by (simp only: set_upt) simp
  show ?thesis unfolding copy_upper_def by (rule fold_set_other [OF assms(1) ix assms(2)])
qed

text \<open>The run in terms of these.\<close>

lemma create_run:
  assumes pres: "\<And>f s1. vmm_alloc_frame s = (f, s1) \<Longrightarrow> f \<noteq> PMM_ALLOC_FAILED \<Longrightarrow>
      bit (pte (vm_mem (copy_upper f cur (zero_page f s1))) cur 0) 0"
    and cur: "cur = vmm_current_pml4 s"
  shows "vmm_create_address_space s =
    (let (f, s1) = vmm_alloc_frame s in
     if f = PMM_ALLOC_FAILED then Some (0, s1)
     else
       (let s2 = copy_upper f cur (zero_page f s1); (g, s3) = vmm_alloc_frame s2 in
        if g = PMM_ALLOC_FAILED then do { s \<leftarrow> vmm_free_frame f s3; Some (0, s) }
        else
          (let l = pte (vm_mem s3) cur 0 AND VMM_PHYS_MASK; s4 = zero_page g s3 in
           Some (f, set_mem (pte_addr f 0) (g OR VMM_PRESENT OR VMM_WRITE OR VMM_USER)
             (set_mem (pte_addr g 0) (pte (vm_mem s4) l 0) s4)))))"
proof -
  obtain f s1 where A: "vmm_alloc_frame s = (f, s1)" by fastforce
  have "vmm_current_pml4 (zero_page f s1) = cur"
    using vmm_alloc_frame_fields(2) [OF A] cur by (simp add: vmm_current_pml4_def)
  then show ?thesis using pres [OF A] A
    unfolding vmm_create_address_space_def Let_def copy_upper_def [symmetric]
    by (auto simp del: state_fields split: prod.splits)
qed

text \<open>The first half of a creation: the new root.\<close>

lemma create_root:
  assumes ok: "space_ok s cur" and A0: "vmm_alloc_frame s = (f, s1)" and nf: "f \<noteq> PMM_ALLOC_FAILED"
  defines "s2 \<equiv> copy_upper f cur (zero_page f s1)"
  shows "f \<in> avail_frames (vm_pmm s)" "frame_addr f" "f \<notin> tables (vm_mem s) cur" "pmm_inv (vm_pmm s2)"
    "avail_frames (vm_pmm s2) = avail_frames (vm_pmm s) - {f}" "0 \<notin> avail_frames (vm_pmm s2)"
    "frame_refs (vm_pmm s2) = (frame_refs (vm_pmm s))(f := 1)" "vm_cr3 s2 = vm_cr3 s"
    "frame_addr t \<Longrightarrow> j < 512 \<Longrightarrow>
      pte (vm_mem s2) t j = (if t = f then if 256 \<le> j then pte (vm_mem s) cur j else 0 else pte (vm_mem s) t j)"
    "b \<notin> block f 4096 \<Longrightarrow> vm_mem s2 b = vm_mem s b"
proof -
  have tok: "tree_ok (vm_mem s) cur" and inv: "pmm_inv (vm_pmm s)" and nz: "0 \<notin> avail_frames (vm_pmm s)"
    and dis: "tables (vm_mem s) cur \<inter> avail_frames (vm_pmm s) = {}" using ok by (auto simp: space_ok_def)
  note A = vmm_alloc_frame_ok [OF inv A0 nf] and Af = vmm_alloc_frame_fields [OF A0]
  have c0: "cur \<in> tables (vm_mem s) cur" by (rule tablesI [of "[]"]) simp_all
  have fc: "frame_addr cur" using tok c0 by (simp add: tree_ok_def)
  show "f \<in> avail_frames (vm_pmm s)" by (rule A(1))
  show ff: "frame_addr f" by (rule avail_frame_addr(1) [OF inv A(1) nz])
  show nt: "f \<notin> tables (vm_mem s) cur" using dis A(1) by auto
  have cf: "cur \<noteq> f" using c0 nt by auto
  show "pmm_inv (vm_pmm s2)" "avail_frames (vm_pmm s2) = avail_frames (vm_pmm s) - {f}" "0 \<notin> avail_frames (vm_pmm s2)"
    "frame_refs (vm_pmm s2) = (frame_refs (vm_pmm s))(f := 1)" "vm_cr3 s2 = vm_cr3 s"
    using A Af nz by (simp_all add: s2_def)
  show "frame_addr t \<Longrightarrow> j < 512 \<Longrightarrow>
      pte (vm_mem s2) t j = (if t = f then if 256 \<le> j then pte (vm_mem s) cur j else 0 else pte (vm_mem s) t j)"
    unfolding s2_def Af(1) [symmetric] by (rule pte_copy_upper [OF ff fc _ cf])
  show "b \<notin> block f 4096 \<Longrightarrow> vm_mem s2 b = vm_mem s b"
    unfolding s2_def by (simp add: copy_upper_other [OF ff] memset_page Af)
qed

lemma create_run':
  assumes ok: "space_ok s cur" and cur: "cur = vmm_current_pml4 s" and pres: "bit (pte (vm_mem s) cur 0) 0"
  shows "vmm_create_address_space s =
    (let (f, s1) = vmm_alloc_frame s in
     if f = PMM_ALLOC_FAILED then Some (0, s1)
     else
       (let s2 = copy_upper f cur (zero_page f s1); (g, s3) = vmm_alloc_frame s2 in
        if g = PMM_ALLOC_FAILED then do { s \<leftarrow> vmm_free_frame f s3; Some (0, s) }
        else
          (let l = pte (vm_mem s3) cur 0 AND VMM_PHYS_MASK; s4 = zero_page g s3 in
           Some (f, set_mem (pte_addr f 0) (g OR VMM_PRESENT OR VMM_WRITE OR VMM_USER)
             (set_mem (pte_addr g 0) (pte (vm_mem s4) l 0) s4)))))"
proof (rule create_run [OF _ cur])
  fix f s1 assume a: "vmm_alloc_frame s = (f, s1)" "f \<noteq> PMM_ALLOC_FAILED"
  have c0: "cur \<in> tables (vm_mem s) cur" by (rule tablesI [of "[]"]) simp_all
  then have "frame_addr cur" using ok by (simp add: space_ok_def tree_ok_def)
  then show "bit (pte (vm_mem (copy_upper f cur (zero_page f s1))) cur 0) 0"
    using create_root(3) [OF ok a] create_root(9) [OF ok a, of cur 0] c0 pres by (auto simp del: state_fields)
qed

text \<open>With fewer than two free frames the result is NULL and the allocator is as before.\<close>

lemma create_failed:
  assumes ok: "space_ok s cur" and cur: "cur = vmm_current_pml4 s" and pres: "bit (pte (vm_mem s) cur 0) 0"
    and few: "card (avail_frames (vm_pmm s)) < 2"
  shows "\<exists>s'. vmm_create_address_space s = Some (0, s') \<and> pmm_inv (vm_pmm s') \<and> old_mem_same s s' \<and>
    avail_frames (vm_pmm s') = avail_frames (vm_pmm s) \<and> frame_refs (vm_pmm s') = frame_refs (vm_pmm s) \<and>
    vm_cr3 s' = vm_cr3 s"
proof -
  have inv: "pmm_inv (vm_pmm s)" using ok by (simp add: space_ok_def)
  note run = create_run' [OF ok cur pres]
  obtain f s1 where A0: "vmm_alloc_frame s = (f, s1)" by fastforce
  show ?thesis
  proof (cases "f = PMM_ALLOC_FAILED")
    case True
    then show ?thesis using run A0 vmm_alloc_frame_failed [OF inv] inv by (simp add: old_mem_same_def)
  next
    case False
    define s2 where "s2 = copy_upper f cur (zero_page f s1)"
    note R = create_root [OF ok A0 False, folded s2_def]
    have "card (avail_frames (vm_pmm s) - {f}) = 0" using few R(1) by simp
    then have e2: "avail_frames (vm_pmm s2) = {}" using R(5) by (simp add: avail_frames_def)
    obtain g s3 where B0: "vmm_alloc_frame s2 = (g, s3)" by fastforce
    have g: "g = PMM_ALLOC_FAILED"
      using pmm.alloc_failed_iff [OF R(4)] e2 B0 by (auto simp: vmm_alloc_frame_def split: prod.splits)
    have s3: "s3 = s2" using vmm_alloc_frame_failed(1) [OF R(4)] B0 g by simp
    have fr: "frame_refs (vm_pmm s2) f = 1" using R(7) by simp
    then have pos: "0 < frame_refs (vm_pmm s2) f" by simp
    obtain p where p: "vmm_free_frame f s2 = Some (s2\<lparr>vm_pmm := p\<rparr>)" "pmm_inv p"
      "frame_refs p = (frame_refs (vm_pmm s2))(f := frame_refs (vm_pmm s2) f - 1)"
      "avail_frames p = (if frame_refs (vm_pmm s2) f = 1 then insert f (avail_frames (vm_pmm s2)) else avail_frames (vm_pmm s2))"
      by (rule vmm_free_frame_ok [OF R(4) pos])
    have "frame_refs p = frame_refs (vm_pmm s)"
      using p(3) R(7) fr pmm.avail_unowned [OF inv R(1)] by auto
    moreover have "avail_frames p = avail_frames (vm_pmm s)" using p(4) fr R(1,5) by auto
    moreover have "old_mem_same s (s2\<lparr>vm_pmm := p\<rparr>)" using R(1,10) by (simp add: old_mem_same_def)
    moreover have "vmm_create_address_space s = Some (0, s2\<lparr>vm_pmm := p\<rparr>)"
      using run A0 False B0 g s3 p(1) by (simp add: s2_def del: state_fields)
    ultimately show ?thesis using p(2) R(8) by auto
  qed
qed

lemma link_user_entry:
  assumes "frame_addr f" and "f < 2 ^ 52"
  shows "link (f OR VMM_PRESENT OR VMM_WRITE OR VMM_USER) = Some f" "\<not> bit (f OR VMM_PRESENT OR VMM_WRITE OR VMM_USER) 7"
proof -
  have e: "f OR VMM_PRESENT OR VMM_WRITE OR VMM_USER = (f OR VMM_PRESENT OR VMM_WRITE) OR VMM_USER"
    by (simp add: or.assoc)
  show "link (f OR VMM_PRESENT OR VMM_WRITE OR VMM_USER) = Some f" "\<not> bit (f OR VMM_PRESENT OR VMM_WRITE OR VMM_USER) 7"
    unfolding e link_or_user using link_new_entry [OF assms] by simp_all
qed

lemma create_ok:
  assumes ok: "space_ok s cur" and cur: "cur = vmm_current_pml4 s" and pres: "bit (pte (vm_mem s) cur 0) 0"
    and enough: "2 \<le> card (avail_frames (vm_pmm s))"
  shows "\<exists>new low s'. vmm_create_address_space s = Some (new, s') \<and> shares_kernel (vm_mem s) cur (vm_mem s') new low \<and>
    pmm_inv (vm_pmm s') \<and> old_mem_same s s' \<and> {new, low} \<subseteq> avail_frames (vm_pmm s) \<and>
    avail_frames (vm_pmm s') = avail_frames (vm_pmm s) - {new, low} \<and>
    frame_refs (vm_pmm s') = (frame_refs (vm_pmm s))(new := 1, low := 1) \<and> vm_cr3 s' = vm_cr3 s"
proof -
  let ?m = "vm_mem s"
  have tok: "tree_ok ?m cur" and inv: "pmm_inv (vm_pmm s)"
    and dis: "tables ?m cur \<inter> avail_frames (vm_pmm s) = {}" using ok by (auto simp: space_ok_def)
  have c0: "cur \<in> tables ?m cur" by (rule tablesI [of "[]"]) simp_all
  have fc: "frame_addr cur" using tok c0 by (simp add: tree_ok_def)
  obtain f s1 where A0: "vmm_alloc_frame s = (f, s1)" by fastforce
  have nf: "f \<noteq> PMM_ALLOC_FAILED" using vmm_alloc_frame_failed(2) [OF inv] A0 enough by fastforce
  define s2 where "s2 = copy_upper f cur (zero_page f s1)"
  note R = create_root [OF ok A0 nf, folded s2_def]
  have "card (avail_frames (vm_pmm s2)) \<ge> 1" using R(1,5) enough by simp
  then have ne2: "avail_frames (vm_pmm s2) \<noteq> {}" by auto
  obtain g s3 where B0: "vmm_alloc_frame s2 = (g, s3)" by fastforce
  have ng: "g \<noteq> PMM_ALLOC_FAILED" using vmm_alloc_frame_failed(2) [OF R(4)] B0 ne2 by auto
  note B = vmm_alloc_frame_ok [OF R(4) B0 ng] and Bf = vmm_alloc_frame_fields [OF B0]
  have fg: "frame_addr g" "g < 2 ^ 52" using avail_frame_addr [OF R(4) B(1) R(6)] by auto
  have gf: "g \<noteq> f" "g \<in> avail_frames (vm_pmm s)" using B(1) R(5) by auto
  have gt: "g \<notin> tables ?m cur" using gf(2) dis by auto
  let ?l = "pte ?m cur 0 AND VMM_PHYS_MASK" and ?e = "g OR VMM_PRESENT OR VMM_WRITE OR VMM_USER"
  have "\<not> bit (pte ?m cur 0) 7" using tree_okD(3) [OF tok, of "[]" 0 cur] by (auto simp: path_ok_def)
  then have wl: "walk ?m cur [0] = Some ?l" using pres by (simp add: link_def)
  have lt: "?l \<in> tables ?m cur" by (rule tablesI [OF _ wl]) (simp add: path_ok_def)
  have fl: "frame_addr ?l" using tok lt by (simp add: tree_ok_def)
  have ne: "cur \<noteq> f" "?l \<noteq> f" "?l \<noteq> g" "cur \<noteq> g" using c0 lt R(3) gt by auto
  define s4 where "s4 = zero_page g s3"
  define s' where "s' = set_mem (pte_addr f 0) ?e (set_mem (pte_addr g 0) (pte (vm_mem s4) ?l 0) s4)"
  have P4: "pte (vm_mem s4) t j = (if t = g then 0 else pte (vm_mem s2) t j)" if "frame_addr t" "j < 512" for t j
    using pte_zero_page [OF that(1) fg(1) that(2), of "vm_mem s2"] Bf by (simp add: s4_def)
  have P': "pte (vm_mem s') t j = (if t = f \<and> j = 0 then ?e else if t = g then if j = 0 then pte ?m ?l 0 else 0
      else if t = f then if 256 \<le> j then pte ?m cur j else 0 else pte ?m t j)" if t: "frame_addr t" "j < 512" for t j
  proof -
    have "pte (vm_mem s') t j = (if t = f \<and> j = 0 then ?e else if t = g \<and> j = 0 then pte (vm_mem s4) ?l 0 else pte (vm_mem s4) t j)"
      using R(2) fg(1) t by (simp add: s'_def pte_write)
    moreover have "pte (vm_mem s4) ?l 0 = pte ?m ?l 0" using P4 [OF fl] R(9) [OF fl] ne by simp
    ultimately show ?thesis using P4 [OF t] R(9) [OF t] by (auto split: if_splits)
  qed
  have run: "vmm_create_address_space s = Some (f, s')"
  proof -
    have "pte (vm_mem s3) cur 0 = pte ?m cur 0" using R(9) [OF fc, of 0] ne Bf by simp
    then show ?thesis using create_run' [OF ok cur pres] A0 nf B0 ng
      by (simp add: Let_def s2_def s4_def s'_def del: state_fields)
  qed
  have eqt: "pte (vm_mem s') t i = pte ?m t i" if "t \<in> tables ?m cur" "i < 512" for t i
    using P' [of t i] that tok R(3) gt by (auto simp: tree_ok_def)
  have "shares_kernel ?m cur (vm_mem s') f g"
    unfolding shares_kernel_def
    using P' [OF R(2)] P' [OF fg(1)] eqt R(2,3) fg gt gf(1) pres link_user_entry [OF fg] by auto
  moreover have "pmm_inv (vm_pmm s')" "avail_frames (vm_pmm s') = avail_frames (vm_pmm s) - {f, g}"
    "frame_refs (vm_pmm s') = (frame_refs (vm_pmm s))(f := 1, g := 1)" "vm_cr3 s' = vm_cr3 s"
    using B(3-5) R(5,7,8) Bf(2) gf by (auto simp: s'_def s4_def)
  moreover have "old_mem_same s s'" unfolding old_mem_same_def
  proof (intro allI impI)
    fix b assume b: "\<forall>t\<in>avail_frames (vm_pmm s). b \<notin> block t 4096"
    have z: "(0::u64) < 512" by simp
    show "vm_mem s' b = vm_mem s b"
      using b R(1,10) gf(2) write_pte_elsewhere [OF R(2) z] write_pte_elsewhere [OF fg(1) z] Bf
      by (simp add: s'_def s4_def memset_page)
  qed
  ultimately show ?thesis using run R(1) gf(2) by blast
qed

section \<open>Properties\<close>

lemma map_entry_parts:
  "map_entry phys flags AND VMM_PHYS_MASK = phys AND VMM_PHYS_MASK"
  "map_entry phys flags AND NOT VMM_PHYS_MASK = flags AND NOT VMM_PHYS_MASK OR VMM_PRESENT"
  by (rule bit_word_eqI, auto simp: map_entry_def bit_simps)+

lemma maps_page_at:
  assumes "maps_page root v phys flags s s'"
  shows "leaf_at (vm_mem s') root w = (if vpn w = vpn v then Some (False, map_entry phys flags) else leaf_at (vm_mem s) root w)"
  using assms unfolding maps_page_def by (intro leaf_at_eqI) blast

definition in_large_page :: "u64 \<Rightarrow> u64 \<Rightarrow> vmm_state \<Rightarrow> bool" where
  "in_large_page root v s \<longleftrightarrow> (\<exists>e. leaf_at (vm_mem s) root v = Some (True, e))"

text \<open>C3: vmm_map_page keeps an address space well formed. When it returns 0 the page of the address
  translates to the given frame with the given flags and every other address is as before. When it
  returns -1 no translation has changed, and then no frame is left or the address lies in a large
  page; three free frames are enough.\<close>

theorem vmm_map_page_correct:
  assumes ok: "space_ok s pml4" and run: "vmm_map_page pml4 virt phys flags s = (r, s')"
  shows "space_ok s' pml4 \<and>
    (r = 0 \<and> (\<forall>w. vmm_get_physical pml4 w s' =
          (if vpn w = vpn virt then phys AND VMM_PHYS_MASK OR w AND 0xFFF else vmm_get_physical pml4 w s) \<and>
        vmm_get_flags pml4 w s' =
          (if vpn w = vpn virt then flags AND NOT VMM_PHYS_MASK OR VMM_PRESENT else vmm_get_flags pml4 w s)) \<or>
     r = -1 \<and> (\<forall>w. vmm_get_physical pml4 w s' = vmm_get_physical pml4 w s \<and>
          vmm_get_flags pml4 w s' = vmm_get_flags pml4 w s) \<and>
       (avail_frames (vm_pmm s') = {} \<or> in_large_page pml4 virt s)) \<and>
    (3 \<le> card (avail_frames (vm_pmm s)) \<and> \<not> in_large_page pml4 virt s \<longrightarrow> r = 0)"
proof -
  note R = vmm_map_page_spec [OF ok run, unfolded vmm_map_result_def]
  have ok': "space_ok s' pml4" using R vm_growsD(1) by blast
  have tok: "tree_ok (vm_mem s) pml4" "tree_ok (vm_mem s') pml4" using ok ok' by (simp_all add: space_ok_def)
  note L = vmm_get_physical_leaf [OF tok(1)] vmm_get_physical_leaf [OF tok(2)]
    vmm_get_flags_leaf [OF tok(1)] vmm_get_flags_leaf [OF tok(2)]
  have mapped: "vmm_get_physical pml4 w s' =
        (if vpn w = vpn virt then phys AND VMM_PHYS_MASK OR w AND 0xFFF else vmm_get_physical pml4 w s)"
      "vmm_get_flags pml4 w s' =
        (if vpn w = vpn virt then flags AND NOT VMM_PHYS_MASK OR VMM_PRESENT else vmm_get_flags pml4 w s)"
    if "maps_page pml4 virt phys flags s s'" for w
    by (simp_all add: L maps_page_at [OF that] leaf_phys_def leaf_flags_def map_entry_parts)
  have same: "vmm_get_physical pml4 w s' = vmm_get_physical pml4 w s" "vmm_get_flags pml4 w s' = vmm_get_flags pml4 w s"
    if "same_leaves pml4 (vm_mem s) (vm_mem s')" for w
    by (simp_all add: L same_leaves_at [OF that])
  have "r = 0 \<and> maps_page pml4 virt phys flags s s' \<or>
      r = -1 \<and> same_leaves pml4 (vm_mem s) (vm_mem s') \<and> (avail_frames (vm_pmm s') = {} \<or> in_large_page pml4 virt s)"
    using R by (auto simp: in_large_page_def)
  moreover have "r = 0" if "3 \<le> card (avail_frames (vm_pmm s))" "\<not> in_large_page pml4 virt s"
    using R that by (auto simp: in_large_page_def split: if_splits)
  ultimately show ?thesis using ok' mapped same by blast
qed

text \<open>C21: vmm_unmap_page removes the translation of the page of its address and of no other, and does
  nothing when the address lies in a large page.\<close>

theorem vmm_unmap_page_correct:
  assumes ok: "space_ok s pml4"
  shows "space_ok (vmm_unmap_page pml4 virt s) pml4 \<and>
    (\<forall>w. vmm_get_physical pml4 w (vmm_unmap_page pml4 virt s) =
       (if vpn w = vpn virt \<and> \<not> in_large_page pml4 virt s then PMM_ALLOC_FAILED else vmm_get_physical pml4 w s))"
proof -
  note U = vmm_unmap_page_spec [OF ok, where v = virt]
  have ok': "space_ok (vmm_unmap_page pml4 virt s) pml4" using vm_growsD(1) [OF U(1)] .
  have tok: "tree_ok (vm_mem s) pml4" "tree_ok (vm_mem (vmm_unmap_page pml4 virt s)) pml4"
    using ok ok' by (simp_all add: space_ok_def)
  have "leaf_at (vm_mem (vmm_unmap_page pml4 virt s)) pml4 w =
      (if vpn w = vpn virt \<and> \<not> in_large_page pml4 virt s then None else leaf_at (vm_mem s) pml4 w)" for w
    using U(2) [of "pml4_idx w" "pdpt_idx w" "pd_idx w" "pt_idx w"] vpn_eq_iff [of w virt]
    by (auto simp: leaf_at_def in_large_page_def)
  then show ?thesis using ok' by (simp add: vmm_get_physical_leaf [OF tok(1)] vmm_get_physical_leaf [OF tok(2)] leaf_phys_def)
qed

lemma vmm_init_space:
  assumes inv: "pmm_inv (vm_pmm s)" and nz: "0 \<notin> avail_frames (vm_pmm s)" and run: "vmm_init stack_bottom kend s = Some s'"
  shows "6 \<le> card (avail_frames (vm_pmm s))" "space_ok s' (kernel_pml4 s')" "vmm_current_pml4 s' = kernel_pml4 s'"
    "bit (pte (vm_mem s') (kernel_pml4 s') 0) 0"
    "canonical v \<Longrightarrow> vmm_get_physical (kernel_pml4 s') v s' = kernel_map (stack_bottom - PAGE_SIZE) v"
    "card (avail_frames (vm_pmm s')) = card (avail_frames (vm_pmm s)) - 6"
proof -
  from vmm_init_run [OF inv nz run] obtain pdpt pd pt pdpt_hh pd_hh where
    kt: "kernel_tables (vm_mem s') (stack_bottom - PAGE_SIZE) (kernel_pml4 s') pdpt pd pt pdpt_hh pd_hh"
    and sub: "{kernel_pml4 s', pdpt, pd, pt, pdpt_hh, pd_hh} \<subseteq> avail_frames (vm_pmm s)"
    and av: "avail_frames (vm_pmm s') = avail_frames (vm_pmm s) - {kernel_pml4 s', pdpt, pd, pt, pdpt_hh, pd_hh}"
    and inv': "pmm_inv (vm_pmm s')" and cr3: "vm_cr3 s' = kernel_pml4 s'" by (elim exE conjE) rule
  have six: "card {kernel_pml4 s', pdpt, pd, pt, pdpt_hh, pd_hh} = 6"
    using kt unfolding kernel_tables_def by (auto simp: card_insert_if)
  then show "6 \<le> card (avail_frames (vm_pmm s))" using card_mono [OF pmm.finite_avail sub] by simp
  show "card (avail_frames (vm_pmm s')) = card (avail_frames (vm_pmm s)) - 6"
    unfolding av using six by (simp only: card_Diff_subset [OF _ sub] finite_insert finite.emptyI)
  show "space_ok s' (kernel_pml4 s')" using kernel_tree_ok [OF kt] inv' nz av by (auto simp: space_ok_def)
  show "bit (pte (vm_mem s') (kernel_pml4 s') 0) 0" using kt unfolding kernel_tables_def by (simp add: bit_or_iff)
  have "frame_addr (kernel_pml4 s')" using kt unfolding kernel_tables_def by blast
  then have "unat (kernel_pml4 s') mod 4096 = 0" by (simp add: frame_addr_def)
  then have "12 \<le> n" if "bit (kernel_pml4 s') n" for n
    using aligned_no_low_bits [of "kernel_pml4 s'" n] that by (metis not_le)
  then show "vmm_current_pml4 s' = kernel_pml4 s'" unfolding vmm_current_pml4_def cr3 large_mask(3)
    by (intro bit_word_eqI) (auto simp: bit_simps not_less)
  show "canonical v \<Longrightarrow> vmm_get_physical (kernel_pml4 s') v s' = kernel_map (stack_bottom - PAGE_SIZE) v"
    by (rule kernel_translation [OF kt])
qed

text \<open>C20: vmm_init needs six free frames and panics with fewer. Then the active tables translate every
  canonical address by one rule: the first GiB to itself except the null page and the guard page
  below the stack, the first 2 MiB again at KERNEL_VMA, and nothing else.\<close>

theorem vmm_init_translation:
  assumes inv: "pmm_inv (vm_pmm s)" and nz: "0 \<notin> avail_frames (vm_pmm s)"
  shows "if card (avail_frames (vm_pmm s)) < 6 then vmm_init stack_bottom kend s = None
    else \<exists>s'. vmm_init stack_bottom kend s = Some s' \<and> space_ok s' (kernel_pml4 s') \<and>
      vmm_current_pml4 s' = kernel_pml4 s' \<and>
      (\<forall>v. canonical v \<longrightarrow> vmm_get_physical (kernel_pml4 s') v s' = kernel_map (stack_bottom - PAGE_SIZE) v)"
proof (cases "vmm_init stack_bottom kend s")
  case None
  then show ?thesis using vmm_init_total [OF inv nz, of stack_bottom kend] by (auto simp: not_less)
next
  case (Some s')
  then show ?thesis using vmm_init_space [OF inv nz Some] by auto
qed

text \<open>C11: vmm_create_address_space gives a well-formed space whose upper half and first GiB translate
  as in the current one and whose other addresses are unmapped; the current space is untouched. It
  returns NULL exactly when fewer than two frames are free, and then keeps none.\<close>

theorem vmm_create_address_space_correct:
  assumes ok: "space_ok s cur" and cur: "cur = vmm_current_pml4 s" and pres: "pte_has (pte (vm_mem s) cur 0) VMM_PRESENT"
  shows "\<exists>new s'. vmm_create_address_space s = Some (new, s') \<and> space_ok s' cur \<and>
    (\<forall>v. vmm_get_physical cur v s' = vmm_get_physical cur v s) \<and>
    (new = 0 \<longleftrightarrow> card (avail_frames (vm_pmm s)) < 2) \<and>
    (new = 0 \<longrightarrow> avail_frames (vm_pmm s') = avail_frames (vm_pmm s) \<and> frame_refs (vm_pmm s') = frame_refs (vm_pmm s)) \<and>
    (new \<noteq> 0 \<longrightarrow> space_ok s' new \<and>
      (\<forall>v. vmm_get_physical new v s' =
         (if 256 \<le> pml4_idx v \<or> pml4_idx v = 0 \<and> pdpt_idx v = 0 then vmm_get_physical cur v s else PMM_ALLOC_FAILED)))"
proof (cases "card (avail_frames (vm_pmm s)) < 2")
  case True
  from create_failed [OF ok cur _ True] pres obtain s' where
    s': "vmm_create_address_space s = Some (0, s')" "pmm_inv (vm_pmm s')" "old_mem_same s s'"
    "avail_frames (vm_pmm s') = avail_frames (vm_pmm s)" "frame_refs (vm_pmm s') = frame_refs (vm_pmm s)" by auto
  have "avail_frames (vm_pmm s') \<subseteq> avail_frames (vm_pmm s)" using s'(4) by simp
  note O = space_ok_old_mem [OF ok s'(3,2) this]
  have tok: "tree_ok (vm_mem s) cur" "tree_ok (vm_mem s') cur" using ok O(1) by (simp_all add: space_ok_def)
  have "vmm_get_physical cur v s' = vmm_get_physical cur v s" for v
    using same_leaves_at [OF O(2)] by (simp add: vmm_get_physical_leaf [OF tok(1)] vmm_get_physical_leaf [OF tok(2)])
  then show ?thesis using s' O(1) True by (intro exI [of _ 0] exI [of _ s']) simp
next
  case False
  then have two: "2 \<le> card (avail_frames (vm_pmm s))" by simp
  from create_ok [OF ok cur _ two] pres obtain new low s' where
    run: "vmm_create_address_space s = Some (new, s')" and sh: "shares_kernel (vm_mem s) cur (vm_mem s') new low"
    and inv: "pmm_inv (vm_pmm s')" and om: "old_mem_same s s'" and fr: "{new, low} \<subseteq> avail_frames (vm_pmm s)"
    and av: "avail_frames (vm_pmm s') = avail_frames (vm_pmm s) - {new, low}" by auto
  have "avail_frames (vm_pmm s') \<subseteq> avail_frames (vm_pmm s)" using av by auto
  note O = space_ok_old_mem [OF ok om inv this]
  have tok: "tree_ok (vm_mem s) cur" "tree_ok (vm_mem s') cur" using ok O(1) by (simp_all add: space_ok_def)
  have same: "vmm_get_physical cur v s' = vmm_get_physical cur v s" for v
    using same_leaves_at [OF O(2)] by (simp add: vmm_get_physical_leaf [OF tok(1)] vmm_get_physical_leaf [OF tok(2)])
  note T = shared_tree [OF tok(1) sh]
  have nz: "new \<noteq> 0" using sh by (simp add: shares_kernel_def frame_addr_def)
  have "space_ok s' new" using T inv av ok by (auto simp: space_ok_def)
  moreover have "vmm_get_physical new v s' =
      (if 256 \<le> pml4_idx v \<or> pml4_idx v = 0 \<and> pdpt_idx v = 0 then vmm_get_physical cur v s else PMM_ALLOC_FAILED)" for v
    using shared_leaf [OF tok(1) sh, of "pml4_idx v" "pdpt_idx v" "pd_idx v" "pt_idx v"]
    by (simp add: vmm_get_physical_leaf [OF tok(1)] vmm_get_physical_leaf [OF T(1)] leaf_at_def leaf_phys_def)
  ultimately show ?thesis using run O(1) same nz False by (intro exI [of _ new] exI [of _ s']) simp
qed

text \<open>
  A write by a user to a page the current space maps copy-on-write, on a frame the allocator counts
  and that is not itself a table.
\<close>

definition cow_write :: "u64 \<Rightarrow> u64 \<Rightarrow> vmm_state \<Rightarrow> bool" where
  "cow_write v error_code s \<longleftrightarrow>
     error_code AND 3 = 3 \<and> v < USER_SPACE_TOP \<and>
     (\<exists>e. leaf_at (vm_mem s) (vmm_current_pml4 s) v = Some (False, e) \<and> pte_has e VMM_USER \<and> pte_has e VMM_COW)"

definition page_frame :: "u64 \<Rightarrow> vmm_state \<Rightarrow> u64" where
  "page_frame v s = vmm_get_physical (vmm_current_pml4 s) v s AND VMM_PHYS_MASK"

lemma small_page_frame:
  assumes "space_ok s (vmm_current_pml4 s)" and "leaf_at (vm_mem s) (vmm_current_pml4 s) v = Some (False, e)"
  shows "page_frame v s = e AND VMM_PHYS_MASK"
proof -
  have "tree_ok (vm_mem s) (vmm_current_pml4 s)" using assms(1) by (simp add: space_ok_def)
  then have "page_frame v s = (e AND VMM_PHYS_MASK OR v AND 0xFFF) AND VMM_PHYS_MASK"
    using assms(2) by (simp add: page_frame_def vmm_get_physical_leaf leaf_phys_def)
  also have "\<dots> = e AND VMM_PHYS_MASK" unfolding large_mask(3) by (rule bit_word_eqI) (auto simp: bit_simps)
  finally show ?thesis .
qed

lemma fault_result_view:
  assumes ok: "space_ok s root" "space_ok s' root" and fr: "fault_result root v f s s'" and f: "frame_addr f" "f < 2 ^ 52"
  shows "vmm_get_physical root w s' = (if vpn w = vpn v then f OR w AND 0xFFF else vmm_get_physical root w s)"
    "pte_has (vmm_get_flags root v s') VMM_WRITE" "\<not> pte_has (vmm_get_flags root v s') VMM_COW"
proof -
  have tok: "tree_ok (vm_mem s) root" "tree_ok (vm_mem s') root" using ok by (simp_all add: space_ok_def)
  obtain e where e: "\<And>w. leaf_at (vm_mem s') root w = (if vpn w = vpn v then Some (False, owned_entry f e) else leaf_at (vm_mem s) root w)"
    using fr by (auto simp: fault_result_def)
  have "owned_entry f e AND VMM_PHYS_MASK = f"
  proof (rule bit_word_eqI)
    fix n assume "n < LENGTH(64)"
    have "unat f < 2 ^ 52" using f(2) by (simp add: word_less_nat_alt)
    then have "\<not> bit f n" if "52 \<le> n" using low_bits_below that by blast
    moreover have "\<not> bit f n" if "n < 12" using aligned_no_low_bits f(1) that by (simp add: frame_addr_def)
    ultimately show "bit (owned_entry f e AND VMM_PHYS_MASK) n = bit f n"
      using bit_owned_entry [OF f(1), of e n] by (auto simp: bit_and_iff not_le)
  qed
  then show "vmm_get_physical root w s' = (if vpn w = vpn v then f OR w AND 0xFFF else vmm_get_physical root w s)"
    by (simp add: vmm_get_physical_leaf [OF tok(1)] vmm_get_physical_leaf [OF tok(2)] e leaf_phys_def)
  have fl: "vmm_get_flags root v s' = owned_entry f e AND NOT VMM_PHYS_MASK"
    by (simp add: vmm_get_flags_leaf [OF tok(2)] e leaf_flags_def)
  show "pte_has (vmm_get_flags root v s') VMM_WRITE" "\<not> pte_has (vmm_get_flags root v s') VMM_COW"
    using bit_owned_entry [OF f(1), of e] unfolding fl by (simp_all add: bit_simps)
qed

lemma page_fault_effect:
  assumes ok: "space_ok s root" and cur: "root = vmm_current_pml4 s"
    and owned: "cow_write v error_code s \<Longrightarrow> 0 < frame_refs (vm_pmm s) (page_frame v s) \<and>
      page_frame v s \<notin> insert 0 (tables (vm_mem s) root)"
  shows "if \<not> cow_write v error_code s \<or> 1 < frame_refs (vm_pmm s) (page_frame v s) \<and> avail_frames (vm_pmm s) = {}
    then vmm_handle_page_fault v error_code s = Some (False, s)
    else \<exists>f s'. vmm_handle_page_fault v error_code s = Some (True, s') \<and> space_ok s' root \<and>
      (\<forall>w. vmm_get_physical root w s' = (if vpn w = vpn v then f OR w AND 0xFFF else vmm_get_physical root w s)) \<and>
      pte_has (vmm_get_flags root v s') VMM_WRITE \<and> \<not> pte_has (vmm_get_flags root v s') VMM_COW \<and>
      (\<forall>i < 4096. vm_mem s' (f + of_nat i) = vm_mem s (page_frame v s + of_nat i)) \<and>
      frame_refs (vm_pmm s') f = 1 \<and>
      (f \<noteq> page_frame v s \<longrightarrow> frame_refs (vm_pmm s') (page_frame v s) = frame_refs (vm_pmm s) (page_frame v s) - 1)"
proof (cases "cow_write v error_code s")
  case False
  then show ?thesis using vmm_fault_refused [of s error_code v] ok cur by (auto simp: cow_write_def not_less)
next
  case True
  then obtain e where acc: "error_code AND 3 = 3" "v < USER_SPACE_TOP" and l: "leaf_at (vm_mem s) root v = Some (False, e)"
    and cow: "bit e 2" "bit e 9" using cur by (auto simp: cow_write_def)
  define old where "old = page_frame v s"
  have old: "old = e AND VMM_PHYS_MASK" "0 < frame_refs (vm_pmm s) old" "old \<notin> tables (vm_mem s) root" "old \<noteq> 0"
    using small_page_frame [of s v e] ok cur l owned [OF True] by (auto simp: old_def)
  have fo: "frame_addr old" "old < 2 ^ 52"
  proof -
    show "frame_addr old" using old(1,4) phys_mask_aligned [of e] by (simp add: frame_addr_def)
    have "old \<le> VMM_PHYS_MASK" unfolding old(1) by (rule word_and_le1)
    then show "old < 2 ^ 52" by (rule le_less_trans) (simp add: VMM_PHYS_MASK_def)
  qed
  show ?thesis
  proof (cases "frame_refs (vm_pmm s) old = 1")
    case one: True
    from vmm_fault_last [OF ok cur l cow acc old(1) one old(3,4)] obtain s' where
      s': "vmm_handle_page_fault v error_code s = Some (True, s')" "fault_result root v old s s'" "space_ok s' root"
      "vm_pmm s' = vm_pmm s" by blast
    have "\<forall>i < 4096. vm_mem s' (old + of_nat i) = vm_mem s (old + of_nat i)"
      using s'(2) l old(1) by (auto simp: fault_result_def)
    then show ?thesis using s' fault_result_view [OF ok s'(3,2) fo] one True unfolding old_def [symmetric] by auto
  next
    case False
    then have sh: "1 < frame_refs (vm_pmm s) old" using old(2) by simp
    show ?thesis
    proof (cases "avail_frames (vm_pmm s) = {}")
      case nofree: True
      have inv: "pmm_inv (vm_pmm s)" using ok by (simp add: space_ok_def)
      obtain f s1 where A: "vmm_alloc_frame s = (f, s1)" by fastforce
      have "f = PMM_ALLOC_FAILED" using pmm.alloc_failed_iff [OF inv] nofree A
        by (auto simp: vmm_alloc_frame_def split: prod.splits)
      then have "vmm_handle_page_fault v error_code s = Some (False, s)"
        using A vmm_alloc_frame_failed(1) [OF inv] sh
        by (auto intro: fault_run [OF ok cur l cow acc old(1,2)] simp: not_le)
      then show ?thesis using sh nofree unfolding old_def by simp
    next
      case free: False
      from vmm_fault_shared [OF ok cur l cow acc old(1) sh old(4) free] obtain f s' where
        s': "vmm_handle_page_fault v error_code s = Some (True, s')" "fault_result root v f s s'" "space_ok s' root"
        "f \<in> avail_frames (vm_pmm s)"
        "frame_refs (vm_pmm s') = (frame_refs (vm_pmm s))(f := 1, old := frame_refs (vm_pmm s) old - 1)" by blast
      have inv: "pmm_inv (vm_pmm s)" "0 \<notin> avail_frames (vm_pmm s)" using ok by (simp_all add: space_ok_def)
      have ff: "frame_addr f" "f < 2 ^ 52" using avail_frame_addr [OF inv(1) s'(4) inv(2)] by auto
      have ne: "f \<noteq> old" using pmm.avail_unowned [OF inv(1) s'(4)] old(2) by auto
      have "\<forall>i < 4096. vm_mem s' (f + of_nat i) = vm_mem s (old + of_nat i)"
        using s'(2) l old(1) by (auto simp: fault_result_def)
      then show ?thesis using s' fault_result_view [OF ok s'(3,2) ff] ne True free unfolding old_def [symmetric] by auto
    qed
  qed
qed

text \<open>C2: the page-fault handler takes exactly the user writes to copy-on-write pages. A handled fault
  leaves the page writable and not copy-on-write, on a frame with one reference that holds the bytes
  the page had; the shared frame loses one reference and no other address changes its translation.
  It gives up only when the frame is shared and none is free.\<close>

theorem vmm_handle_page_fault_correct:
  assumes ok: "space_ok s root" and cur: "root = vmm_current_pml4 s"
    and owned: "cow_write v error_code s \<Longrightarrow> 0 < frame_refs (vm_pmm s) (page_frame v s) \<and>
      page_frame v s \<notin> insert 0 (tables (vm_mem s) root)"
  shows "if \<not> cow_write v error_code s \<or> 1 < frame_refs (vm_pmm s) (page_frame v s) \<and> avail_frames (vm_pmm s) = {}
    then vmm_handle_page_fault v error_code s = Some (False, s)
    else \<exists>f s'. vmm_handle_page_fault v error_code s = Some (True, s') \<and> space_ok s' root \<and>
      (\<forall>w. vmm_get_physical root w s' = (if vpn w = vpn v then f OR w AND 0xFFF else vmm_get_physical root w s)) \<and>
      pte_has (vmm_get_flags root v s') VMM_WRITE \<and> \<not> pte_has (vmm_get_flags root v s') VMM_COW \<and>
      (\<forall>i < 4096. vm_mem s' (f + of_nat i) = vm_mem s (page_frame v s + of_nat i)) \<and>
      frame_refs (vm_pmm s') f = 1 \<and>
      (f \<noteq> page_frame v s \<longrightarrow> frame_refs (vm_pmm s') (page_frame v s) = frame_refs (vm_pmm s) (page_frame v s) - 1)"
  using assms by (rule page_fault_effect)

section \<open>Sample states\<close>

text \<open>A machine with 16 MiB, its first frames in use, cleared memory and an empty root at 0x1000.\<close>

definition vm_sample :: vmm_state where
  "vm_sample = \<lparr>vm_pmm = pmm_sample 0x1000000 16 4096, vm_mem = (\<lambda>_. 0), vm_cr3 = 0x1000, vm_invlpg = [],
     kernel_pml4 = 0x1000, kheap_next = 0\<rparr>"

lemma vm_sample_pmm:
  "pmm_inv (vm_pmm vm_sample)" "0 \<notin> avail_frames (vm_pmm vm_sample)" "0x1000 \<notin> avail_frames (vm_pmm vm_sample)"
  "4000 \<le> card (avail_frames (vm_pmm vm_sample))"
proof -
  have fs: "free_set (pmm_sample 0x1000000 16 4096) = {g. 16 \<le> g \<and> g < 4096}"
    by (simp add: pmm_sample_ok sample_total)
  show "pmm_inv (vm_pmm vm_sample)" by (simp add: vm_sample_def pmm_sample_ok)
  have big: "PMM_FRAME_SIZE * 16 \<le> f * PMM_FRAME_SIZE" if "16 \<le> f" "f < 4096" for f :: u64
  proof -
    have "unat f < 4096" "16 \<le> unat f" using that by (simp_all add: word_less_nat_alt word_le_nat_alt)
    then show ?thesis by (simp add: PMM_FRAME_SIZE_def word_le_nat_alt unat_word_ariths)
  qed
  show "0 \<notin> avail_frames (vm_pmm vm_sample)" "0x1000 \<notin> avail_frames (vm_pmm vm_sample)"
    using big by (force simp: avail_frames_def vm_sample_def fs PMM_FRAME_SIZE_def)+
  have "inj_on (\<lambda>f. f * PMM_FRAME_SIZE) (free_set (pmm_sample 0x1000000 16 4096))"
    using inj_frame_addr free_set_below [OF pmm_sample_ok(1)] by (auto simp: inj_on_def)
  then have "card (avail_frames (vm_pmm vm_sample)) = card {g::u64. 16 \<le> g \<and> g < 4096}"
    by (simp add: avail_frames_def vm_sample_def card_image fs)
  then show "4000 \<le> card (avail_frames (vm_pmm vm_sample))" by (simp add: card_word_range)
qed

lemma read_zero_mem [simp]: "read_u64 (\<lambda>_. 0) a = 0"
  by (rule read_u64_zero) simp

lemma zero_walk: "walk (\<lambda>_. 0) root p = Some t \<longleftrightarrow> p = [] \<and> t = root"
  by (cases p) (auto simp: pte_def)

lemma vm_sample_ok: "space_ok vm_sample 0x1000"
proof -
  have "tables (vm_mem vm_sample) 0x1000 = {0x1000}" by (auto simp: tables_def vm_sample_def zero_walk)
  then show ?thesis using vm_sample_pmm
    by (auto simp: space_ok_def tree_ok_def zero_walk vm_sample_def frame_addr_def pte_def)
qed

lemma vm_sample_leaf: "leaf_at (vm_mem vm_sample) 0x1000 v = None"
  by (simp add: leaf_at_def leaf_def vm_sample_def pte_def)

theorem vmm_map_page_correct_witness:
  "\<exists>s'. vmm_map_page 0x1000 0x40000000 0x20000 VMM_USER vm_sample = (0, s') \<and>
     vmm_get_physical 0x1000 0x40000123 s' = 0x20123"
proof -
  obtain r s' where run: "vmm_map_page 0x1000 0x40000000 0x20000 VMM_USER vm_sample = (r, s')" by fastforce
  have "\<not> in_large_page 0x1000 0x40000000 vm_sample" by (simp add: in_large_page_def vm_sample_leaf)
  moreover have "vpn 0x40000123 = vpn 0x40000000" by (simp add: vpn_def mask_eq_exp_minus_1)
  ultimately show ?thesis
    using vmm_map_page_correct [OF vm_sample_ok run] vm_sample_pmm(4) run by (auto simp: VMM_PHYS_MASK_def)
qed

theorem vmm_unmap_page_correct_witness:
  "\<exists>s. vmm_get_physical 0x1000 0x40000123 s = 0x20123 \<and>
     vmm_get_physical 0x1000 0x40000123 (vmm_unmap_page 0x1000 0x40000000 s) = PMM_ALLOC_FAILED"
proof -
  obtain r s where run: "vmm_map_page 0x1000 0x40000000 0x20000 VMM_USER vm_sample = (r, s)" by fastforce
  note R = vmm_map_page_spec [OF vm_sample_ok run, unfolded vmm_map_result_def]
  have ok: "space_ok s 0x1000" using R vm_growsD(1) by blast
  have "maps_page 0x1000 0x40000000 0x20000 VMM_USER vm_sample s"
    using R vm_sample_pmm(4) by (auto simp: vm_sample_leaf split: if_splits)
  note L = maps_page_at [OF this]
  have v: "vpn 0x40000123 = vpn 0x40000000" by (simp add: vpn_def mask_eq_exp_minus_1)
  have tok: "tree_ok (vm_mem s) 0x1000" using ok by (simp add: space_ok_def)
  have "vmm_get_physical 0x1000 0x40000123 s = 0x20123"
    using v by (simp add: vmm_get_physical_leaf [OF tok] L leaf_phys_def map_entry_parts) (simp add: VMM_PHYS_MASK_def)
  moreover have "\<not> in_large_page 0x1000 0x40000000 s" by (simp add: in_large_page_def L)
  ultimately show ?thesis using vmm_unmap_page_correct [OF ok, of "0x40000000"] v by auto
qed

theorem vmm_init_translation_witness:
  "\<exists>s'. vmm_init 0x110000 0x150000 vm_sample = Some s' \<and>
     vmm_get_physical (kernel_pml4 s') 0x100000 s' = 0x100000 \<and>
     vmm_get_physical (kernel_pml4 s') 0x10F123 s' = PMM_ALLOC_FAILED"
proof -
  have "\<not> card (avail_frames (vm_pmm vm_sample)) < 6" using vm_sample_pmm(4) by simp
  then obtain s' where s': "vmm_init 0x110000 0x150000 vm_sample = Some s'"
    "\<forall>v. canonical v \<longrightarrow> vmm_get_physical (kernel_pml4 s') v s' = kernel_map (0x110000 - PAGE_SIZE) v"
    using vmm_init_translation [OF vm_sample_pmm(1,2), of "0x110000" "0x150000"] by auto
  have "canonical 0x100000" "canonical 0x10F123" by (simp_all add: canonical_def USER_SPACE_TOP_def)
  then show ?thesis using s' by (simp add: kernel_map_def ALIGN_DOWN_def PAGE_SIZE_def)
qed

lemma booted_sample:
  obtains s where "vmm_init 0x110000 0x150000 vm_sample = Some s" "space_ok s (vmm_current_pml4 s)"
    "bit (pte (vm_mem s) (vmm_current_pml4 s) 0) 0" "3000 \<le> card (avail_frames (vm_pmm s))"
proof -
  obtain s where run: "vmm_init 0x110000 0x150000 vm_sample = Some s"
    using vmm_init_total [OF vm_sample_pmm(1,2)] vm_sample_pmm(4) by fastforce
  then show thesis using that vmm_init_space [OF vm_sample_pmm(1,2) run] vm_sample_pmm(4) by auto
qed

theorem vmm_create_address_space_correct_witness:
  "\<exists>s new s'. vmm_init 0x110000 0x150000 vm_sample = Some s \<and> vmm_create_address_space s = Some (new, s') \<and> new \<noteq> 0 \<and>
     vmm_get_physical new 0x40000000 s' = PMM_ALLOC_FAILED"
proof -
  obtain s where s: "vmm_init 0x110000 0x150000 vm_sample = Some s" "space_ok s (vmm_current_pml4 s)"
    "bit (pte (vm_mem s) (vmm_current_pml4 s) 0) 0" "3000 \<le> card (avail_frames (vm_pmm s))" by (rule booted_sample)
  have "pml4_idx 0x40000000 = 0" "pdpt_idx 0x40000000 = 1" by (simp_all add: pml4_idx_def pdpt_idx_def)
  then show ?thesis using vmm_create_address_space_correct [OF s(2) refl] s by fastforce
qed

text \<open>A copy-on-write page of a frame with one reference.\<close>

definition cow_sample :: vmm_state where
  "cow_sample = (let (f, s) = vmm_alloc_frame vm_sample in snd (vmm_map_page 0x1000 0x40000000 f (VMM_USER OR VMM_COW) s))"

lemma cow_sample_ok:
  "space_ok cow_sample 0x1000" "vmm_current_pml4 cow_sample = 0x1000" "cow_write 0x40000000 7 cow_sample"
  "frame_refs (vm_pmm cow_sample) (page_frame 0x40000000 cow_sample) = 1"
  "page_frame 0x40000000 cow_sample \<notin> insert 0 (tables (vm_mem cow_sample) 0x1000)"
proof -
  obtain f s1 where A0: "vmm_alloc_frame vm_sample = (f, s1)" by fastforce
  have nf: "f \<noteq> PMM_ALLOC_FAILED" using vmm_alloc_frame_failed(2) [OF vm_sample_pmm(1)] A0 vm_sample_pmm(4) by fastforce
  note A = vmm_alloc_frame_ok [OF vm_sample_pmm(1) A0 nf] and Af = vmm_alloc_frame_fields [OF A0]
  have ff: "frame_addr f" "f < 2 ^ 52" using avail_frame_addr [OF vm_sample_pmm(1) A(1) vm_sample_pmm(2)] by auto
  have tb: "tables (vm_mem vm_sample) 0x1000 = {0x1000}" by (auto simp: tables_def vm_sample_def zero_walk)
  have ok1: "space_ok s1 0x1000" using vm_sample_ok A Af by (auto simp: space_ok_def)
  obtain r s2 where run: "vmm_map_page 0x1000 0x40000000 f (VMM_USER OR VMM_COW) s1 = (r, s2)" by fastforce
  have s2: "cow_sample = s2" using A0 run by (simp add: cow_sample_def)
  note R = vmm_map_page_spec [OF ok1 run, unfolded vmm_map_result_def]
  have g: "vm_grows 0x1000 [pml4_idx 0x40000000, pdpt_idx 0x40000000, pd_idx 0x40000000] s1 s2" using R by blast
  show ok2: "space_ok cow_sample 0x1000" using vm_growsD(1) [OF g] s2 by simp
  show cur: "vmm_current_pml4 cow_sample = 0x1000"
    using g Af by (simp add: s2 vm_grows_def vmm_current_pml4_def vm_sample_def)
  have "r = 0"
  proof -
    have "3 \<le> card (avail_frames (vm_pmm s1))" using A(1,4) vm_sample_pmm(4) by simp
    moreover have "leaf_at (vm_mem s1) 0x1000 0x40000000 = None" using Af vm_sample_leaf by simp
    ultimately show ?thesis using R by (auto split: if_splits)
  qed
  then have "maps_page 0x1000 0x40000000 f (VMM_USER OR VMM_COW) s1 s2" using R by auto
  then have l: "leaf_at (vm_mem cow_sample) 0x1000 0x40000000 = Some (False, map_entry f (VMM_USER OR VMM_COW))"
    using maps_page_at s2 by fastforce
  show "cow_write 0x40000000 7 cow_sample"
    using l cur by (simp add: cow_write_def USER_SPACE_TOP_def map_entry_def bit_simps)
  have pf: "page_frame 0x40000000 cow_sample = f"
  proof -
    have "f AND VMM_PHYS_MASK = f" by (rule frame_masked [OF ff])
    then show ?thesis using small_page_frame [of cow_sample "0x40000000"] ok2 cur l by (simp add: map_entry_parts)
  qed
  have fn: "f \<notin> avail_frames (vm_pmm s1)" using A(4) by simp
  show "frame_refs (vm_pmm cow_sample) (page_frame 0x40000000 cow_sample) = 1"
    unfolding pf unfolding s2 using g A(5) fn by (simp add: vm_grows_def)
  have "tables (vm_mem s1) 0x1000 = {0x1000}" using tb Af by simp
  then have "tables (vm_mem s2) 0x1000 \<subseteq> {0x1000} \<union> avail_frames (vm_pmm s1)" using g by (auto simp: vm_grows_def)
  then show "page_frame 0x40000000 cow_sample \<notin> insert 0 (tables (vm_mem cow_sample) 0x1000)"
    unfolding pf unfolding s2 using fn ff(1) A(1) vm_sample_pmm(3) by (auto simp: frame_addr_def)
qed

theorem vmm_handle_page_fault_correct_witness:
  "\<exists>s'. vmm_handle_page_fault 0x40000000 7 cow_sample = Some (True, s') \<and>
     pte_has (vmm_get_flags 0x1000 0x40000000 s') VMM_WRITE"
  using vmm_handle_page_fault_correct [OF cow_sample_ok(1) cow_sample_ok(2) [symmetric], of "0x40000000" 7] cow_sample_ok(3-5)
  by auto

end
