(* ===== verification/Clone.thy ===== *)
theory Clone
  imports Address_Space
begin

text \<open>
  vmm_clone_user_address_space: the loop over the four levels of tables shares one page after another
  between two spaces that are apart except for the kernel's part (\<open>clone_inv\<close>). The state after a
  prefix of the pages is \<open>clone_state\<close>; what a clone needs to succeed is \<open>clonable\<close>.
\<close>

section \<open>One page of a clone\<close>

text \<open>The entry of a page once it is shared copy-on-write.\<close>

definition cow_entry :: "u64 \<Rightarrow> u64" where
  "cow_entry e = (if bit e 1 then e AND VMM_PHYS_MASK OR ((e AND NOT VMM_PHYS_MASK) AND NOT VMM_WRITE OR VMM_COW) else e)"

lemma bit_cow_entry: "n < 64 \<Longrightarrow> bit (cow_entry e) n \<longleftrightarrow> (if bit e 1 \<and> n = 1 then False else if bit e 1 \<and> n = 9 then True else bit e n)"
  by (auto simp: cow_entry_def bit_simps)

lemma map_cow_entry:
  assumes "bit e 0"
  shows "map_entry (e AND VMM_PHYS_MASK)
     (if bit e 1 then (e AND NOT VMM_PHYS_MASK) AND NOT VMM_WRITE OR VMM_COW else e AND NOT VMM_PHYS_MASK) = cow_entry e"
  by (rule bit_word_eqI) (use assms in \<open>auto simp: map_entry_def cow_entry_def bit_simps\<close>)

lemma user_flags: "e AND (VMM_PRESENT OR VMM_USER) = VMM_PRESENT OR VMM_USER \<longleftrightarrow> bit e 0 \<and> bit e 2"
proof
  assume a: "e AND (VMM_PRESENT OR VMM_USER) = VMM_PRESENT OR VMM_USER"
  have "bit (e AND (VMM_PRESENT OR VMM_USER)) n" if "n \<in> {0, 2}" for n
    unfolding a using that by (auto simp: bit_or_iff)
  then show "bit e 0 \<and> bit e 2" by (simp add: bit_and_iff)
next
  assume "bit e 0 \<and> bit e 2"
  then show "e AND (VMM_PRESENT OR VMM_USER) = VMM_PRESENT OR VMM_USER"
    by (intro bit_word_eqI) (auto simp: bit_simps)
qed

lemma make_virt_idx:
  assumes "a < 512" "b < 512" "c < 512" "d < 512"
  shows "pml4_idx (make_virt a b c d) = a" "pdpt_idx (make_virt a b c d) = b"
    "pd_idx (make_virt a b c d) = c" "pt_idx (make_virt a b c d) = d"
proof -
  have hi: "\<not> bit x n" if "x < 512" "9 \<le> n" for x :: u64 and n
    using low_bits_below [of x 9 n] that by (simp add: word_less_nat_alt)
  have mv: "bit (make_virt a b c d) n \<longleftrightarrow> n < 64 \<and> (39 \<le> n \<and> bit a (n - 39) \<or> 30 \<le> n \<and> bit b (n - 30) \<or>
      21 \<le> n \<and> bit c (n - 21) \<or> 12 \<le> n \<and> bit d (n - 12))" for n
    by (auto simp: make_virt_def bit_simps)
  show "pml4_idx (make_virt a b c d) = a"
    by (rule idx_eqI) (auto simp: bit_idx bit_idx_high mv hi assms)
  show "pdpt_idx (make_virt a b c d) = b"
    by (rule idx_eqI) (auto simp: bit_idx bit_idx_high mv hi assms)
  show "pd_idx (make_virt a b c d) = c"
    by (rule idx_eqI) (auto simp: bit_idx bit_idx_high mv hi assms)
  show "pt_idx (make_virt a b c d) = d"
    by (rule idx_eqI) (auto simp: bit_idx bit_idx_high mv hi assms)
qed

text \<open>
  The tables a space has to itself, and two spaces that share no others than the kernel's.
\<close>

definition own_tables :: "mem \<Rightarrow> u64 \<Rightarrow> u64 set" where
  "own_tables m root = {t. \<exists>p. path_ok p \<and> \<not> shared_path p \<and> walk m root p = Some t}"

definition apart :: "mem \<Rightarrow> u64 \<Rightarrow> u64 \<Rightarrow> bool" where
  "apart m S D \<longleftrightarrow> own_tables m S \<inter> tables m D = {} \<and> own_tables m D \<inter> tables m S = {}"

definition clone_inv :: "u64 \<Rightarrow> u64 \<Rightarrow> vmm_state \<Rightarrow> bool" where
  "clone_inv S D s \<longleftrightarrow> space_ok s S \<and> space_ok s D \<and> apart (vm_mem s) S D"

lemma own_path_tables:
  assumes "\<not> shared_path P" and "path_ok P"
  shows "path_tables m root P \<subseteq> own_tables m root"
proof
  fix t assume "t \<in> path_tables m root P"
  then obtain p r where p: "P = p @ r" "walk m root p = Some t" by (auto simp: path_tables_def)
  have "\<not> shared_path p" using assms(1) p(1) by (cases p; cases "tl p") (auto simp: shared_path_def)
  moreover have "path_ok p" using assms(2) p(1) by (auto simp: path_ok_def)
  ultimately show "t \<in> own_tables m root" using p(2) by (auto simp: own_tables_def)
qed

lemma own_tables_subset: "own_tables m root \<subseteq> tables m root"
  by (auto simp: own_tables_def tables_def)

text \<open>A write into an own page table of one space is not seen by the other.\<close>

lemma clone_write_src:
  fixes e :: u64
  assumes inv: "clone_inv S D s" and ns: "\<not> shared_path [a, b, c]" and idx: "path_ok [a, b, c]" "d < 512"
    and w: "walk (vm_mem s) S [a, b, c] = Some pt"
  defines "s' \<equiv> set_mem (pte_addr pt d) e s"
  shows "clone_inv S D s'" "same_leaves D (vm_mem s) (vm_mem s')"
    "\<And>q. path_ok q \<Longrightarrow> walk (vm_mem s') S q = walk (vm_mem s) S q"
    "path_ok [a', b', c'] \<Longrightarrow> d' < 512 \<Longrightarrow> leaf (vm_mem s') S a' b' c' d' =
       (if (a', b', c', d') = (a, b, c, d) then if bit e 0 then Some (False, e) else None else leaf (vm_mem s) S a' b' c' d')"
proof -
  have okS: "space_ok s S" and okD: "space_ok s D" and ap: "apart (vm_mem s) S D" using inv by (auto simp: clone_inv_def)
  have tS: "tree_ok (vm_mem s) S" and tD: "tree_ok (vm_mem s) D" using okS okD by (auto simp: space_ok_def)
  have l3: "length [a, b, c] = 3" by simp
  note T = tree_ok_write_leaf [OF tS w idx(1) l3 idx(2), where v = e]
  have fp: "frame_addr pt" by (rule tree_okD(1) [OF tS idx(1) w])
  have "pt \<in> own_tables (vm_mem s) S" using w ns idx(1) by (auto simp: own_tables_def simp del: walk.simps)
  then have nD: "pt \<notin> tables (vm_mem s) D" using ap by (auto simp: apart_def)
  have "\<forall>t \<in> tables (vm_mem s) D. \<forall>x \<in> block t 4096. vm_mem s' x = vm_mem s x"
  proof (intro ballI)
    fix t x assume t: "t \<in> tables (vm_mem s) D" "x \<in> block t 4096"
    then have "frame_addr t" "t \<noteq> pt" using tD nD by (auto simp: tree_ok_def)
    then have "x \<notin> block pt 4096" using frames_disjoint [OF _ fp] t(2) by blast
    then show "vm_mem s' x = vm_mem s x" using write_pte_elsewhere [OF fp idx(2)] by (simp add: s'_def)
  qed
  note U = tree_ok_same_tables [OF tD this]
  have oS: "own_tables (vm_mem s') S = own_tables (vm_mem s) S"
    using T(3) by (auto simp: own_tables_def s'_def)
  have oD: "own_tables (vm_mem s') D = own_tables (vm_mem s) D" using U(3) by (auto simp: own_tables_def)
  show "clone_inv S D s'" using okS okD ap T U oS oD by (auto simp: clone_inv_def space_ok_def apart_def s'_def)
  show "same_leaves D (vm_mem s) (vm_mem s')" by (rule U(4))
  show "\<And>q. path_ok q \<Longrightarrow> walk (vm_mem s') S q = walk (vm_mem s) S q" using T(3) by (simp add: s'_def)
  show "path_ok [a', b', c'] \<Longrightarrow> d' < 512 \<Longrightarrow> leaf (vm_mem s') S a' b' c' d' =
       (if (a', b', c', d') = (a, b, c, d) then if bit e 0 then Some (False, e) else None else leaf (vm_mem s) S a' b' c' d')"
    unfolding s'_def state_fields by (rule leaf_write_leaf [OF tS w idx(1,2)])
qed

text \<open>Growing one space along an own path is not seen by the other.\<close>

lemma clone_grow_dst:
  assumes inv: "clone_inv S D s" and ns: "\<not> shared_path P" "path_ok P" and g: "vm_grows D P s s'"
  shows "clone_inv S D s'" "same_leaves S (vm_mem s) (vm_mem s')"
    "\<And>q. path_ok q \<Longrightarrow> walk (vm_mem s') S q = walk (vm_mem s) S q"
proof -
  have okS: "space_ok s S" and okD: "space_ok s D" and ap: "apart (vm_mem s) S D" using inv by (auto simp: clone_inv_def)
  have okD': "space_ok s' D" by (rule vm_growsD(1) [OF g])
  have tS: "tree_ok (vm_mem s) S" and tD': "tree_ok (vm_mem s') D" using okS okD' by (auto simp: space_ok_def)
  have pinv: "pmm_inv (vm_pmm s)" "0 \<notin> avail_frames (vm_pmm s)" using okS by (auto simp: space_ok_def)
  have "\<forall>t \<in> tables (vm_mem s) S. \<forall>x \<in> block t 4096. vm_mem s' x = vm_mem s x"
  proof (intro ballI)
    fix t x assume t: "t \<in> tables (vm_mem s) S" "x \<in> block t 4096"
    have "x \<notin> block u 4096" if u: "u \<in> path_tables (vm_mem s) D P \<union> avail_frames (vm_pmm s)" for u
    proof -
      have "u \<in> own_tables (vm_mem s) D \<or> u \<in> avail_frames (vm_pmm s)"
        using u own_path_tables [OF ns] by blast
      then have "u \<noteq> t" "frame_addr u"
        using ap t(1) okS okD own_tables_subset [of "vm_mem s" D] avail_frame_addr(1) [OF pinv(1) _ pinv(2)]
        by (auto simp: apart_def space_ok_def tree_ok_def)
      moreover have "frame_addr t" using tS t(1) by (simp add: tree_ok_def)
      ultimately show ?thesis using frames_disjoint t(2) by blast
    qed
    then show "vm_mem s' x = vm_mem s x" using g by (simp add: vm_grows_def)
  qed
  note U = tree_ok_same_tables [OF tS this]
  show "same_leaves S (vm_mem s) (vm_mem s')" by (rule U(4))
  show W: "\<And>q. path_ok q \<Longrightarrow> walk (vm_mem s') S q = walk (vm_mem s) S q" by (rule U(3))
  have av: "avail_frames (vm_pmm s') \<subseteq> avail_frames (vm_pmm s)" by (rule vm_growsD(3) [OF g])
  have tb: "tables (vm_mem s') D \<subseteq> tables (vm_mem s) D \<union> (avail_frames (vm_pmm s) - avail_frames (vm_pmm s'))"
    using g by (simp add: vm_grows_def)
  have oS: "own_tables (vm_mem s') S = own_tables (vm_mem s) S" using W by (auto simp: own_tables_def)
  have oD: "own_tables (vm_mem s') D \<subseteq> own_tables (vm_mem s) D \<union> avail_frames (vm_pmm s)"
  proof
    fix t assume "t \<in> own_tables (vm_mem s') D"
    then obtain p where p: "path_ok p" "\<not> shared_path p" "walk (vm_mem s') D p = Some t" by (auto simp: own_tables_def)
    show "t \<in> own_tables (vm_mem s) D \<union> avail_frames (vm_pmm s)"
    proof (cases "t \<in> tables (vm_mem s) D")
      case True
      then obtain q where q: "path_ok q" "walk (vm_mem s) D q = Some t" by (auto simp: tables_def)
      then have "walk (vm_mem s') D q = Some t" by (rule vm_growsD(2) [OF g])
      then have "q = p" using tree_okD(2) [OF tD' q(1) p(1)] p(3) by simp
      then show ?thesis using q p(2) by (auto simp: own_tables_def)
    next
      case False
      then show ?thesis using tb tablesI [OF p(1,3)] by auto
    qed
  qed
  have S0: "tables (vm_mem s) S \<inter> avail_frames (vm_pmm s) = {}" using okS by (simp add: space_ok_def)
  have "apart (vm_mem s') S D" unfolding apart_def oS U(2)
    using ap oD tb S0 own_tables_subset [of "vm_mem s" S] unfolding apart_def by blast
  moreover have "space_ok s' S" using okS okD' U av by (auto simp: space_ok_def)
  ultimately show "clone_inv S D s'" using okD' by (simp add: clone_inv_def)
qed

lemma clone_inv_pmm:
  assumes "clone_inv S D s" and "pmm_inv p" and "avail_frames p \<subseteq> avail_frames (vm_pmm s)"
  shows "clone_inv S D (s\<lparr>vm_pmm := p\<rparr>)"
  using assms by (auto simp: clone_inv_def space_ok_def)

text \<open>The source side: the entry loses its write permission if it has one.\<close>

definition share_src :: "u64 \<Rightarrow> u64 \<Rightarrow> u64 \<Rightarrow> u64 \<Rightarrow> vmm_state \<Rightarrow> vmm_state" where
  "share_src virt pt d e s =
     (if bit e 1 then invlpg virt (set_mem (pte_addr pt d) (cow_entry e) s) else s)"

lemma clone_inv_invlpg [simp]: "clone_inv S D (invlpg v s) \<longleftrightarrow> clone_inv S D s"
  by (simp add: clone_inv_def space_ok_def)

lemma share_src_spec:
  fixes v :: u64
  assumes inv: "clone_inv S D s" and ns: "\<not> shared_path [a, b, c]" and idx: "path_ok [a, b, c]" "d < 512"
    and w: "walk (vm_mem s) S [a, b, c] = Some pt" and e: "e = pte (vm_mem s) pt d" "bit e 0"
  defines "s' \<equiv> share_src v pt d e s"
  shows "clone_inv S D s'" "same_leaves D (vm_mem s) (vm_mem s')"
    "\<And>q. path_ok q \<Longrightarrow> walk (vm_mem s') S q = walk (vm_mem s) S q"
    "path_ok [a', b', c'] \<Longrightarrow> d' < 512 \<Longrightarrow> leaf (vm_mem s') S a' b' c' d' =
       (if (a', b', c', d') = (a, b, c, d) then Some (False, cow_entry e) else leaf (vm_mem s) S a' b' c' d')"
    "vm_pmm s' = vm_pmm s"
proof -
  note C = clone_write_src [OF inv ns idx w, where e = "cow_entry e"]
  have p: "bit (cow_entry e) 0" using e(2) by (simp add: bit_cow_entry)
  have id: "cow_entry e = e" if "\<not> bit e 1" using that by (simp add: cow_entry_def)
  have l: "leaf (vm_mem s) S a b c d = Some (False, e)" using w e by (simp add: leaf_def del: walk.simps)
  show "clone_inv S D s'" using C(1) inv by (simp add: s'_def share_src_def)
  show "same_leaves D (vm_mem s) (vm_mem s')" using C(2) by (simp add: s'_def share_src_def)
  show "\<And>q. path_ok q \<Longrightarrow> walk (vm_mem s') S q = walk (vm_mem s) S q" using C(3) by (simp add: s'_def share_src_def)
  show "path_ok [a', b', c'] \<Longrightarrow> d' < 512 \<Longrightarrow> leaf (vm_mem s') S a' b' c' d' =
       (if (a', b', c', d') = (a, b, c, d) then Some (False, cow_entry e) else leaf (vm_mem s) S a' b' c' d')"
    using C(4) [of a' b' c' d'] p id l by (auto simp: s'_def share_src_def)
  show "vm_pmm s' = vm_pmm s" by (simp add: s'_def share_src_def)
qed

lemma clone_page_run:
  assumes e: "e = pte (vm_mem s) pt d" "bit e 0" "bit e 2" and p: "pmm_ref_frame (e AND VMM_PHYS_MASK) (vm_pmm s) = Some p"
  shows "clone_page D virt pt d s =
    (let (r, s) = vmm_map_page D virt (e AND VMM_PHYS_MASK)
        (if bit e 1 then (e AND NOT VMM_PHYS_MASK) AND NOT VMM_WRITE OR VMM_COW else e AND NOT VMM_PHYS_MASK)
        (share_src virt pt d e (s\<lparr>vm_pmm := p\<rparr>)) in
     if r \<noteq> 0 then do { s \<leftarrow> vmm_free_frame (e AND VMM_PHYS_MASK) s; Some (False, s) } else Some (True, s))"
proof -
  have "bit (e AND NOT VMM_PHYS_MASK) 1 = bit e 1" by (simp add: bit_simps)
  then show ?thesis using p user_flags [of e] e
    by (auto simp: clone_page_def share_src_def Let_def cow_entry_def split: prod.splits)
qed

lemma clone_page_step:
  assumes inv: "clone_inv S D s" and ns: "\<not> shared_path [a, b, c]" and idx: "path_ok [a, b, c]" "d < 512"
    and w: "walk (vm_mem s) S [a, b, c] = Some pt" and e: "e = pte (vm_mem s) pt d" "bit e 0" "bit e 2"
    and refs: "0 < frame_refs (vm_pmm s) (e AND VMM_PHYS_MASK)" "frame_refs (vm_pmm s) (e AND VMM_PHYS_MASK) < 0xFFFF"
    and free: "3 \<le> card (avail_frames (vm_pmm s))" and dst: "leaf (vm_mem s) D a b c d = None"
  shows "\<exists>s'. clone_page D (make_virt a b c d) pt d s = Some (True, s') \<and> clone_inv S D s' \<and>
    (\<forall>q. path_ok q \<longrightarrow> walk (vm_mem s') S q = walk (vm_mem s) S q) \<and>
    (\<forall>a' b' c' d'. path_ok [a', b', c'] \<and> d' < 512 \<longrightarrow>
       leaf (vm_mem s') S a' b' c' d' = (if (a', b', c', d') = (a, b, c, d) then Some (False, cow_entry e) else leaf (vm_mem s) S a' b' c' d') \<and>
       leaf (vm_mem s') D a' b' c' d' = (if (a', b', c', d') = (a, b, c, d) then Some (False, cow_entry e) else leaf (vm_mem s) D a' b' c' d')) \<and>
    avail_frames (vm_pmm s') \<subseteq> avail_frames (vm_pmm s) \<and> card (avail_frames (vm_pmm s)) \<le> card (avail_frames (vm_pmm s')) + 3 \<and>
    (\<forall>x. x \<notin> avail_frames (vm_pmm s) \<longrightarrow> frame_refs (vm_pmm s') x =
       frame_refs (vm_pmm s) x + (if x = e AND VMM_PHYS_MASK then 1 else 0)) \<and> vm_cr3 s' = vm_cr3 s"
proof -
  let ?f = "e AND VMM_PHYS_MASK" and ?v = "make_virt a b c d"
  let ?fl = "if bit e 1 then (e AND NOT VMM_PHYS_MASK) AND NOT VMM_WRITE OR VMM_COW else e AND NOT VMM_PHYS_MASK"
  have "pmm_inv (vm_pmm s)" using inv by (simp add: clone_inv_def space_ok_def)
  from pmm.ref_owned [OF this refs] obtain p where p: "pmm_ref_frame ?f (vm_pmm s) = Some p" "pmm_inv p"
    "frame_refs p = (frame_refs (vm_pmm s))(?f := frame_refs (vm_pmm s) ?f + 1)" "avail_frames p = avail_frames (vm_pmm s)"
    by blast
  define s1 where "s1 = s\<lparr>vm_pmm := p\<rparr>"
  have m1: "vm_mem s1 = vm_mem s" and p1: "vm_pmm s1 = p" by (simp_all add: s1_def)
  have inv1: "clone_inv S D s1" using clone_inv_pmm [OF inv p(2)] p(4) by (simp add: s1_def)
  define s2 where "s2 = share_src ?v pt d e s1"
  have w1: "walk (vm_mem s1) S [a, b, c] = Some pt" and e1: "e = pte (vm_mem s1) pt d" using w e m1 by simp_all
  note H = share_src_spec [OF inv1 ns idx w1 e1 e(2), where v = ?v, folded s2_def]
  obtain r s3 where run: "vmm_map_page D ?v ?f ?fl s2 = (r, s3)" by fastforce
  have ix: "a < 512" "b < 512" "c < 512" using idx(1) by (simp_all add: path_ok_def)
  note I = make_virt_idx [OF ix idx(2)]
  have okD: "space_ok s2 D" using H(1) by (simp add: clone_inv_def)
  note R = vmm_map_page_spec [OF okD run, unfolded vmm_map_result_def maps_page_def I map_cow_entry [OF e(2)]]
  have pm2: "vm_pmm s2 = p" using H(5) p1 by simp
  have "leaf_at (vm_mem s2) D ?v = None"
    using H(2) dst m1 idx by (simp add: leaf_at_def I same_leaves_def)
  then have r0: "r = 0" using R free p(4) pm2 by (auto split: if_splits)
  have g: "vm_grows D [a, b, c] s2 s3" using R by blast
  note G = clone_grow_dst [OF H(1) ns idx(1) g]
  have run': "clone_page D ?v pt d s = Some (True, s3)"
    using clone_page_run [OF e p(1), of D ?v] run r0 by (simp add: s2_def s1_def)
  have lS: "leaf (vm_mem s3) S a' b' c' d' = (if (a', b', c', d') = (a, b, c, d) then Some (False, cow_entry e) else leaf (vm_mem s) S a' b' c' d')"
    if "path_ok [a', b', c']" "d' < 512" for a' b' c' d'
    using G(2) H(4) [OF that] that m1 by (simp add: same_leaves_def)
  have lD: "leaf (vm_mem s3) D a' b' c' d' = (if (a', b', c', d') = (a, b, c, d) then Some (False, cow_entry e) else leaf (vm_mem s) D a' b' c' d')"
    if "path_ok [a', b', c']" "d' < 512" for a' b' c' d'
    using R r0 H(2) that m1 by (auto simp: same_leaves_def)
  have "frame_refs (vm_pmm s3) x = frame_refs (vm_pmm s) x + (if x = ?f then 1 else 0)" if "x \<notin> avail_frames (vm_pmm s)" for x
    using g p(3,4) pm2 that by (simp add: vm_grows_def)
  moreover have "avail_frames (vm_pmm s3) \<subseteq> avail_frames (vm_pmm s)" using vm_growsD(3) [OF g] pm2 p(4) by simp
  moreover have "card (avail_frames (vm_pmm s)) \<le> card (avail_frames (vm_pmm s3)) + 3" using R r0 pm2 p(4) by simp
  moreover have "\<forall>q. path_ok q \<longrightarrow> walk (vm_mem s3) S q = walk (vm_mem s) S q" using G(3) H(3) m1 by simp
  moreover have "vm_cr3 s3 = vm_cr3 s" using g by (simp add: vm_grows_def s2_def share_src_def s1_def)
  ultimately show ?thesis using run' G(1) lS lD by blast
qed

section \<open>The loops of a clone\<close>

text \<open>Positions of pages, by their four indices, and the pages a user owns.\<close>

type_synonym pos = "u64 \<times> u64 \<times> u64 \<times> u64"

fun leafx :: "mem \<Rightarrow> u64 \<Rightarrow> pos \<Rightarrow> (bool \<times> u64) option" where
  "leafx m root (a, b, c, d) = leaf m root a b c d"

fun pos_ok :: "pos \<Rightarrow> bool" where
  "pos_ok (a, b, c, d) \<longleftrightarrow> path_ok [a, b, c] \<and> d < 512 \<and> \<not> shared_path [a, b, c]"

definition user_leaf :: "(bool \<times> u64) option \<Rightarrow> bool" where
  "user_leaf l \<longleftrightarrow> (\<exists>e. l = Some (False, e) \<and> bit e 2)"

definition cow_leaf :: "(bool \<times> u64) option \<Rightarrow> (bool \<times> u64) option" where
  "cow_leaf l = (if user_leaf l then map_option (map_prod id cow_entry) l else l)"

definition leaf_frame :: "(bool \<times> u64) option \<Rightarrow> u64" where
  "leaf_frame l = (case l of None \<Rightarrow> 0 | Some (_, e) \<Rightarrow> e AND VMM_PHYS_MASK)"

definition user_pages :: "mem \<Rightarrow> u64 \<Rightarrow> pos set" where
  "user_pages m root = {x. pos_ok x \<and> user_leaf (leafx m root x)}"

lemma finite_pos [simp]: "finite (X :: pos set)"
  by (rule finite_subset [OF subset_UNIV]) simp

text \<open>The state of a clone from \<open>s0\<close> after the pages at the positions \<open>X\<close>.\<close>

definition clone_state :: "vmm_state \<Rightarrow> u64 \<Rightarrow> u64 \<Rightarrow> pos set \<Rightarrow> vmm_state \<Rightarrow> bool" where
  "clone_state s0 S D X s \<longleftrightarrow>
     clone_inv S D s \<and>
     (\<forall>q. path_ok q \<longrightarrow> walk (vm_mem s) S q = walk (vm_mem s0) S q) \<and>
     (\<forall>a b c d. path_ok [a, b, c] \<and> d < 512 \<longrightarrow>
        leaf (vm_mem s) S a b c d = (if (a, b, c, d) \<in> X then cow_leaf (leaf (vm_mem s0) S a b c d) else leaf (vm_mem s0) S a b c d) \<and>
        leaf (vm_mem s) D a b c d = (if (a, b, c, d) \<in> X \<inter> user_pages (vm_mem s0) S then cow_leaf (leaf (vm_mem s0) S a b c d)
          else leaf (vm_mem s0) D a b c d)) \<and>
     avail_frames (vm_pmm s) \<subseteq> avail_frames (vm_pmm s0) \<and>
     card (avail_frames (vm_pmm s0)) \<le> card (avail_frames (vm_pmm s)) + 3 * card (X \<inter> user_pages (vm_mem s0) S) \<and>
     (\<forall>a. a \<notin> avail_frames (vm_pmm s0) \<longrightarrow> frame_refs (vm_pmm s) a = frame_refs (vm_pmm s0) a +
        card {x \<in> X \<inter> user_pages (vm_mem s0) S. leaf_frame (leafx (vm_mem s0) S x) = a}) \<and>
     vm_cr3 s = vm_cr3 s0"

text \<open>
  What a clone needs to succeed: frames for the tables, room in the reference counts of frames that
  are in use, and no large page of a user.
\<close>

definition clonable :: "vmm_state \<Rightarrow> u64 \<Rightarrow> nat \<Rightarrow> bool" where
  "clonable s S n \<longleftrightarrow>
     n + 3 * card (user_pages (vm_mem s) S) \<le> card (avail_frames (vm_pmm s)) \<and>
     (\<forall>x \<in> user_pages (vm_mem s) S. 0 < frame_refs (vm_pmm s) (leaf_frame (leafx (vm_mem s) S x))) \<and>
     (\<forall>a. frame_refs (vm_pmm s) a + card {x \<in> user_pages (vm_mem s) S. leaf_frame (leafx (vm_mem s) S x) = a} \<le> 0xFFFF) \<and>
     (\<forall>x e. pos_ok x \<and> leafx (vm_mem s) S x = Some (True, e) \<longrightarrow> \<not> bit e 2)"

lemma clonableD:
  assumes "clonable s S n"
  shows "n + 3 * card (user_pages (vm_mem s) S) \<le> card (avail_frames (vm_pmm s))"
    "x \<in> user_pages (vm_mem s) S \<Longrightarrow> 0 < frame_refs (vm_pmm s) (leaf_frame (leafx (vm_mem s) S x))"
    "frame_refs (vm_pmm s) a + card {x \<in> user_pages (vm_mem s) S. leaf_frame (leafx (vm_mem s) S x) = a} \<le> 0xFFFF"
    "pos_ok x \<Longrightarrow> leafx (vm_mem s) S x = Some (True, e) \<Longrightarrow> \<not> bit e 2"
  using assms unfolding clonable_def by blast+

lemma clone_stateD:
  assumes "clone_state s0 S D X s"
  shows "clone_inv S D s" "path_ok q \<Longrightarrow> walk (vm_mem s) S q = walk (vm_mem s0) S q"
    "path_ok [a, b, c] \<Longrightarrow> d < 512 \<Longrightarrow> leaf (vm_mem s) S a b c d =
       (if (a, b, c, d) \<in> X then cow_leaf (leaf (vm_mem s0) S a b c d) else leaf (vm_mem s0) S a b c d)"
    "path_ok [a, b, c] \<Longrightarrow> d < 512 \<Longrightarrow> leaf (vm_mem s) D a b c d =
       (if (a, b, c, d) \<in> X \<inter> user_pages (vm_mem s0) S then cow_leaf (leaf (vm_mem s0) S a b c d)
          else leaf (vm_mem s0) D a b c d)"
    "avail_frames (vm_pmm s) \<subseteq> avail_frames (vm_pmm s0)"
    "card (avail_frames (vm_pmm s0)) \<le> card (avail_frames (vm_pmm s)) + 3 * card (X \<inter> user_pages (vm_mem s0) S)"
    "y \<notin> avail_frames (vm_pmm s0) \<Longrightarrow> frame_refs (vm_pmm s) y = frame_refs (vm_pmm s0) y +
        card {x \<in> X \<inter> user_pages (vm_mem s0) S. leaf_frame (leafx (vm_mem s0) S x) = y}"
    "vm_cr3 s = vm_cr3 s0"
  using assms unfolding clone_state_def by blast+

lemma cow_leaf_id: "\<not> user_leaf l \<Longrightarrow> cow_leaf l = l"
  by (simp add: cow_leaf_def)

lemma clone_state_start:
  assumes "clone_inv S D s"
  shows "clone_state s S D {} s"
  using assms by (simp add: clone_state_def)

lemma clone_state_skip:
  assumes st: "clone_state s0 S D X s" and Y: "\<And>x. x \<in> Y \<Longrightarrow> \<not> user_leaf (leafx (vm_mem s0) S x)"
  shows "clone_state s0 S D (X \<union> Y) s"
proof -
  have e: "(X \<union> Y) \<inter> user_pages (vm_mem s0) S = X \<inter> user_pages (vm_mem s0) S"
    using Y by (auto simp: user_pages_def)
  have c: "cow_leaf (leaf (vm_mem s0) S a b c d) = leaf (vm_mem s0) S a b c d" if "(a, b, c, d) \<in> Y" for a b c d
    using Y [OF that] by (simp add: cow_leaf_id)
  show ?thesis using st c unfolding clone_state_def e by auto
qed

lemma clone_state_page:
  assumes st: "clone_state s0 S D X s" and cl: "clonable s0 S n" and inv0: "pmm_inv (vm_pmm s0)"
    and emp: "\<And>a b c d. pos_ok (a, b, c, d) \<Longrightarrow> leaf (vm_mem s0) D a b c d = None"
    and x: "(a, b, c, d) \<notin> X" "pos_ok (a, b, c, d)" and w: "walk (vm_mem s) S [a, b, c] = Some pt"
  shows "\<exists>s'. clone_page D (make_virt a b c d) pt d s = Some (True, s') \<and> clone_state s0 S D (insert (a, b, c, d) X) s'"
proof -
  let ?U = "user_pages (vm_mem s0) S" and ?x = "(a, b, c, d)" and ?e = "pte (vm_mem s) pt d"
  have idx: "path_ok [a, b, c]" "d < 512" and ns: "\<not> shared_path [a, b, c]" using x(2) by simp_all
  have l: "leaf (vm_mem s) S a b c d = (if bit ?e 0 then Some (False, ?e) else None)"
    using w by (simp add: leaf_def del: walk.simps)
  have l0: "leaf (vm_mem s0) S a b c d = leaf (vm_mem s) S a b c d" using st x(1) idx by (simp add: clone_state_def)
  show ?thesis
  proof (cases "bit ?e 0 \<and> bit ?e 2")
    case False
    then have nu: "\<not> user_leaf (leafx (vm_mem s0) S ?x)" using l l0 by (auto simp: user_leaf_def)
    have "clone_page D (make_virt a b c d) pt d s = Some (True, s)"
      using False user_flags [of ?e] by (auto simp: clone_page_def Let_def)
    then show ?thesis using clone_state_skip [OF st, of "{?x}"] nu by auto
  next
    case True
    define f where "f = ?e AND VMM_PHYS_MASK"
    have lu: "leaf (vm_mem s0) S a b c d = Some (False, ?e)" using l l0 True by simp
    have xU: "?x \<in> ?U" using lu True x(2) by (auto simp: user_pages_def user_leaf_def)
    have fx: "leaf_frame (leafx (vm_mem s0) S ?x) = f" using lu by (simp add: leaf_frame_def f_def)
    note C = clone_stateD [OF st]
    have f0: "0 < frame_refs (vm_pmm s0) f" using clonableD(2) [OF cl xU] fx by simp
    have fa: "f \<notin> avail_frames (vm_pmm s0)"
    proof
      assume "f \<in> avail_frames (vm_pmm s0)"
      then show False using pmm.avail_unowned [OF inv0] f0 by simp
    qed
    let ?A = "{y \<in> X \<inter> ?U. leaf_frame (leafx (vm_mem s0) S y) = f}"
    have "insert ?x ?A \<subseteq> {y \<in> ?U. leaf_frame (leafx (vm_mem s0) S y) = f}" using xU fx by auto
    then have "card (insert ?x ?A) \<le> card {y \<in> ?U. leaf_frame (leafx (vm_mem s0) S y) = f}" by (rule card_mono [OF finite_pos])
    then have "Suc (card ?A) \<le> card {y \<in> ?U. leaf_frame (leafx (vm_mem s0) S y) = f}" using x(1) by simp
    then have fm: "frame_refs (vm_pmm s) f < 0xFFFF" using C(7) [OF fa] clonableD(3) [OF cl, of f] by linarith
    have fp: "0 < frame_refs (vm_pmm s) f" using C(7) [OF fa] f0 by linarith
    have "card (insert ?x (X \<inter> ?U)) \<le> card ?U" using xU by (intro card_mono) auto
    then have XU: "Suc (card (X \<inter> ?U)) \<le> card ?U" using x(1) by simp
    have free: "3 \<le> card (avail_frames (vm_pmm s))" using C(6) clonableD(1) [OF cl] XU by linarith
    have "leaf (vm_mem s) D a b c d = None" using C(4) [OF idx] x(1) emp [OF x(2)] by simp
    from clone_page_step [OF C(1) ns idx w refl _ _ fp [unfolded f_def] fm [unfolded f_def] free this] True obtain s' where
      run: "clone_page D (make_virt a b c d) pt d s = Some (True, s')" and inv': "clone_inv S D s'"
      and W: "\<forall>q. path_ok q \<longrightarrow> walk (vm_mem s') S q = walk (vm_mem s) S q"
      and L: "\<forall>a' b' c' d'. path_ok [a', b', c'] \<and> d' < 512 \<longrightarrow>
         leaf (vm_mem s') S a' b' c' d' = (if (a', b', c', d') = ?x then Some (False, cow_entry ?e) else leaf (vm_mem s) S a' b' c' d') \<and>
         leaf (vm_mem s') D a' b' c' d' = (if (a', b', c', d') = ?x then Some (False, cow_entry ?e) else leaf (vm_mem s) D a' b' c' d')"
      and av: "avail_frames (vm_pmm s') \<subseteq> avail_frames (vm_pmm s)" "card (avail_frames (vm_pmm s)) \<le> card (avail_frames (vm_pmm s')) + 3"
      and rf: "\<forall>y. y \<notin> avail_frames (vm_pmm s) \<longrightarrow> frame_refs (vm_pmm s') y = frame_refs (vm_pmm s) y + (if y = f then 1 else 0)"
      and cr: "vm_cr3 s' = vm_cr3 s" unfolding f_def by blast
    have XI: "insert ?x X \<inter> ?U = insert ?x (X \<inter> ?U)" using xU by auto
    have cl: "cow_leaf (leaf (vm_mem s0) S a b c d) = Some (False, cow_entry ?e)"
      using lu True by (simp add: cow_leaf_def user_leaf_def)
    have "frame_refs (vm_pmm s') y = frame_refs (vm_pmm s0) y +
        card {z \<in> insert ?x X \<inter> ?U. leaf_frame (leafx (vm_mem s0) S z) = y}" if "y \<notin> avail_frames (vm_pmm s0)" for y
    proof -
      have "{z \<in> insert ?x X \<inter> ?U. leaf_frame (leafx (vm_mem s0) S z) = y} =
        (if y = f then insert ?x {z \<in> X \<inter> ?U. leaf_frame (leafx (vm_mem s0) S z) = y}
         else {z \<in> X \<inter> ?U. leaf_frame (leafx (vm_mem s0) S z) = y})"
        unfolding XI using fx by auto
      then show ?thesis using rf C(5) C(7) [OF that] that x(1) by auto
    qed
    moreover have "card (avail_frames (vm_pmm s0)) \<le> card (avail_frames (vm_pmm s')) + 3 * card (insert ?x X \<inter> ?U)"
      unfolding XI using C(6) av(2) x(1) by simp
    moreover have "\<forall>q. path_ok q \<longrightarrow> walk (vm_mem s') S q = walk (vm_mem s0) S q" using W C(2) by simp
    moreover have "avail_frames (vm_pmm s') \<subseteq> avail_frames (vm_pmm s0)" using av(1) C(5) by blast
    moreover have "\<forall>a' b' c' d'. path_ok [a', b', c'] \<and> d' < 512 \<longrightarrow>
        leaf (vm_mem s') S a' b' c' d' = (if (a', b', c', d') \<in> insert ?x X then cow_leaf (leaf (vm_mem s0) S a' b' c' d') else leaf (vm_mem s0) S a' b' c' d') \<and>
        leaf (vm_mem s') D a' b' c' d' = (if (a', b', c', d') \<in> insert ?x X \<inter> ?U then cow_leaf (leaf (vm_mem s0) S a' b' c' d')
          else leaf (vm_mem s0) D a' b' c' d')"
      unfolding XI using L C(3,4) cl by auto
    ultimately have "clone_state s0 S D (insert ?x X) s'" unfolding clone_state_def using inv' cr C(8) by simp
    then show ?thesis using run by blast
  qed
qed

lemma for_while_ok_inv:
  assumes start: "I k s" and step: "\<And>j s. k \<le> j \<Longrightarrow> j < n \<Longrightarrow> I j s \<Longrightarrow> \<exists>s'. body j s = Some (True, s') \<and> I (Suc j) s'"
    and le: "k \<le> n"
  shows "\<exists>s'. for_while_ok [k..<n] body s = Some (True, s') \<and> I n s'"
  using assms
proof (induction "n - k" arbitrary: k s)
  case 0
  then show ?case by simp
next
  case (Suc m)
  then have kn: "k < n" by simp
  from Suc.prems(2) [OF le_refl kn Suc.prems(1)] obtain s' where s': "body k s = Some (True, s')" "I (Suc k) s'" by blast
  have "\<exists>s''. for_while_ok [Suc k..<n] body s' = Some (True, s'') \<and> I n s''"
    using Suc.hyps(2) kn by (intro Suc.hyps(1) [OF _ s'(2)] Suc.prems(2)) auto
  then show ?case using s'(1) kn by (simp add: upt_conv_Cons)
qed

text \<open>The positions the four nested loops have been through.\<close>

definition before :: "nat \<Rightarrow> nat \<Rightarrow> nat \<Rightarrow> nat \<Rightarrow> pos set" where
  "before i j k l = {(a, b, c, d). pos_ok (a, b, c, d) \<and>
     (unat a < i \<or> unat a = i \<and> (unat b < j \<or> unat b = j \<and> (unat c < k \<or> unat c = k \<and> unat d < l)))}"

lemma pos_okD:
  assumes "pos_ok (a, b, c, d)"
  shows "unat a < 256" "unat b < 512" "unat c < 512" "unat d < 512" "\<not> (a = 0 \<and> b = 0)"
  using assms by (auto simp: path_ok_def shared_path_def word_less_nat_alt word_le_nat_alt)

lemma before_carry:
  "before i j k 512 = before i j (Suc k) 0" "before i j 512 0 = before i (Suc j) 0 0" "before i 512 0 0 = before (Suc i) 0 0 0"
  "before 0 0 0 0 = {}" "before 0 (Suc 0) 0 0 = {}" "before 256 0 0 0 = {x. pos_ok x}"
  using pos_okD by (fastforce simp: before_def less_Suc_eq unat_eq_0)+

lemma unat_of_nat_512: "i < 512 \<Longrightarrow> unat (of_nat i :: u64) = i"
  by (simp add: unat_of_nat)

lemma of_nat_512: "i < 512 \<Longrightarrow> (of_nat i :: u64) < 512"
  by (simp add: word_less_nat_alt unat_of_nat)

lemma unat_eq_of_nat: "i < 512 \<Longrightarrow> unat (a :: u64) = i \<longleftrightarrow> a = of_nat i"
  using unat_of_nat_512 [of i] by (auto simp: word_unat_eq_iff)

lemma before_step:
  assumes "i < 512" "j < 512" "k < 512" "l < 512"
  shows "before i j k (Suc l) =
    (if pos_ok (of_nat i, of_nat j, of_nat k, of_nat l) then insert (of_nat i, of_nat j, of_nat k, of_nat l) (before i j k l) else before i j k l)"
    "(of_nat i, of_nat j, of_nat k, of_nat l) \<notin> before i j k l"
    "before i j (Suc k) 0 = before i j k 0 \<union> {(a, b, c, d). pos_ok (a, b, c, d) \<and> a = of_nat i \<and> b = of_nat j \<and> c = of_nat k}"
    "before i (Suc j) 0 0 = before i j 0 0 \<union> {(a, b, c, d). pos_ok (a, b, c, d) \<and> a = of_nat i \<and> b = of_nat j}"
    "before (Suc i) 0 0 0 = before i 0 0 0 \<union> {(a, b, c, d). pos_ok (a, b, c, d) \<and> a = of_nat i}"
proof -
  note E = unat_eq_of_nat [OF assms(1)] unat_eq_of_nat [OF assms(2)] unat_eq_of_nat [OF assms(3)] unat_eq_of_nat [OF assms(4)]
  note N = unat_of_nat_512 [OF assms(1)] unat_of_nat_512 [OF assms(2)] unat_of_nat_512 [OF assms(3)] unat_of_nat_512 [OF assms(4)]
  show "before i j k (Suc l) =
    (if pos_ok (of_nat i, of_nat j, of_nat k, of_nat l) then insert (of_nat i, of_nat j, of_nat k, of_nat l) (before i j k l) else before i j k l)"
    by (auto simp: before_def less_Suc_eq N E simp del: pos_ok.simps)
  show "(of_nat i, of_nat j, of_nat k, of_nat l) \<notin> before i j k l" by (simp add: before_def N del: pos_ok.simps)
  show "before i j (Suc k) 0 = before i j k 0 \<union> {(a, b, c, d). pos_ok (a, b, c, d) \<and> a = of_nat i \<and> b = of_nat j \<and> c = of_nat k}"
    by (auto simp: before_def less_Suc_eq N E simp del: pos_ok.simps)
  show "before i (Suc j) 0 0 = before i j 0 0 \<union> {(a, b, c, d). pos_ok (a, b, c, d) \<and> a = of_nat i \<and> b = of_nat j}"
    by (auto simp: before_def less_Suc_eq N E simp del: pos_ok.simps)
  show "before (Suc i) 0 0 0 = before i 0 0 0 \<union> {(a, b, c, d). pos_ok (a, b, c, d) \<and> a = of_nat i}"
    by (auto simp: before_def less_Suc_eq N E simp del: pos_ok.simps)
qed

declare walk.simps [simp del]

text \<open>What the loops need of the state they start from.\<close>

definition clone_ready :: "vmm_state \<Rightarrow> u64 \<Rightarrow> u64 \<Rightarrow> nat \<Rightarrow> bool" where
  "clone_ready s0 S D n \<longleftrightarrow>
     clone_inv S D s0 \<and> clonable s0 S n \<and> (\<forall>a b c d. pos_ok (a, b, c, d) \<longrightarrow> leaf (vm_mem s0) D a b c d = None)"

lemma clone_readyD:
  assumes "clone_ready s0 S D n"
  shows "clonable s0 S n" "pmm_inv (vm_pmm s0)" "pos_ok (a, b, c, d) \<Longrightarrow> leaf (vm_mem s0) D a b c d = None" "clone_inv S D s0"
  using assms unfolding clone_ready_def clone_inv_def space_ok_def by blast+

lemma pos_ok_of_nat:
  assumes "i < 256" "j < 512" "k < 512" "l < 512" "\<not> (i = 0 \<and> j = 0)"
  shows "pos_ok (of_nat i, of_nat j, of_nat k, of_nat l)"
proof -
  have u: "unat (of_nat i :: u64) = i" "unat (of_nat j :: u64) = j" using assms by (simp_all add: unat_of_nat)
  then have "\<not> ((of_nat i :: u64) = 0 \<and> (of_nat j :: u64) = 0)" using assms(5) by (metis unat_0)
  then show ?thesis using assms u
    by (simp add: path_ok_def shared_path_def of_nat_512 word_le_nat_alt word_less_nat_alt unat_of_nat)
qed

lemma clone_pt_loop:
  assumes st: "clone_state s0 S D (before i j k 0) s" and rd: "clone_ready s0 S D n"
    and ix: "i < 256" "j < 512" "k < 512" "\<not> (i = 0 \<and> j = 0)"
    and w: "walk (vm_mem s0) S [of_nat i, of_nat j, of_nat k] = Some pt"
  shows "\<exists>s'. clone_pt D i j k pt s = Some (True, s') \<and> clone_state s0 S D (before i j (Suc k) 0) s'"
proof -
  have "\<exists>s'. for_while_ok [0..<512] (\<lambda>l. clone_page D (make_virt (of_nat i) (of_nat j) (of_nat k) (of_nat l)) pt (of_nat l)) s =
      Some (True, s') \<and> clone_state s0 S D (before i j k 512) s'"
  proof (rule for_while_ok_inv [where I = "\<lambda>l. clone_state s0 S D (before i j k l)", OF st])
    fix l s assume l: "l < 512" and I: "clone_state s0 S D (before i j k l) s"
    have i5: "i < 512" using ix(1) by simp
    have po: "pos_ok (of_nat i, of_nat j, of_nat k, of_nat l)" by (rule pos_ok_of_nat [OF ix(1-3) l ix(4)])
    have "path_ok [of_nat i, of_nat j, of_nat k]" using po by simp
    then have "walk (vm_mem s) S [of_nat i, of_nat j, of_nat k] = Some pt" using clone_stateD(2) [OF I] w by simp
    from clone_state_page [OF I clone_readyD(1-3) [OF rd] before_step(2) [OF i5 ix(2,3) l] po this]
    show "\<exists>s'. clone_page D (make_virt (of_nat i) (of_nat j) (of_nat k) (of_nat l)) pt (of_nat l) s = Some (True, s') \<and>
        clone_state s0 S D (before i j k (Suc l)) s'"
      using before_step(1) [OF i5 ix(2,3) l] po by simp
  qed simp
  then show ?thesis by (simp only: clone_pt_def before_carry)
qed

text \<open>Positions below an entry that leads nowhere hold no user page.\<close>

lemma clone_skip_entry:
  assumes st: "clone_state s0 S D (before i j k 0) s" and ix: "i < 256" "j < 512" "k < 512" "\<not> (i = 0 \<and> j = 0)"
    and w: "walk (vm_mem s) S [of_nat i, of_nat j] = Some pd" and no: "link (pte (vm_mem s) pd (of_nat k)) = None"
  shows "clone_state s0 S D (before i j (Suc k) 0) s"
    "bit (pte (vm_mem s) pd (of_nat k)) 0 \<Longrightarrow> leaf (vm_mem s0) S (of_nat i) (of_nat j) (of_nat k) 0 = Some (True, pte (vm_mem s) pd (of_nat k))"
proof -
  let ?a = "of_nat i :: u64" and ?b = "of_nat j :: u64" and ?c = "of_nat k :: u64" and ?e = "pte (vm_mem s) pd (of_nat k)"
  have i5: "i < 512" using ix(1) by simp
  have w3: "walk (vm_mem s) S [?a, ?b, ?c] = None" using walk_snoc [of "vm_mem s" S "[?a, ?b]" ?c] w no by simp
  have l: "leaf (vm_mem s) S ?a ?b ?c d = (if bit ?e 0 then Some (True, ?e) else None)" for d
    using w3 w by (simp add: leaf_def)
  have l0: "leaf (vm_mem s0) S ?a ?b ?c d = (if bit ?e 0 then Some (True, ?e) else None)" if "d < 512" for d
  proof -
    have "unat d < 512" using that by (simp add: word_less_nat_alt)
    then have po: "pos_ok (?a, ?b, ?c, d)" using pos_ok_of_nat [OF ix(1-3) _ ix(4), of "unat d"] by simp
    have "(?a, ?b, ?c, d) \<notin> before i j k 0"
      using unat_of_nat_512 [OF i5] unat_of_nat_512 [OF ix(2)] unat_of_nat_512 [OF ix(3)] by (simp add: before_def del: pos_ok.simps)
    then show ?thesis using clone_stateD(3) [OF st, of ?a ?b ?c d] l po by simp
  qed
  show "bit ?e 0 \<Longrightarrow> leaf (vm_mem s0) S ?a ?b ?c 0 = Some (True, ?e)" using l0 by simp
  show "clone_state s0 S D (before i j (Suc k) 0) s"
    unfolding before_step(3) [OF i5 ix(2,3), of 0, simplified]
    by (rule clone_state_skip [OF st]) (use l0 in \<open>auto simp: user_leaf_def split: if_splits\<close>)
qed

lemma clone_pd_loop:
  assumes st: "clone_state s0 S D (before i j 0 0) s" and rd: "clone_ready s0 S D n"
    and ix: "i < 256" "j < 512" "\<not> (i = 0 \<and> j = 0)" and w: "walk (vm_mem s0) S [of_nat i, of_nat j] = Some pd"
  shows "\<exists>s'. clone_pd D i j pd s = Some (True, s') \<and> clone_state s0 S D (before i (Suc j) 0 0) s'"
proof -
  let ?a = "of_nat i :: u64" and ?b = "of_nat j :: u64"
  have "\<exists>s'. for_while_ok [0..<512] (\<lambda>k s. let e = pte (vm_mem s) pd (of_nat k) in
       if \<not> pte_has e VMM_PRESENT then Some (True, s)
       else if pte_has e VMM_HUGE then Some (\<not> pte_has e VMM_USER, s)
       else clone_pt D i j k (e AND VMM_PHYS_MASK) s) s =
      Some (True, s') \<and> clone_state s0 S D (before i j 512 0) s'"
  proof (rule for_while_ok_inv [where I = "\<lambda>k. clone_state s0 S D (before i j k 0)", OF st])
    fix k s assume k: "k < 512" and I: "clone_state s0 S D (before i j k 0) s"
    let ?e = "pte (vm_mem s) pd (of_nat k)"
    have po: "pos_ok (?a, ?b, of_nat k, of_nat 0)" by (rule pos_ok_of_nat [OF ix(1,2) k _ ix(3)]) simp
    then have pk: "path_ok [?a, ?b]" "path_ok [?a, ?b, of_nat k]" by (auto simp: path_ok_def)
    have ws: "walk (vm_mem s) S [?a, ?b] = Some pd" using clone_stateD(2) [OF I pk(1)] w by simp
    show "\<exists>s'. (let e = ?e in if \<not> pte_has e VMM_PRESENT then Some (True, s)
       else if pte_has e VMM_HUGE then Some (\<not> pte_has e VMM_USER, s)
       else clone_pt D i j k (e AND VMM_PHYS_MASK) s) = Some (True, s') \<and> clone_state s0 S D (before i j (Suc k) 0) s'"
    proof (cases "link ?e")
      case None
      note sk = clone_skip_entry [OF I ix(1,2) k ix(3) ws None]
      have "\<not> bit ?e 2" if "bit ?e 0"
        using clonableD(4) [OF clone_readyD(1) [OF rd] po, of ?e] sk(2) [OF that] by simp
      then show ?thesis using sk(1) None by (auto simp: Let_def link_def split: if_splits)
    next
      case (Some pt)
      then have e: "bit ?e 0" "\<not> bit ?e 7" "pt = ?e AND VMM_PHYS_MASK" by (auto simp: link_def split: if_splits)
      have "walk (vm_mem s) S [?a, ?b, of_nat k] = Some pt"
        using walk_snoc [of "vm_mem s" S "[?a, ?b]" "of_nat k"] ws Some by simp
      then have "walk (vm_mem s0) S [?a, ?b, of_nat k] = Some pt" using clone_stateD(2) [OF I pk(2)] by simp
      from clone_pt_loop [OF I rd ix(1,2) k ix(3) this] show ?thesis using e by (simp add: Let_def)
    qed
  qed simp
  then show ?thesis by (simp only: clone_pd_def before_carry)
qed

lemma clone_pdpt_loop:
  assumes st: "clone_state s0 S D (before i 0 0 0) s" and rd: "clone_ready s0 S D n"
    and ix: "i < 256" and w: "walk (vm_mem s0) S [of_nat i] = Some pdpt"
  shows "\<exists>s'. clone_pdpt D i pdpt s = Some (True, s') \<and> clone_state s0 S D (before (Suc i) 0 0 0) s'"
proof -
  let ?a = "of_nat i :: u64"
  have "\<exists>s'. for_while_ok [0..<512] (\<lambda>j s. let e = pte (vm_mem s) pdpt (of_nat j) in
       if i = 0 \<and> j = 0 then Some (True, s)
       else if \<not> pte_has e VMM_PRESENT then Some (True, s)
       else if pte_has e VMM_HUGE then Some (\<not> pte_has e VMM_USER, s)
       else clone_pd D i j (e AND VMM_PHYS_MASK) s) s =
      Some (True, s') \<and> clone_state s0 S D (before i 512 0 0) s'"
  proof (rule for_while_ok_inv [where I = "\<lambda>j. clone_state s0 S D (before i j 0 0)", OF st])
    fix j s assume j: "j < 512" and I: "clone_state s0 S D (before i j 0 0) s"
    let ?b = "of_nat j :: u64" and ?e = "pte (vm_mem s) pdpt (of_nat j)"
    have i5: "i < 512" using ix by simp
    have pk: "path_ok [?a]" "path_ok ([?a] @ [?b])" using i5 j by (auto simp: path_ok_def of_nat_512)
    have ws: "walk (vm_mem s) S [?a] = Some pdpt" using clone_stateD(2) [OF I pk(1)] w by simp
    have wb: "walk (vm_mem s) S [?a, ?b] = link ?e" using walk_snoc [of "vm_mem s" S "[?a]" ?b] ws by simp
    have "tree_ok (vm_mem s) S" using clone_stateD(1) [OF I] by (simp add: clone_inv_def space_ok_def)
    then have b7: "\<not> bit ?e 7" using tree_okD(3) [OF _ pk(2) ws] by auto
    show "\<exists>s'. (let e = ?e in if i = 0 \<and> j = 0 then Some (True, s)
       else if \<not> pte_has e VMM_PRESENT then Some (True, s)
       else if pte_has e VMM_HUGE then Some (\<not> pte_has e VMM_USER, s)
       else clone_pd D i j (e AND VMM_PHYS_MASK) s) = Some (True, s') \<and> clone_state s0 S D (before i (Suc j) 0 0) s'"
    proof (cases "i = 0 \<and> j = 0")
      case True
      then show ?thesis using I before_carry(4,5) by (simp add: Let_def)
    next
      case nz: False
      show ?thesis
      proof (cases "bit ?e 0")
        case False
        then have no: "walk (vm_mem s) S [?a, ?b] = None" using wb by (simp add: link_def)
        have pk2: "path_ok [?a, ?b]" using pk(2) by simp
        have no0: "walk (vm_mem s0) S [?a, ?b] = None" using clone_stateD(2) [OF I pk2] no by simp
        have "leaf (vm_mem s0) S ?a ?b c d = None" for c d
          using no0 walk_snoc [of "vm_mem s0" S "[?a, ?b]" c] by (simp add: leaf_def)
        then have "clone_state s0 S D (before i (Suc j) 0 0) s"
          unfolding before_step(4) [OF i5 j, of 0 0, simplified]
          by (intro clone_state_skip [OF I]) (auto simp: user_leaf_def)
        then show ?thesis using False nz by (auto simp: Let_def)
      next
        case True
        then have "walk (vm_mem s) S [?a, ?b] = Some (?e AND VMM_PHYS_MASK)" using wb b7 by (simp add: link_def)
        moreover have "path_ok [?a, ?b]" using pk(2) by simp
        ultimately have "walk (vm_mem s0) S [?a, ?b] = Some (?e AND VMM_PHYS_MASK)" using clone_stateD(2) [OF I] by simp
        from clone_pd_loop [OF I rd ix j nz this] show ?thesis using True b7 nz by (auto simp: Let_def)
      qed
    qed
  qed simp
  then show ?thesis by (simp only: clone_pdpt_def before_carry)
qed

lemma clone_loop:
  assumes rd: "clone_ready s S D n"
  shows "\<exists>s'. for_while_ok [0..<256] (\<lambda>i s.
            let e = pte (vm_mem s) S (of_nat i) in
            if \<not> pte_has e VMM_PRESENT then Some (True, s)
            else clone_pdpt D i (e AND VMM_PHYS_MASK) s) s = Some (True, s') \<and> clone_state s S D {x. pos_ok x} s'"
proof -
  have st: "clone_state s S D (before 0 0 0 0) s"
    unfolding before_carry by (rule clone_state_start [OF clone_readyD(4) [OF rd]])
  have "\<exists>s'. for_while_ok [0..<256] (\<lambda>i s.
            let e = pte (vm_mem s) S (of_nat i) in
            if \<not> pte_has e VMM_PRESENT then Some (True, s)
            else clone_pdpt D i (e AND VMM_PHYS_MASK) s) s = Some (True, s') \<and> clone_state s S D (before 256 0 0 0) s'"
  proof (rule for_while_ok_inv [where I = "\<lambda>i. clone_state s S D (before i 0 0 0)", OF st])
    fix i s' assume i: "i < 256" and I: "clone_state s S D (before i 0 0 0) s'"
    let ?a = "of_nat i :: u64" and ?e = "pte (vm_mem s') S (of_nat i)"
    have i5: "i < 512" using i by simp
    have pk: "path_ok ([] @ [?a])" using i5 by (simp add: path_ok_def of_nat_512)
    have wa: "walk (vm_mem s') S [?a] = link ?e" by (cases "link ?e") (simp_all add: walk.simps)
    have "tree_ok (vm_mem s') S" using clone_stateD(1) [OF I] by (simp add: clone_inv_def space_ok_def)
    then have b7: "\<not> bit ?e 7" using tree_okD(3) [OF _ pk] by (auto simp: walk.simps)
    have wsame: "walk (vm_mem s') S [?a] = walk (vm_mem s) S [?a]" using clone_stateD(2) [OF I] pk by simp
    show "\<exists>s''. (let e = ?e in if \<not> pte_has e VMM_PRESENT then Some (True, s')
            else clone_pdpt D i (e AND VMM_PHYS_MASK) s') = Some (True, s'') \<and> clone_state s S D (before (Suc i) 0 0 0) s''"
    proof (cases "bit ?e 0")
      case False
      then have "walk (vm_mem s) S [?a] = None" using wa wsame by (simp add: link_def)
      then have "leaf (vm_mem s) S ?a b c d = None" for b c d
        using walk_append [of "vm_mem s" S "[?a]"] by (simp add: leaf_def)
      then have "clone_state s S D (before (Suc i) 0 0 0) s'"
        unfolding before_step(5) [OF i5, of 0 0 0, simplified]
        by (intro clone_state_skip [OF I]) (auto simp: user_leaf_def)
      then show ?thesis using False by (simp add: Let_def)
    next
      case True
      then have "walk (vm_mem s) S [?a] = Some (?e AND VMM_PHYS_MASK)" using wa b7 wsame by (simp add: link_def)
      from clone_pdpt_loop [OF I rd i this] show ?thesis using True by (simp add: Let_def)
    qed
  qed simp
  then show ?thesis by (simp only: before_carry)
qed

section \<open>Cloning an address space\<close>

text \<open>A fresh space from vmm_create_address_space is apart from the one it was made from.\<close>

lemma created_apart:
  assumes ok: "tree_ok m cur" and sh: "shares_kernel m cur m' new low"
    and same: "\<And>q. path_ok q \<Longrightarrow> walk m' cur q = walk m cur q"
  shows "apart m' cur new"
proof -
  note W = shared_walk [OF ok sh]
  have F: "new \<notin> tables m cur" "low \<notin> tables m cur" using sh by (auto simp: shares_kernel_def)
  have own: "own_tables m' new \<subseteq> {new, low}"
  proof
    fix t assume "t \<in> own_tables m' new"
    then obtain p where p: "path_ok p" "\<not> shared_path p" "walk m' new p = Some t" by (auto simp: own_tables_def)
    then show "t \<in> {new, low}" using W [OF p(1)] by (auto split: if_splits)
  qed
  have tc: "tables m' cur = tables m cur" using same by (auto simp: tables_def)
  have "own_tables m' cur \<inter> tables m' new = {}"
  proof (rule ccontr)
    assume "own_tables m' cur \<inter> tables m' new \<noteq> {}"
    then obtain t p q where p: "path_ok p" "\<not> shared_path p" "walk m' cur p = Some t"
      and q: "path_ok q" "walk m' new q = Some t" by (auto simp: own_tables_def tables_def)
    have wp: "walk m cur p = Some t" using same [OF p(1)] p(3) by simp
    then have "t \<in> tables m cur" by (rule tablesI [OF p(1)])
    then have "shared_path q" "walk m cur q = Some t" using W [OF q(1)] q(2) F by (auto split: if_splits)
    then show False using tree_okD(2) [OF ok p(1) q(1) wp] p(2) by simp
  qed
  then show ?thesis using own F tc by (auto simp: apart_def)
qed

lemma user_pages_cong:
  assumes "same_leaves root m m'"
  shows "user_pages m' root = user_pages m root" "pos_ok x \<Longrightarrow> leafx m' root x = leafx m root x"
proof -
  show l: "pos_ok x \<Longrightarrow> leafx m' root x = leafx m root x" for x using assms by (cases x) (simp add: same_leaves_def)
  show "user_pages m' root = user_pages m root" using l by (auto simp: user_pages_def)
qed

lemma clone_ready_created:
  assumes ok: "space_ok s S" and sh: "shares_kernel (vm_mem s) S (vm_mem s1) D low" and inv: "pmm_inv (vm_pmm s1)"
    and om: "old_mem_same s s1" and fr: "{D, low} \<subseteq> avail_frames (vm_pmm s)"
    and av: "avail_frames (vm_pmm s1) = avail_frames (vm_pmm s) - {D, low}"
    and rf: "frame_refs (vm_pmm s1) = (frame_refs (vm_pmm s))(D := 1, low := 1)" and cl: "clonable s S 2"
  shows "clone_ready s1 S D 0" "same_leaves S (vm_mem s) (vm_mem s1)" "space_ok s1 D"
    "path_ok [a, b, c] \<Longrightarrow> d < 512 \<Longrightarrow> leaf (vm_mem s1) D a b c d = (if 256 \<le> a \<or> a = 0 \<and> b = 0 then leaf (vm_mem s) S a b c d else None)"
proof -
  have tok: "tree_ok (vm_mem s) S" using ok by (simp add: space_ok_def)
  have "avail_frames (vm_pmm s1) \<subseteq> avail_frames (vm_pmm s)" using av by auto
  note O = space_ok_old_mem [OF ok om inv this] and T = shared_tree [OF tok sh] and L = shared_leaf [OF tok sh]
  show "same_leaves S (vm_mem s) (vm_mem s1)" by (rule O(2))
  show okD: "space_ok s1 D" using T inv av ok by (auto simp: space_ok_def)
  show "path_ok [a, b, c] \<Longrightarrow> d < 512 \<Longrightarrow> leaf (vm_mem s1) D a b c d = (if 256 \<le> a \<or> a = 0 \<and> b = 0 then leaf (vm_mem s) S a b c d else None)"
    by (rule L)
  have ap: "clone_inv S D s1" using O(1) okD created_apart [OF tok sh O(4)] by (simp add: clone_inv_def)
  note U = user_pages_cong [OF O(2)]
  have pinv: "pmm_inv (vm_pmm s)" using ok by (simp add: space_ok_def)
  have own: "frame_refs (vm_pmm s1) (leaf_frame (leafx (vm_mem s) S x)) = frame_refs (vm_pmm s) (leaf_frame (leafx (vm_mem s) S x))"
    if "x \<in> user_pages (vm_mem s) S" for x
  proof -
    have "leaf_frame (leafx (vm_mem s) S x) \<notin> {D, low}"
      using clonableD(2) [OF cl that] pmm.avail_unowned [OF pinv] fr by fastforce
    then show ?thesis using rf by simp
  qed
  have fx: "leaf_frame (leafx (vm_mem s1) S x) = leaf_frame (leafx (vm_mem s) S x)" if "x \<in> user_pages (vm_mem s) S" for x
    using U(2) [of x] that by (simp add: user_pages_def)
  have "clonable s1 S 0" unfolding clonable_def U(1)
  proof (intro conjI ballI allI impI)
    have "card (avail_frames (vm_pmm s)) \<le> card (avail_frames (vm_pmm s1)) + card {D, low}"
      unfolding av by (metis add.commute card_Diff_subset_Int diff_card_le_card_Diff finite.emptyI finite.insertI le_diff_conv)
    moreover have "card {D, low} \<le> 2" by (simp add: card_insert_if)
    ultimately show "0 + 3 * card (user_pages (vm_mem s) S) \<le> card (avail_frames (vm_pmm s1))" using clonableD(1) [OF cl] by linarith
    fix x assume "x \<in> user_pages (vm_mem s) S"
    then show "0 < frame_refs (vm_pmm s1) (leaf_frame (leafx (vm_mem s1) S x))" using clonableD(2) [OF cl] own fx by simp
  next
    fix a
    have e: "{x \<in> user_pages (vm_mem s) S. leaf_frame (leafx (vm_mem s1) S x) = a} = {x \<in> user_pages (vm_mem s) S. leaf_frame (leafx (vm_mem s) S x) = a}"
      using fx by auto
    show "frame_refs (vm_pmm s1) a + card {x \<in> user_pages (vm_mem s) S. leaf_frame (leafx (vm_mem s1) S x) = a} \<le> 0xFFFF"
    proof (cases "a \<in> {D, low}")
      case True
      then have "a \<in> avail_frames (vm_pmm s)" using fr by auto
      then have z: "frame_refs (vm_pmm s) a = 0" by (rule pmm.avail_unowned [OF pinv])
      have "leaf_frame (leafx (vm_mem s) S x) \<noteq> a" if "x \<in> user_pages (vm_mem s) S" for x
        using clonableD(2) [OF cl that] z by auto
      then have none: "{x \<in> user_pages (vm_mem s) S. leaf_frame (leafx (vm_mem s) S x) = a} = {}" by blast
      show ?thesis unfolding e none using True rf by auto
    next
      case False
      then show ?thesis unfolding e using clonableD(3) [OF cl, of a] rf by auto
    qed
  next
    fix x e assume "pos_ok x \<and> leafx (vm_mem s1) S x = Some (True, e)"
    then show "\<not> bit e 2" using clonableD(4) [OF cl, of x e] U(2) [of x] by simp
  qed
  moreover have "leaf (vm_mem s1) D a b c d = None" if "pos_ok (a, b, c, d)" for a b c d
    using L [of a b c d] that by (auto simp: shared_path_def)
  ultimately show "clone_ready s1 S D 0" using ap unfolding clone_ready_def by blast
qed

text \<open>A page a user owns, the part of the address space all spaces share, and the flags of a page once
  it is shared copy-on-write.\<close>

definition user_page :: "u64 \<Rightarrow> u64 \<Rightarrow> vmm_state \<Rightarrow> bool" where
  "user_page root v s \<longleftrightarrow> (pml4_idx v, pdpt_idx v, pd_idx v, pt_idx v) \<in> user_pages (vm_mem s) root"

definition kernel_part :: "u64 \<Rightarrow> bool" where
  "kernel_part v \<longleftrightarrow> 256 \<le> pml4_idx v \<or> pml4_idx v = 0 \<and> pdpt_idx v = 0"

definition shared_flags :: "u64 \<Rightarrow> u64" where
  "shared_flags f = (if pte_has f VMM_WRITE then f AND NOT VMM_WRITE OR VMM_COW else f)"

lemma cow_leaf_view:
  "leaf_phys (cow_leaf l) v = leaf_phys l v"
  "leaf_flags (cow_leaf l) = (if user_leaf l then shared_flags (leaf_flags l) else leaf_flags l)"
proof -
  have m: "cow_entry e AND VMM_PHYS_MASK = e AND VMM_PHYS_MASK" for e
    by (rule bit_word_eqI) (auto simp: bit_and_iff bit_cow_entry)
  then show "leaf_phys (cow_leaf l) v = leaf_phys l v"
    by (auto simp: cow_leaf_def user_leaf_def leaf_phys_def)
  have f: "cow_entry e AND NOT VMM_PHYS_MASK = shared_flags (e AND NOT VMM_PHYS_MASK)" for e
    by (rule bit_word_eqI) (auto simp: shared_flags_def bit_simps bit_cow_entry)
  show "leaf_flags (cow_leaf l) = (if user_leaf l then shared_flags (leaf_flags l) else leaf_flags l)"
    by (auto simp: cow_leaf_def user_leaf_def leaf_flags_def f)
qed

lemma kernel_part_pos: "kernel_part v \<longleftrightarrow> \<not> pos_ok (pml4_idx v, pdpt_idx v, pd_idx v, pt_idx v)"
  by (auto simp: kernel_part_def shared_path_def)

lemma clone_leaves:
  assumes st: "clone_state s1 src D {x. pos_ok x} s'" and sl: "same_leaves src (vm_mem s) (vm_mem s1)"
    and L: "\<And>a b c d. path_ok [a, b, c] \<Longrightarrow> d < 512 \<Longrightarrow> leaf (vm_mem s1) D a b c d =
      (if 256 \<le> a \<or> a = 0 \<and> b = 0 then leaf (vm_mem s) src a b c d else None)"
  shows "leaf_at (vm_mem s') src v = (if user_page src v s then cow_leaf (leaf_at (vm_mem s) src v) else leaf_at (vm_mem s) src v)"
    and "leaf_at (vm_mem s') D v = (if user_page src v s then cow_leaf (leaf_at (vm_mem s) src v)
      else if kernel_part v then leaf_at (vm_mem s) src v else None)"
proof -
  note K = clone_stateD [OF st] and U = user_pages_cong [OF sl]
  show "leaf_at (vm_mem s') src v = (if user_page src v s then cow_leaf (leaf_at (vm_mem s) src v) else leaf_at (vm_mem s) src v)"
  proof -
    have l1: "leaf_at (vm_mem s1) src v = leaf_at (vm_mem s) src v" by (rule same_leaves_at [OF sl])
    have "leaf_at (vm_mem s') src v = (if pos_ok (pml4_idx v, pdpt_idx v, pd_idx v, pt_idx v)
        then cow_leaf (leaf_at (vm_mem s) src v) else leaf_at (vm_mem s) src v)"
      using K(3) [of "pml4_idx v" "pdpt_idx v" "pd_idx v" "pt_idx v"] l1 by (simp add: leaf_at_def del: pos_ok.simps)
    then show ?thesis using cow_leaf_id by (auto simp: user_page_def user_pages_def leaf_at_def simp del: pos_ok.simps)
  qed
  show "leaf_at (vm_mem s') D v = (if user_page src v s then cow_leaf (leaf_at (vm_mem s) src v)
      else if kernel_part v then leaf_at (vm_mem s) src v else None)"
  proof -
    have l1: "leaf_at (vm_mem s1) src v = leaf_at (vm_mem s) src v" by (rule same_leaves_at [OF sl])
    have "leaf_at (vm_mem s') D v = (if user_page src v s then cow_leaf (leaf_at (vm_mem s) src v) else leaf_at (vm_mem s1) D v)"
      using K(4) [of "pml4_idx v" "pdpt_idx v" "pd_idx v" "pt_idx v"] l1
      unfolding U(1) by (auto simp: leaf_at_def user_page_def user_pages_def simp del: pos_ok.simps)
    moreover have "leaf_at (vm_mem s1) D v = (if kernel_part v then leaf_at (vm_mem s) src v else None)"
      using L [of "pml4_idx v" "pdpt_idx v" "pd_idx v" "pt_idx v"] by (simp add: leaf_at_def kernel_part_def)
    ultimately show ?thesis by simp
  qed
qed

lemma clone_result:
  assumes ok: "space_ok s src" and cur: "src = vmm_current_pml4 s" and pres: "pte_has (pte (vm_mem s) src 0) VMM_PRESENT"
    and cl: "clonable s src 2"
  shows "\<exists>dst s'. vmm_clone_user_address_space src s = Some (dst, s') \<and> dst \<noteq> 0 \<and>
    space_ok s' src \<and> space_ok s' dst \<and>
    (\<forall>v. vmm_get_physical src v s' = vmm_get_physical src v s \<and>
         vmm_get_flags src v s' = (if user_page src v s then shared_flags (vmm_get_flags src v s) else vmm_get_flags src v s) \<and>
         vmm_get_physical dst v s' = (if user_page src v s \<or> kernel_part v then vmm_get_physical src v s else PMM_ALLOC_FAILED) \<and>
         (user_page src v s \<longrightarrow> vmm_get_flags dst v s' = vmm_get_flags src v s')) \<and>
    (\<forall>a. a \<notin> avail_frames (vm_pmm s) \<longrightarrow> frame_refs (vm_pmm s') a =
       frame_refs (vm_pmm s) a + card {x \<in> user_pages (vm_mem s) src. leaf_frame (leafx (vm_mem s) src x) = a})"
proof -
  have two: "2 \<le> card (avail_frames (vm_pmm s))" using clonableD(1) [OF cl] by linarith
  have pr: "bit (pte (vm_mem s) src 0) 0" using pres by simp
  from create_ok [OF ok cur pr two] obtain D low s1 where
    cr: "vmm_create_address_space s = Some (D, s1)" and sh: "shares_kernel (vm_mem s) src (vm_mem s1) D low"
    and inv: "pmm_inv (vm_pmm s1)" and om: "old_mem_same s s1" and fr: "{D, low} \<subseteq> avail_frames (vm_pmm s)"
    and av: "avail_frames (vm_pmm s1) = avail_frames (vm_pmm s) - {D, low}"
    and rf: "frame_refs (vm_pmm s1) = (frame_refs (vm_pmm s))(D := 1, low := 1)" by (elim exE conjE) rule
  note C = clone_ready_created [OF ok sh inv om fr av rf cl]
  note U = user_pages_cong [OF C(2)]
  from clone_loop [OF C(1)] obtain s' where
    run: "for_while_ok [0..<256] (\<lambda>i s. let e = pte (vm_mem s) src (of_nat i) in
            if \<not> pte_has e VMM_PRESENT then Some (True, s) else clone_pdpt D i (e AND VMM_PHYS_MASK) s) s1 = Some (True, s')"
    and st: "clone_state s1 src D {x. pos_ok x} s'" by blast
  note K = clone_stateD [OF st]
  have tok: "tree_ok (vm_mem s) src" and toks: "tree_ok (vm_mem s') src" and tokd: "tree_ok (vm_mem s') D"
    and sp: "space_ok s' src" "space_ok s' D" using ok K(1) by (auto simp: clone_inv_def space_ok_def)
  have zs: "src \<noteq> 0" "D \<noteq> 0"
    using tree_okD(1) [OF tok, of "[]" src] sh by (auto simp: frame_addr_def walk.simps shares_kernel_def)
  have res: "vmm_clone_user_address_space src s = Some (D, s')"
    using cr zs run by (simp add: vmm_clone_user_address_space_def)
  note LV = clone_leaves [OF st C(2,4)]
  have us: "user_leaf (leaf_at (vm_mem s) src v)" if "user_page src v s" for v
    using that by (simp add: user_page_def user_pages_def leaf_at_def)
  note V = vmm_get_physical_leaf [OF tok] vmm_get_physical_leaf [OF toks] vmm_get_physical_leaf [OF tokd]
    vmm_get_flags_leaf [OF tok] vmm_get_flags_leaf [OF toks] vmm_get_flags_leaf [OF tokd]
  have "vmm_get_physical src v s' = vmm_get_physical src v s \<and>
         vmm_get_flags src v s' = (if user_page src v s then shared_flags (vmm_get_flags src v s) else vmm_get_flags src v s) \<and>
         vmm_get_physical D v s' = (if user_page src v s \<or> kernel_part v then vmm_get_physical src v s else PMM_ALLOC_FAILED) \<and>
         (user_page src v s \<longrightarrow> vmm_get_flags D v s' = vmm_get_flags src v s')" for v
    using us [of v] by (simp add: V LV cow_leaf_view leaf_phys_def [of None])
  moreover have "frame_refs (vm_pmm s') a =
       frame_refs (vm_pmm s) a + card {x \<in> user_pages (vm_mem s) src. leaf_frame (leafx (vm_mem s) src x) = a}"
    if "a \<notin> avail_frames (vm_pmm s)" for a
  proof -
    have a1: "a \<notin> avail_frames (vm_pmm s1)" "frame_refs (vm_pmm s1) a = frame_refs (vm_pmm s) a" using that av rf fr by auto
    have "{x \<in> {x. pos_ok x} \<inter> user_pages (vm_mem s1) src. leaf_frame (leafx (vm_mem s1) src x) = a} =
      {x \<in> user_pages (vm_mem s) src. leaf_frame (leafx (vm_mem s) src x) = a}"
      unfolding U(1) using U(2) by (auto simp: user_pages_def simp del: pos_ok.simps leafx.simps)
    then show ?thesis using K(7) [OF a1(1)] a1(2) by simp
  qed
  ultimately show ?thesis using res zs sp by blast
qed

text \<open>C1: a clone of the current address space succeeds when there are frames for its tables, and
  every page of a user is then shared: both spaces translate it to the same frame, read-only and
  marked copy-on-write if it was writable. The clone has the kernel's part and nothing else, no other
  address of the source changes, and each frame has gained one reference per page on it.\<close>

theorem vmm_clone_user_address_space_correct:
  assumes ok: "space_ok s src" and cur: "src = vmm_current_pml4 s" and pres: "pte_has (pte (vm_mem s) src 0) VMM_PRESENT"
    and cl: "clonable s src 2"
  shows "\<exists>dst s'. vmm_clone_user_address_space src s = Some (dst, s') \<and> dst \<noteq> 0 \<and>
    space_ok s' src \<and> space_ok s' dst \<and>
    (\<forall>v. vmm_get_physical src v s' = vmm_get_physical src v s \<and>
         vmm_get_flags src v s' = (if user_page src v s then shared_flags (vmm_get_flags src v s) else vmm_get_flags src v s) \<and>
         vmm_get_physical dst v s' = (if user_page src v s \<or> kernel_part v then vmm_get_physical src v s else PMM_ALLOC_FAILED) \<and>
         (user_page src v s \<longrightarrow> vmm_get_flags dst v s' = vmm_get_flags src v s')) \<and>
    (\<forall>a. a \<notin> avail_frames (vm_pmm s) \<longrightarrow> frame_refs (vm_pmm s') a =
       frame_refs (vm_pmm s) a + card {x \<in> user_pages (vm_mem s) src. leaf_frame (leafx (vm_mem s) src x) = a})"
  using assms by (rule clone_result)

text \<open>A space with one writable page of a user.\<close>

definition clone_sample :: vmm_state where
  "clone_sample = (let (f, s) = vmm_alloc_frame vm_sample in snd (vmm_map_page 0x1000 0x40000000 f (VMM_USER OR VMM_WRITE) s))"

lemma clone_sample_page:
  obtains f where "space_ok clone_sample 0x1000" "vmm_current_pml4 clone_sample = 0x1000" "frame_addr f" "f < 2 ^ 52"
    "\<forall>a b c d. path_ok [a, b, c] \<and> d < 512 \<longrightarrow> leaf (vm_mem clone_sample) 0x1000 a b c d =
       (if (a, b, c, d) = (0, 1, 0, 0) then Some (False, map_entry f (VMM_USER OR VMM_WRITE)) else None)"
    "3000 \<le> card (avail_frames (vm_pmm clone_sample))" "frame_refs (vm_pmm clone_sample) f = 1"
proof -
  obtain f s1 where A0: "vmm_alloc_frame vm_sample = (f, s1)" by fastforce
  have nf: "f \<noteq> PMM_ALLOC_FAILED" using vmm_alloc_frame_failed(2) [OF vm_sample_pmm(1)] A0 vm_sample_pmm(4) by fastforce
  note A = vmm_alloc_frame_ok [OF vm_sample_pmm(1) A0 nf] and Af = vmm_alloc_frame_fields [OF A0]
  have ff: "frame_addr f" "f < 2 ^ 52" using avail_frame_addr [OF vm_sample_pmm(1) A(1) vm_sample_pmm(2)] by auto
  have ok1: "space_ok s1 0x1000" using vm_sample_ok A Af by (auto simp: space_ok_def)
  obtain r s2 where run: "vmm_map_page 0x1000 0x40000000 f (VMM_USER OR VMM_WRITE) s1 = (r, s2)" by fastforce
  have s2: "clone_sample = s2" using A0 run by (simp add: clone_sample_def)
  note R = vmm_map_page_spec [OF ok1 run, unfolded vmm_map_result_def]
  have g: "vm_grows 0x1000 [pml4_idx 0x40000000, pdpt_idx 0x40000000, pd_idx 0x40000000] s1 s2" using R by blast
  have c1: "3999 \<le> card (avail_frames (vm_pmm s1))" using A(1,4) vm_sample_pmm(4) by simp
  have "leaf_at (vm_mem s1) 0x1000 0x40000000 = None" using Af vm_sample_leaf by simp
  then have "r = 0" using R c1 by (auto split: if_splits)
  then have m: "maps_page 0x1000 0x40000000 f (VMM_USER OR VMM_WRITE) s1 s2" using R by auto
  have i: "pml4_idx 0x40000000 = 0" "pdpt_idx 0x40000000 = 1" "pd_idx 0x40000000 = 0" "pt_idx 0x40000000 = 0"
    by (simp_all add: pml4_idx_def pdpt_idx_def pd_idx_def pt_idx_def)
  have n: "leaf (vm_mem s1) 0x1000 a b c d = None" for a b c d
    using Af by (simp add: leaf_def vm_sample_def pte_def walk.simps)
  have "f \<notin> avail_frames (vm_pmm s1)" using A(4) by simp
  then have "frame_refs (vm_pmm s2) f = 1" using g A(5) by (simp add: vm_grows_def)
  moreover have "3000 \<le> card (avail_frames (vm_pmm s2))" using R c1 by (auto split: if_splits)
  moreover have "vmm_current_pml4 s2 = 0x1000" using g Af by (simp add: vm_grows_def vmm_current_pml4_def vm_sample_def)
  ultimately show thesis using that [of f] ff vm_growsD(1) [OF g] m unfolding s2 maps_page_def i n by blast
qed

lemma frame_refs_max: "frame_refs p a \<le> 0xFFFF"
  using unsigned_less [of "pmm_refcount p (a div PMM_FRAME_SIZE)", where 'a = nat] by (simp add: frame_refs_def Let_def)

lemma clone_sample_ok:
  "space_ok clone_sample 0x1000" "vmm_current_pml4 clone_sample = 0x1000" "pte_has (pte (vm_mem clone_sample) 0x1000 0) VMM_PRESENT"
  "clonable clone_sample 0x1000 2" "user_page 0x1000 0x40000000 clone_sample"
  "pte_has (vmm_get_flags 0x1000 0x40000000 clone_sample) VMM_WRITE"
proof -
  obtain f where f: "space_ok clone_sample 0x1000" "vmm_current_pml4 clone_sample = 0x1000" "frame_addr f" "f < 2 ^ 52"
    and L: "\<forall>a b c d. path_ok [a, b, c] \<and> d < 512 \<longrightarrow> leaf (vm_mem clone_sample) 0x1000 a b c d =
       (if (a, b, c, d) = (0, 1, 0, 0) then Some (False, map_entry f (VMM_USER OR VMM_WRITE)) else None)"
    and c: "3000 \<le> card (avail_frames (vm_pmm clone_sample))" and r: "frame_refs (vm_pmm clone_sample) f = 1"
    by (rule clone_sample_page)
  show "space_ok clone_sample 0x1000" "vmm_current_pml4 clone_sample = 0x1000" by (rule f)+
  let ?e = "map_entry f (VMM_USER OR VMM_WRITE)"
  have P: "path_ok [0, 1, 0]" by (simp add: path_ok_def)
  have lf: "leaf (vm_mem clone_sample) 0x1000 0 1 0 0 = Some (False, ?e)" using L P by simp
  then show "pte_has (pte (vm_mem clone_sample) 0x1000 0) VMM_PRESENT"
    by (auto simp: leaf_def walk.simps link_def split: option.splits if_splits Option.bind_splits)
  have bits: "bit ?e 2" "bit ?e 1" by (simp_all add: map_entry_def bit_simps)
  have fm: "?e AND VMM_PHYS_MASK = f" using map_entry_parts(1) frame_masked [OF f(3,4)] by simp
  have U: "user_pages (vm_mem clone_sample) 0x1000 = {(0, 1, 0, 0)}"
  proof (rule set_eqI)
    fix x :: pos
    obtain a b c d where x: "x = (a, b, c, d)" by (cases x)
    show "x \<in> user_pages (vm_mem clone_sample) 0x1000 \<longleftrightarrow> x \<in> {(0, 1, 0, 0)}"
      using L [rule_format, of a b c d] P bits lf by (auto simp: x user_pages_def user_leaf_def shared_path_def split: if_splits)
  qed
  have fx: "leaf_frame (leafx (vm_mem clone_sample) 0x1000 (0, 1, 0, 0)) = f" using lf fm by (simp add: leaf_frame_def)
  have "frame_refs (vm_pmm clone_sample) a + card {x \<in> {(0, 1, 0, 0)}. leaf_frame (leafx (vm_mem clone_sample) 0x1000 x) = a} \<le> 0xFFFF" for a
  proof (cases "a = f")
    case True
    have "card {x \<in> {(0, 1, 0, 0)}. leaf_frame (leafx (vm_mem clone_sample) 0x1000 x) = a} \<le> card {(0, 1, 0, 0) :: pos}"
      by (rule card_mono) auto
    then show ?thesis using True r by simp
  next
    case False
    then have "{x \<in> {(0, 1, 0, 0)}. leaf_frame (leafx (vm_mem clone_sample) 0x1000 x) = a} = {}" using fx by auto
    then show ?thesis using frame_refs_max by (metis add.right_neutral card.empty)
  qed
  moreover have "\<not> bit e 2" if "pos_ok x \<and> leafx (vm_mem clone_sample) 0x1000 x = Some (True, e)" for x e
  proof -
    obtain a b c d where "x = (a, b, c, d)" by (cases x)
    then show ?thesis using that L [rule_format, of a b c d] by (auto split: if_splits)
  qed
  ultimately show "clonable clone_sample 0x1000 2" using c fx r unfolding clonable_def U by simp
  have i: "pml4_idx 0x40000000 = 0" "pdpt_idx 0x40000000 = 1" "pd_idx 0x40000000 = 0" "pt_idx 0x40000000 = 0"
    by (simp_all add: pml4_idx_def pdpt_idx_def pd_idx_def pt_idx_def)
  then show "user_page 0x1000 0x40000000 clone_sample" by (simp add: user_page_def U)
  have tok: "tree_ok (vm_mem clone_sample) 0x1000" using f(1) by (simp add: space_ok_def)
  show "pte_has (vmm_get_flags 0x1000 0x40000000 clone_sample) VMM_WRITE"
    unfolding vmm_get_flags_leaf [OF tok] leaf_at_def i lf using bits by (simp add: leaf_flags_def bit_simps)
qed

theorem vmm_clone_user_address_space_correct_witness:
  "\<exists>dst s'. vmm_clone_user_address_space 0x1000 clone_sample = Some (dst, s') \<and>
     vmm_get_physical dst 0x40000000 s' = vmm_get_physical 0x1000 0x40000000 clone_sample \<and>
     pte_has (vmm_get_flags dst 0x40000000 s') VMM_COW \<and> \<not> pte_has (vmm_get_flags 0x1000 0x40000000 s') VMM_WRITE"
proof -
  have "pte_has (shared_flags e) VMM_COW \<and> \<not> pte_has (shared_flags e) VMM_WRITE" if "pte_has e VMM_WRITE" for e
    using that by (simp add: shared_flags_def bit_simps)
  then show ?thesis
    using vmm_clone_user_address_space_correct [OF clone_sample_ok(1) clone_sample_ok(2) [symmetric] clone_sample_ok(3,4)] clone_sample_ok(5,6)
    by fastforce
qed

end
