(* ===== verification/Elf.thy ===== *)
theory Elf
  imports Clone
begin

text \<open>
  The loader for ELF64 executables, kernel/proc/elf.c. The image is a function from offsets to bytes
  with a size; the headers are read at their offsets. A page of a segment gets a frame of its own, which
  is mapped into the address space given as \<open>pml4\<close>. The lemmas show that reads stay inside the image,
  what one page of a segment becomes (\<open>page_loaded\<close>), and that the loader returns.
\<close>

section \<open>The file format\<close>

type_synonym image = "u64 \<Rightarrow> u8"

definition EHDR_SIZE :: u64 where "EHDR_SIZE = 64"
definition PHDR_SIZE :: u64 where "PHDR_SIZE = 56"

record elf64_ehdr =
  e_ident :: "u8 list"
  e_type :: u16
  e_machine :: u16
  e_version :: u32
  e_entry :: u64
  e_phoff :: u64
  e_shoff :: u64
  e_flags :: u32
  e_ehsize :: u16
  e_phentsize :: u16
  e_phnum :: u16
  e_shentsize :: u16
  e_shnum :: u16
  e_shstrndx :: u16

record elf64_phdr =
  p_type :: u32
  p_flags :: u32
  p_offset :: u64
  p_vaddr :: u64
  p_paddr :: u64
  p_filesz :: u64
  p_memsz :: u64
  p_align :: u64

definition elf_ehdr :: "image \<Rightarrow> elf64_ehdr" where
  "elf_ehdr file = \<lparr>e_ident = map (\<lambda>i. file (of_nat i)) [0..<16], e_type = read_u16 file 16, e_machine = read_u16 file 18, e_version = read_u32 file 20,
     e_entry = read_u64 file 24, e_phoff = read_u64 file 32, e_shoff = read_u64 file 40, e_flags = read_u32 file 48, e_ehsize = read_u16 file 52,
     e_phentsize = read_u16 file 54, e_phnum = read_u16 file 56, e_shentsize = read_u16 file 58,
     e_shnum = read_u16 file 60, e_shstrndx = read_u16 file 62\<rparr>"

definition elf_phdr :: "image \<Rightarrow> u64 \<Rightarrow> elf64_phdr" where
  "elf_phdr file a = \<lparr>p_type = read_u32 file a, p_flags = read_u32 file (a + 4), p_offset = read_u64 file (a + 8),
     p_vaddr = read_u64 file (a + 16), p_paddr = read_u64 file (a + 24), p_filesz = read_u64 file (a + 32), p_memsz = read_u64 file (a + 40),
     p_align = read_u64 file (a + 48)\<rparr>"

definition PT_LOAD :: u32 where "PT_LOAD = 1"
definition PF_X :: u32 where "PF_X = 1"
definition PF_W :: u32 where "PF_W = 2"

section \<open>Loading\<close>

definition range_ok :: "u64 \<Rightarrow> u64 \<Rightarrow> u64 \<Rightarrow> bool" where
  "range_ok start sz limit \<longleftrightarrow> sz \<le> limit \<and> start \<le> limit - sz"

text \<open>memcpy of \<open>n\<close> bytes of the file to physical memory.\<close>

definition copy_in :: "u64 \<Rightarrow> image \<Rightarrow> u64 \<Rightarrow> u64 \<Rightarrow> vmm_state \<Rightarrow> vmm_state" where
  "copy_in dst file off n s = s\<lparr>vm_mem := (\<lambda>a. if a - dst < n then file (off + (a - dst)) else vm_mem s a)\<rparr>"

definition segment_flags :: "elf64_phdr \<Rightarrow> u64" where
  "segment_flags ph =
     (let flags = VMM_USER;
          flags = (if p_flags ph AND PF_W \<noteq> 0 then flags OR VMM_WRITE else flags)
      in if p_flags ph AND PF_X = 0 then flags OR VMM_NX else flags)"

definition map_segment_page :: "u64 \<Rightarrow> u64 \<Rightarrow> image \<Rightarrow> u64 \<Rightarrow> elf64_phdr \<Rightarrow> vmm_state \<Rightarrow> (int \<times> vmm_state) option" where
  "map_segment_page pml4 virt file file_size ph s =
     (let (phys, s) = vmm_alloc_frame s in
      if phys = PMM_ALLOC_FAILED then Some (-1, s)
      else do {
        let s = zero_page phys s;
        let page_start = ALIGN_DOWN virt PAGE_SIZE;
        let page_end = page_start + PAGE_SIZE;
        let seg_file_start = p_vaddr ph;
        let seg_file_end = p_vaddr ph + p_filesz ph;
        let copy_start = (if page_start > seg_file_start then page_start else seg_file_start);
        let copy_end = (if page_end < seg_file_end then page_end else seg_file_end);
        let file_off = p_offset ph + (copy_start - p_vaddr ph);
        if copy_start < copy_end \<and> \<not> range_ok file_off (copy_end - copy_start) file_size then do {
          s \<leftarrow> vmm_free_frame phys s;
          Some (-1, s)
        }
        else do {
          let s = (if copy_start < copy_end
                   then copy_in (phys + (copy_start - page_start)) file file_off (copy_end - copy_start) s else s);
          let (r, s) = vmm_map_page pml4 page_start phys (segment_flags ph) s;
          if r \<noteq> 0 then do {
            s \<leftarrow> vmm_free_frame phys s;
            Some (-1, s)
          }
          else Some (0, s)
        }
      })"

text \<open>The loop over the pages of a segment; it stops at the first failure.\<close>

partial_function (option) map_pages :: "u64 \<Rightarrow> u64 \<Rightarrow> u64 \<Rightarrow> image \<Rightarrow> u64 \<Rightarrow> elf64_phdr \<Rightarrow> vmm_state \<Rightarrow> (int \<times> vmm_state) option" where
  "map_pages pml4 page last_page file file_size ph s =
     (if page < last_page then do {
        (r, s) \<leftarrow> map_segment_page pml4 page file file_size ph s;
        if r \<noteq> 0 then Some (-1, s) else map_pages pml4 (page + PAGE_SIZE) last_page file file_size ph s
      }
      else Some (0, s))"

text \<open>The checks of a loadable segment.\<close>

definition segment_ok :: "elf64_phdr \<Rightarrow> u64 \<Rightarrow> bool" where
  "segment_ok ph image_size \<longleftrightarrow>
     \<not> (p_memsz ph < p_filesz ph \<or> p_memsz ph = 0) \<and>
     range_ok (p_offset ph) (p_filesz ph) image_size \<and>
     range_ok (p_vaddr ph) (p_memsz ph) USER_SPACE_TOP \<and>
     \<not> (p_align ph \<noteq> 0 \<and> p_align ph \<noteq> PAGE_SIZE)"

text \<open>The loop over the program headers at \<open>is\<close>: the highest address, whether a segment was loaded, the state.\<close>

fun load_segments :: "u64 \<Rightarrow> image \<Rightarrow> u64 \<Rightarrow> u64 \<Rightarrow> nat list \<Rightarrow> u64 \<Rightarrow> bool \<Rightarrow> vmm_state \<Rightarrow> ((u64 \<times> bool) option \<times> vmm_state) option" where
  "load_segments pml4 file image_size phoff [] highest saw_load s = Some (Some (highest, saw_load), s)"
| "load_segments pml4 file image_size phoff (i # is) highest saw_load s =
     (let ph = elf_phdr file (phoff + of_nat i * PHDR_SIZE) in
      if p_type ph \<noteq> PT_LOAD then load_segments pml4 file image_size phoff is highest saw_load s
      else if \<not> segment_ok ph image_size then Some (None, s)
      else do {
        (r, s) \<leftarrow> map_pages pml4 (ALIGN_DOWN (p_vaddr ph) PAGE_SIZE) (ALIGN_UP (p_vaddr ph + p_memsz ph) PAGE_SIZE)
                    file image_size ph s;
        if r \<noteq> 0 then Some (None, s)
        else load_segments pml4 file image_size phoff is
               (if p_vaddr ph + p_memsz ph > highest then p_vaddr ph + p_memsz ph else highest) True s
      })"

text \<open>The checks of the file header.\<close>

definition header_ok :: "image \<Rightarrow> u64 \<Rightarrow> bool" where
  "header_ok file image_size \<longleftrightarrow>
     (let eh = elf_ehdr file in
      e_ident eh ! 0 = 0x7F \<and> e_ident eh ! 1 = of_char (CHR ''E'') \<and>
      e_ident eh ! 2 = of_char (CHR ''L'') \<and> e_ident eh ! 3 = of_char (CHR ''F'') \<and>
      e_ident eh ! 4 = 2 \<and> e_ident eh ! 5 = 1 \<and>
      e_type eh = 2 \<and> e_machine eh = 62 \<and> e_version eh = 1 \<and>
      e_ehsize eh = ucast EHDR_SIZE \<and> e_phentsize eh = ucast PHDR_SIZE \<and> e_phnum eh \<noteq> 0 \<and> e_phnum eh \<le> 32 \<and>
      range_ok (e_phoff eh) (ucast (e_phnum eh) * ucast (e_phentsize eh)) image_size \<and>
      e_entry eh \<noteq> 0 \<and> e_entry eh < USER_SPACE_TOP)"

record elf_user_image =
  entry :: u64
  brk_base :: u64

text \<open>The pointers to the image and to the result are not null in any call; only \<open>pml4\<close> can be 0.
  The result is the loaded image, or \<open>None\<close> where the code returns -1.\<close>

definition elf_load_user_image :: "u64 \<Rightarrow> image \<Rightarrow> u64 \<Rightarrow> vmm_state \<Rightarrow> (elf_user_image option \<times> vmm_state) option" where
  "elf_load_user_image pml4 file image_size s =
     (if pml4 = 0 \<or> image_size < EHDR_SIZE \<or> \<not> header_ok file image_size then Some (None, s)
      else do {
        let eh = elf_ehdr file;
        (r, s) \<leftarrow> load_segments pml4 file image_size (e_phoff eh) [0..<unat (e_phnum eh)] 0 False s;
        case r of
          None \<Rightarrow> Some (None, s)
        | Some (highest, saw_load) \<Rightarrow>
            if \<not> saw_load then Some (None, s)
            else Some (Some \<lparr>entry = e_entry eh, brk_base = ALIGN_UP highest PAGE_SIZE\<rparr>, s)
      })"

section \<open>The loader stays inside the image\<close>

definition same_image :: "u64 \<Rightarrow> image \<Rightarrow> image \<Rightarrow> bool" where
  "same_image n file file' \<longleftrightarrow> (\<forall>a < n. file a = file' a)"

lemma same_read:
  assumes "same_image n file file'" and "unat a + k \<le> unat n"
  shows "k = 2 \<Longrightarrow> read_u16 file a = read_u16 file' a" "k = 4 \<Longrightarrow> read_u32 file a = read_u32 file' a"
    "k = 8 \<Longrightarrow> read_u64 file a = read_u64 file' a"
proof -
  have b: "file (a + of_nat j) = file' (a + of_nat j)" if "j < k" for j
  proof -
    have "unat a + j < 2 ^ 64" using that assms(2) unsigned_less [of n, where 'a = nat] by simp
    then have "unat (a + of_nat j) = unat a + j" by (simp add: unat_word_ariths unat_of_nat)
    then show ?thesis using that assms by (auto simp: same_image_def word_less_nat_alt)
  qed
  show "k = 2 \<Longrightarrow> read_u16 file a = read_u16 file' a" using b [of 0] b [of 1] by (simp add: read_u16_def)
  show "k = 4 \<Longrightarrow> read_u32 file a = read_u32 file' a"
    using b [of 0] b [of 1] b [of 2] b [of 3] by (simp add: read_u32_def read_u16_def add.assoc)
  show "k = 8 \<Longrightarrow> read_u64 file a = read_u64 file' a"
    using b by (intro read_u64_cong) auto
qed

lemma same_ehdr:
  assumes "same_image n file file'" "EHDR_SIZE \<le> n"
  shows "elf_ehdr file = elf_ehdr file'"
proof -
  have "file (of_nat i) = file' (of_nat i)" if "i < 16" for i
    using assms that by (auto simp: same_image_def EHDR_SIZE_def word_less_nat_alt word_le_nat_alt unat_of_nat)
  then show ?thesis
    using assms(2) by (simp add: elf_ehdr_def EHDR_SIZE_def word_le_nat_alt same_read [OF assms(1), where k = 2]
        same_read [OF assms(1), where k = 4] same_read [OF assms(1), where k = 8])
qed

lemma same_phdr:
  assumes same: "same_image n file file'" and a: "unat a + 56 \<le> unat n"
  shows "elf_phdr file a = elf_phdr file' a"
proof -
  have u: "unat (a + of_nat j) = unat a + j" if "j \<le> 56" for j
    using that a unsigned_less [of n, where 'a = nat] by (simp add: unat_word_ariths unat_of_nat)
  have r: "read_u32 file (a + of_nat j) = read_u32 file' (a + of_nat j)" if "j \<le> 52" for j
    using that u a by (intro same_read [OF same, where k = 4]) auto
  have q: "read_u64 file (a + of_nat j) = read_u64 file' (a + of_nat j)" if "j \<le> 48" for j
    using that u a by (intro same_read [OF same, where k = 8]) auto
  show ?thesis
    using r [of 0] r [of 4] q [of 8] q [of 16] q [of 24] q [of 32] q [of 40] q [of 48] by (simp add: elf_phdr_def)
qed

lemma same_copy_in:
  assumes same: "same_image n file file'" and r: "range_ok off k n"
  shows "copy_in dst file off k s = copy_in dst file' off k s"
proof -
  have "file (off + d) = file' (off + d)" if "d < k" for d
  proof -
    have "k \<le> n" "off \<le> n - k" using r by (auto simp: range_ok_def)
    then have "unat off + unat k \<le> unat n" using unat_sub [of k n] by (simp add: word_le_nat_alt)
    moreover have "unat d < unat k" using that by (simp add: word_less_nat_alt)
    ultimately have "unat (off + d) = unat off + unat d" "unat off + unat d < unat n"
      using unsigned_less [of n, where 'a = nat] by (simp_all add: unat_word_ariths)
    then show ?thesis using same by (simp add: same_image_def word_less_nat_alt)
  qed
  then show ?thesis by (auto simp: copy_in_def fun_eq_iff)
qed

lemma same_map_segment_page:
  assumes "same_image n file file'"
  shows "map_segment_page pml4 virt file n ph s = map_segment_page pml4 virt file' n ph s"
  by (simp add: map_segment_page_def Let_def same_copy_in [OF assms] cong: if_cong split: prod.split)

lemma same_map_pages_le:
  assumes same: "same_image n file file'"
  shows "map_pages pml4 page last_page file n ph s = Some y \<Longrightarrow> map_pages pml4 page last_page file' n ph s = Some y"
proof -
  assume "map_pages pml4 page last_page file n ph s = Some y"
  then have "file = file \<and> n = n \<longrightarrow> map_pages pml4 page last_page file' n ph s = Some y"
  proof (rule map_pages.raw_induct [where P = "\<lambda>pml4 page last_page f k ph s y.
      f = file \<and> k = n \<longrightarrow> map_pages pml4 page last_page file' n ph s = Some y", rotated])
    fix mp pml4 page last_page f k ph s and y :: "int \<times> vmm_state"
    assume IH: "\<And>pml4 page last_page f k ph s y. mp pml4 page last_page f k ph s = Some y \<Longrightarrow>
        f = file \<and> k = n \<longrightarrow> map_pages pml4 page last_page file' n ph s = Some y"
      and run: "(if page < last_page then do {
          (r, s) \<leftarrow> map_segment_page pml4 page f k ph s;
          if r \<noteq> 0 then Some (-1, s) else mp pml4 (page + PAGE_SIZE) last_page f k ph s
        } else Some (0, s)) = Some y"
    show "f = file \<and> k = n \<longrightarrow> map_pages pml4 page last_page file' n ph s = Some y"
    proof
      assume f: "f = file \<and> k = n"
      show "map_pages pml4 page last_page file' n ph s = Some y"
        using run f same_map_segment_page [OF same]
        by (subst map_pages.simps) (auto intro: IH [rule_format] split: if_splits Option.bind_splits)
    qed
  qed
  then show ?thesis by simp
qed

lemma same_image_sym: "same_image n file file' \<Longrightarrow> same_image n file' file"
  by (simp add: same_image_def)

lemma same_map_pages:
  assumes same: "same_image n file file'"
  shows "map_pages pml4 page last_page file n ph s = map_pages pml4 page last_page file' n ph s"
  using same_map_pages_le [OF same] same_map_pages_le [OF same_image_sym [OF same]]
  by (metis not_None_eq)

lemma same_load_segments:
  assumes same: "same_image n file file'" and inside: "\<forall>i \<in> set idx. unat (phoff + of_nat i * PHDR_SIZE) + 56 \<le> unat n"
  shows "load_segments pml4 file n phoff idx highest saw s = load_segments pml4 file' n phoff idx highest saw s"
  using inside
proof (induction idx arbitrary: highest saw s)
  case (Cons i idx)
  then show ?case
    by (simp add: Let_def same_phdr [OF same] same_map_pages [OF same] cong: if_cong split: prod.splits)
qed simp

section \<open>The bytes of a page\<close>

lemma in_interval:
  fixes a cs ce :: u64
  assumes "cs < ce"
  shows "a - cs < ce - cs \<longleftrightarrow> cs \<le> a \<and> a < ce"
proof (cases "cs \<le> a")
  case True
  then show ?thesis using assms unat_sub [of cs a] unat_sub [of cs ce] by (auto simp: word_less_nat_alt word_le_nat_alt)
next
  case False
  have "unat ce < 2 ^ 64" using unsigned_less [of ce, where 'a = nat] by simp
  then show ?thesis using False assms unat_sub_if' [of a cs] unat_sub [of cs ce]
    by (auto simp: word_less_nat_alt word_le_nat_alt)
qed

text \<open>The byte of a segment at address \<open>a\<close>: from the file, or zero behind the part the file has.\<close>

definition seg_byte :: "elf64_phdr \<Rightarrow> image \<Rightarrow> u64 \<Rightarrow> u8" where
  "seg_byte ph file a = (if p_vaddr ph \<le> a \<and> a < p_vaddr ph + p_filesz ph then file (p_offset ph + (a - p_vaddr ph)) else 0)"

definition segment_fill :: "u64 \<Rightarrow> u64 \<Rightarrow> image \<Rightarrow> elf64_phdr \<Rightarrow> vmm_state \<Rightarrow> vmm_state" where
  "segment_fill phys ps file ph s =
     (let cs = (if ps > p_vaddr ph then ps else p_vaddr ph);
          ce = (if ps + PAGE_SIZE < p_vaddr ph + p_filesz ph then ps + PAGE_SIZE else p_vaddr ph + p_filesz ph);
          s = zero_page phys s
      in if cs < ce then copy_in (phys + (cs - ps)) file (p_offset ph + (cs - p_vaddr ph)) (ce - cs) s else s)"

lemma segment_fill_fields [simp]:
  "vm_pmm (segment_fill f ps file ph s) = vm_pmm s" "vm_cr3 (segment_fill f ps file ph s) = vm_cr3 s"
  by (simp_all add: segment_fill_def copy_in_def Let_def)

lemma segment_fill_bytes:
  assumes ps: "unat ps + 4096 < 2 ^ 64" and f: "frame_addr f"
  shows "k < 4096 \<Longrightarrow> vm_mem (segment_fill f ps file ph s) (f + of_nat k) = seg_byte ph file (ps + of_nat k)"
    "b \<notin> block f 4096 \<Longrightarrow> vm_mem (segment_fill f ps file ph s) b = vm_mem s b"
proof -
  define cs where "cs = (if ps > p_vaddr ph then ps else p_vaddr ph)"
  define ce where "ce = (if ps + PAGE_SIZE < p_vaddr ph + p_filesz ph then ps + PAGE_SIZE else p_vaddr ph + p_filesz ph)"
  have fill: "segment_fill f ps file ph s = (if cs < ce then copy_in (f + (cs - ps)) file (p_offset ph + (cs - p_vaddr ph)) (ce - cs) (zero_page f s)
      else zero_page f s)" by (simp add: segment_fill_def cs_def ce_def Let_def)
  have pe: "unat (ps + PAGE_SIZE) = unat ps + 4096" using ps by (simp add: unat_word_ariths PAGE_SIZE_def)
  have cs: "ps \<le> cs" by (auto simp: cs_def)
  have range: "ps \<le> a \<and> a < ps + PAGE_SIZE \<Longrightarrow> cs \<le> a \<and> a < ce \<longleftrightarrow> p_vaddr ph \<le> a \<and> a < p_vaddr ph + p_filesz ph" for a
    unfolding cs_def ce_def by (auto simp: not_less)
  have z: "vm_mem (zero_page f s) b = (if b \<in> block f 4096 then 0 else vm_mem s b)" for b
    by (simp add: memset_page)
  show "vm_mem (segment_fill f ps file ph s) (f + of_nat k) = seg_byte ph file (ps + of_nat k)" if k: "k < 4096"
  proof -
    let ?a = "ps + of_nat k"
    have ua: "unat ?a = unat ps + k" using ps k by (simp add: unat_word_ariths unat_of_nat)
    then have a: "ps \<le> ?a \<and> ?a < ps + PAGE_SIZE" using pe k by (simp add: word_le_nat_alt word_less_nat_alt)
    have zb: "vm_mem (zero_page f s) (f + of_nat k) = 0" using z k by (auto simp: block_def)
    show ?thesis
    proof (cases "cs < ce")
      case True
      have d: "f + of_nat k - (f + (cs - ps)) = ?a - cs" by simp
      have o: "p_offset ph + (cs - p_vaddr ph) + (?a - cs) = p_offset ph + (?a - p_vaddr ph)" by simp
      have "vm_mem (segment_fill f ps file ph s) (f + of_nat k) =
        (if f + of_nat k - (f + (cs - ps)) < ce - cs then file (p_offset ph + (cs - p_vaddr ph) + (f + of_nat k - (f + (cs - ps))))
         else vm_mem (zero_page f s) (f + of_nat k))" using True by (simp add: fill copy_in_def)
      then show ?thesis unfolding d o zb in_interval [OF True] range [OF a] seg_byte_def .
    next
      case False
      then have "\<not> (cs \<le> ?a \<and> ?a < ce)" by auto
      then show ?thesis using False fill zb range [OF a] by (auto simp: seg_byte_def)
    qed
  qed
  show "vm_mem (segment_fill f ps file ph s) b = vm_mem s b" if b: "b \<notin> block f 4096"
  proof (cases "cs < ce")
    case True
    have "\<not> b - (f + (cs - ps)) < ce - cs"
    proof
      assume a: "b - (f + (cs - ps)) < ce - cs"
      define d where "d = b - (f + (cs - ps))"
      have "ce \<le> ps + PAGE_SIZE" by (auto simp: ce_def not_less)
      then have "unat d + unat (cs - ps) < 4096"
        using a cs True pe unat_sub [of cs ce] unat_sub [OF cs] unfolding d_def [symmetric] by (auto simp: word_less_nat_alt word_le_nat_alt)
      moreover have "b = f + of_nat (unat d + unat (cs - ps))" by (simp add: d_def)
      ultimately show False using b unfolding block_def by blast
    qed
    then show ?thesis using True fill z b by (simp add: copy_in_def)
  next
    case False
    then show ?thesis using fill z b by simp
  qed
qed

section \<open>A page of a segment\<close>

lemma fresh_frame_space:
  assumes ok: "space_ok s root" and al: "vmm_alloc_frame s = (f, s1)" "f \<noteq> PMM_ALLOC_FAILED"
    and s2: "vm_pmm s2 = vm_pmm s1" "\<And>b. b \<notin> block f 4096 \<Longrightarrow> vm_mem s2 b = vm_mem s b"
  shows "space_ok s2 root" "same_leaves root (vm_mem s) (vm_mem s2)" "f \<notin> tables (vm_mem s2) root"
    "f \<notin> avail_frames (vm_pmm s2)" "frame_refs (vm_pmm s2) f = 1" "frame_addr f" "f < 2 ^ 52" "f \<in> avail_frames (vm_pmm s)"
    "path_ok q \<Longrightarrow> walk (vm_mem s2) root q = walk (vm_mem s) root q" "avail_frames (vm_pmm s2) = avail_frames (vm_pmm s) - {f}"
proof -
  let ?m = "vm_mem s"
  have tok: "tree_ok ?m root" and pinv: "pmm_inv (vm_pmm s)" and nz: "0 \<notin> avail_frames (vm_pmm s)"
    and dis: "tables ?m root \<inter> avail_frames (vm_pmm s) = {}" using ok by (auto simp: space_ok_def)
  note A = vmm_alloc_frame_ok [OF pinv al]
  show ff: "frame_addr f" "f < 2 ^ 52" using avail_frame_addr [OF pinv A(1) nz] by auto
  show "f \<in> avail_frames (vm_pmm s)" by (rule A(1))
  have nf: "f \<notin> tables ?m root" using dis A(1) by auto
  have "\<forall>t \<in> tables ?m root. \<forall>b \<in> block t 4096. vm_mem s2 b = ?m b"
  proof (intro ballI)
    fix t b assume t: "t \<in> tables ?m root" "b \<in> block t 4096"
    then have "frame_addr t" "t \<noteq> f" using tok nf by (auto simp: tree_ok_def)
    then have "b \<notin> block f 4096" using frames_disjoint [OF _ ff(1), of t] t(2) by auto
    then show "vm_mem s2 b = ?m b" by (rule s2(2))
  qed
  note tr = tree_ok_same_tables [OF tok this]
  show "space_ok s2 root" using tr A dis nz s2(1) by (auto simp: space_ok_def)
  show "same_leaves root ?m (vm_mem s2)" by (rule tr(4))
  show "f \<notin> tables (vm_mem s2) root" using tr(2) nf by simp
  show "f \<notin> avail_frames (vm_pmm s2)" "frame_refs (vm_pmm s2) f = 1" "avail_frames (vm_pmm s2) = avail_frames (vm_pmm s) - {f}"
    using A(4,5) s2(1) by simp_all
  show "path_ok q \<Longrightarrow> walk (vm_mem s2) root q = walk ?m root q" by (rule tr(3))
qed

lemma release_frame:
  assumes ok: "space_ok s root" and f: "frame_refs (vm_pmm s) f = 1" "f \<notin> tables (vm_mem s) root" "f \<noteq> 0"
  obtains s' where "vmm_free_frame f s = Some s'" "space_ok s' root" "vm_mem s' = vm_mem s"
proof -
  have pinv: "pmm_inv (vm_pmm s)" using ok by (simp add: space_ok_def)
  have pos: "0 < frame_refs (vm_pmm s) f" using f(1) by simp
  obtain p where "vmm_free_frame f s = Some (s\<lparr>vm_pmm := p\<rparr>)" "pmm_inv p"
    "avail_frames p = (if frame_refs (vm_pmm s) f = 1 then insert f (avail_frames (vm_pmm s)) else avail_frames (vm_pmm s))"
    by (rule vmm_free_frame_ok [OF pinv pos])
  then show thesis using that [of "s\<lparr>vm_pmm := p\<rparr>"] ok f by (auto simp: space_ok_def)
qed

text \<open>The copy from the file would leave it.\<close>

definition copy_refused :: "elf64_phdr \<Rightarrow> u64 \<Rightarrow> u64 \<Rightarrow> bool" where
  "copy_refused ph ps file_size \<longleftrightarrow>
     (let cs = (if ps > p_vaddr ph then ps else p_vaddr ph);
          ce = (if ps + PAGE_SIZE < p_vaddr ph + p_filesz ph then ps + PAGE_SIZE else p_vaddr ph + p_filesz ph)
      in cs < ce \<and> \<not> range_ok (p_offset ph + (cs - p_vaddr ph)) (ce - cs) file_size)"

lemma map_segment_page_run:
  "map_segment_page pml4 virt file file_size ph s =
     (let (phys, s) = vmm_alloc_frame s; ps = ALIGN_DOWN virt PAGE_SIZE in
      if phys = PMM_ALLOC_FAILED then Some (-1, s)
      else if copy_refused ph ps file_size then map_option (Pair (-1)) (vmm_free_frame phys (zero_page phys s))
      else (let (r, s) = vmm_map_page pml4 ps phys (segment_flags ph) (segment_fill phys ps file ph s) in
            if r \<noteq> 0 then map_option (Pair (-1)) (vmm_free_frame phys s) else Some (0, s)))"
  by (simp add: map_segment_page_def segment_fill_def copy_refused_def Let_def map_option_case Option.bind_def
      split: prod.split option.split)

lemma bit_NX [simp]: "bit VMM_NX n \<longleftrightarrow> n = 63"
proof -
  have e: "VMM_NX = push_bit 63 1" by (simp add: VMM_NX_def)
  show ?thesis unfolding e bit_push_bit_iff by (auto simp: bit_1_iff)
qed

lemma segment_flags_bits: "bit (segment_flags ph) n \<Longrightarrow> n = 1 \<or> n = 2 \<or> n = 63"
  by (auto simp: segment_flags_def Let_def bit_or_iff split: if_splits)

lemma segment_flags_mask: "segment_flags ph AND NOT VMM_PHYS_MASK = segment_flags ph"
  by (rule bit_word_eqI) (auto simp: bit_and_iff bit_not_iff dest: segment_flags_bits)

lemma page_of_user:
  assumes "virt < USER_SPACE_TOP"
  shows "unat (ALIGN_DOWN virt PAGE_SIZE) + 4096 < 2 ^ 64"
proof -
  have "ALIGN_DOWN virt PAGE_SIZE \<le> virt" by (simp add: ALIGN_DOWN_def word_and_le2)
  then show ?thesis using assms by (simp add: word_le_nat_alt word_less_nat_alt USER_SPACE_TOP_def)
qed

lemma vm_grows_frame_bytes:
  assumes ok: "space_ok s root" and g: "vm_grows root P s s'" and P: "path_ok P" and f: "frame_addr f"
    and nt: "f \<notin> tables (vm_mem s) root" "f \<notin> avail_frames (vm_pmm s)" and b: "b \<in> block f 4096"
  shows "vm_mem s' b = vm_mem s b"
proof -
  have "b \<notin> block t 4096" if t: "t \<in> path_tables (vm_mem s) root P \<union> avail_frames (vm_pmm s)" for t
  proof -
    have sub: "path_tables (vm_mem s) root P \<subseteq> tables (vm_mem s) root"
      using P by (auto simp: path_tables_def path_ok_def intro!: tablesI)
    then have "t \<noteq> f" using t nt by auto
    moreover have "frame_addr t" using t sub ok avail_frame_addr(1) by (auto simp: space_ok_def tree_ok_def)
    ultimately show ?thesis using frames_disjoint [OF _ f, of t] b by auto
  qed
  then show ?thesis using g by (simp add: vm_grows_def)
qed

lemma idx_page:
  "pml4_idx (ALIGN_DOWN v PAGE_SIZE) = pml4_idx v" "pdpt_idx (ALIGN_DOWN v PAGE_SIZE) = pdpt_idx v"
  "pd_idx (ALIGN_DOWN v PAGE_SIZE) = pd_idx v" "pt_idx (ALIGN_DOWN v PAGE_SIZE) = pt_idx v"
  using vpn_eq_iff [of "ALIGN_DOWN v PAGE_SIZE" v] by auto

lemma leaf_at_page: "leaf_at m root (ALIGN_DOWN v PAGE_SIZE) = leaf_at m root v"
  by (simp add: leaf_at_def idx_page)

text \<open>The page at \<open>ps\<close> was mapped in \<open>s2\<close> to the frame \<open>f\<close>, fresh in \<open>s\<close> and filled from the file.\<close>

definition page_loaded :: "u64 \<Rightarrow> u64 \<Rightarrow> image \<Rightarrow> elf64_phdr \<Rightarrow> vmm_state \<Rightarrow> u64 \<Rightarrow> vmm_state \<Rightarrow> vmm_state \<Rightarrow> bool" where
  "page_loaded pml4 ps file ph s f s2 s' \<longleftrightarrow>
     f \<in> avail_frames (vm_pmm s) \<and> f AND VMM_PHYS_MASK = f \<and> frame_refs (vm_pmm s') f = 1 \<and>
     (\<forall>k < 4096. vm_mem s' (f + of_nat k) = seg_byte ph file (ps + of_nat k)) \<and>
     vmm_map_page pml4 ps f (segment_flags ph) s2 = (0, s') \<and> space_ok s2 pml4 \<and>
     same_leaves pml4 (vm_mem s) (vm_mem s2) \<and> avail_frames (vm_pmm s2) = avail_frames (vm_pmm s) - {f} \<and>
     (\<forall>b. b \<notin> block f 4096 \<longrightarrow> vm_mem s2 b = vm_mem s b) \<and> (\<forall>q. path_ok q \<longrightarrow> walk (vm_mem s2) pml4 q = walk (vm_mem s) pml4 q)"

lemma map_segment_page_spec:
  assumes ok: "space_ok s pml4" and virt: "virt < USER_SPACE_TOP"
  shows "\<exists>r s'. map_segment_page pml4 virt file file_size ph s = Some (r, s') \<and> space_ok s' pml4 \<and>
    (r = 0 \<and> (\<exists>f s2. page_loaded pml4 (ALIGN_DOWN virt PAGE_SIZE) file ph s f s2 s') \<or>
     r = -1 \<and> same_leaves pml4 (vm_mem s) (vm_mem s') \<and>
       (card (avail_frames (vm_pmm s)) < 4 \<or> in_large_page pml4 virt s \<or> copy_refused ph (ALIGN_DOWN virt PAGE_SIZE) file_size))"
proof -
  let ?ps = "ALIGN_DOWN virt PAGE_SIZE"
  have pinv: "pmm_inv (vm_pmm s)" using ok by (simp add: space_ok_def)
  obtain f s1 where al: "vmm_alloc_frame s = (f, s1)" by fastforce
  show ?thesis
  proof (cases "f = PMM_ALLOC_FAILED")
    case True
    then have "s1 = s" "avail_frames (vm_pmm s) = {}" using vmm_alloc_frame_failed [OF pinv] al by auto
    then show ?thesis using True al ok by (simp add: map_segment_page_run)
  next
    case nf: False
    have m1: "vm_mem s1 = vm_mem s" by (rule vmm_alloc_frame_fields(1) [OF al])
    show ?thesis
    proof (cases "copy_refused ph ?ps file_size")
      case True
      have run: "map_segment_page pml4 virt file file_size ph s = map_option (Pair (-1)) (vmm_free_frame f (zero_page f s1))"
        using al nf True by (simp add: map_segment_page_run)
      have z: "vm_mem (zero_page f s1) b = vm_mem s b" if "b \<notin> block f 4096" for b using that m1 by (simp add: memset_page)
      have zp: "vm_pmm (zero_page f s1) = vm_pmm s1" by simp
      note Z = fresh_frame_space [OF ok al nf zp z]
      have "f \<noteq> 0" using Z(6) by (simp add: frame_addr_def)
      then obtain s' where "vmm_free_frame f (zero_page f s1) = Some s'" "space_ok s' pml4" "vm_mem s' = vm_mem (zero_page f s1)"
        using release_frame [OF Z(1,5,3)] by blast
      then show ?thesis using run Z(2) True by auto
    next
      case False
      define s2 where "s2 = segment_fill f ?ps file ph s1"
      have p2: "vm_pmm s2 = vm_pmm s1" by (simp add: s2_def)
      have ff: "frame_addr f" using avail_frame_addr(1) [OF pinv] vmm_alloc_frame_ok(1) [OF pinv al nf] ok by (simp add: space_ok_def)
      have B: "k < 4096 \<Longrightarrow> vm_mem s2 (f + of_nat k) = seg_byte ph file (?ps + of_nat k)" for k
        unfolding s2_def by (rule segment_fill_bytes(1) [OF page_of_user [OF virt] ff])
      have out: "b \<notin> block f 4096 \<Longrightarrow> vm_mem s2 b = vm_mem s b" for b
        unfolding s2_def m1 [symmetric] by (rule segment_fill_bytes(2) [OF page_of_user [OF virt] ff])
      note F = fresh_frame_space [OF ok al nf p2 out]
      obtain r s3 where mp: "vmm_map_page pml4 ?ps f (segment_flags ph) s2 = (r, s3)" by fastforce
      note R = vmm_map_page_spec [OF F(1) mp, unfolded vmm_map_result_def]
      let ?P = "[pml4_idx ?ps, pdpt_idx ?ps, pd_idx ?ps]"
      have g: "vm_grows pml4 ?P s2 s3" using R by blast
      have rf: "frame_refs (vm_pmm s3) f = 1" using g F(4,5) by (simp add: vm_grows_def)
      have nt: "f \<notin> tables (vm_mem s3) pml4" using g F(3,4) by (auto simp: vm_grows_def)
      have run: "map_segment_page pml4 virt file file_size ph s =
          (if r \<noteq> 0 then map_option (Pair (-1)) (vmm_free_frame f s3) else Some (0, s3))"
        using al nf False mp by (simp add: map_segment_page_run s2_def)
      show ?thesis
      proof (cases "r = 0")
        case True
        have inb: "f + of_nat k \<in> block f 4096" if "k < 4096" for k unfolding block_def using that by blast
        have "vm_mem s3 b = vm_mem s2 b" if "b \<in> block f 4096" for b
          by (rule vm_grows_frame_bytes [OF F(1) g idx_path_ok(3) ff F(3,4) that])
        then have "\<forall>k < 4096. vm_mem s3 (f + of_nat k) = seg_byte ph file (?ps + of_nat k)" using B inb by simp
        moreover have "f AND VMM_PHYS_MASK = f" by (rule frame_masked [OF F(6,7)])
        ultimately have "page_loaded pml4 ?ps file ph s f s2 s3" using True F rf mp out unfolding page_loaded_def by simp
        then show ?thesis using True run vm_growsD(1) [OF g] by auto
      next
        case False
        then have sl: "same_leaves pml4 (vm_mem s2) (vm_mem s3)" using R by auto
        have "f \<noteq> 0" using ff by (simp add: frame_addr_def)
        then obtain s' where "vmm_free_frame f s3 = Some s'" "space_ok s' pml4" "vm_mem s' = vm_mem s3"
          using release_frame [OF vm_growsD(1) [OF g] rf nt] by blast
        moreover have "card (avail_frames (vm_pmm s)) < 4 \<or> in_large_page pml4 virt s"
        proof -
          have "finite (avail_frames (vm_pmm s))" by simp
          then have c: "card (avail_frames (vm_pmm s)) \<le> Suc (card (avail_frames (vm_pmm s2)))" using card_Suc_Diff1 [OF _ F(8)] F(10) by simp
          have "leaf_at (vm_mem s2) pml4 ?ps = leaf_at (vm_mem s) pml4 virt"
            using same_leaves_at [OF F(2), of ?ps] leaf_at_page [of "vm_mem s" pml4 virt] by simp
          then show ?thesis using R False c by (auto simp: in_large_page_def)
        qed
        ultimately show ?thesis using run False same_leaves_trans [OF F(2) sl] by auto
      qed
    qed
  qed
qed

section \<open>Properties\<close>

text \<open>C23: the loader reads the image only inside its size: images that agree on their first
  \<open>image_size\<close> bytes are loaded or refused in the same way, however their headers are made.\<close>

theorem elf_load_inside_image:
  assumes same: "same_image image_size file file'"
  shows "elf_load_user_image pml4 file image_size s = elf_load_user_image pml4 file' image_size s"
proof (cases "image_size < EHDR_SIZE")
  case False
  then have sz: "EHDR_SIZE \<le> image_size" by simp
  note eh = same_ehdr [OF same sz]
  have hd: "header_ok file image_size = header_ok file' image_size"
    using eh by (simp add: header_ok_def)
  have "load_segments pml4 file image_size (e_phoff eh) [0..<unat (e_phnum eh)] 0 False s =
      load_segments pml4 file' image_size (e_phoff eh) [0..<unat (e_phnum eh)] 0 False s"
    if h: "header_ok file image_size" and e: "eh = elf_ehdr file" for eh
  proof (rule same_load_segments [OF same], rule ballI)
    fix i assume "i \<in> set [0..<unat (e_phnum eh)]"
    then have i: "i < unat (e_phnum eh)" by simp
    have n: "unat (e_phnum eh) \<le> 32" using h e by (simp add: header_ok_def Let_def word_le_nat_alt)
    have ps: "e_phentsize eh = 56" using h e by (simp add: header_ok_def Let_def PHDR_SIZE_def)
    have "range_ok (e_phoff eh) (ucast (e_phnum eh) * ucast (e_phentsize eh)) image_size" using h unfolding header_ok_def Let_def e by blast
    then have r: "range_ok (e_phoff eh) (ucast (e_phnum eh) * 56) image_size" unfolding ps by simp
    have u: "unat (ucast (e_phnum eh) * 56 :: u64) = unat (e_phnum eh) * 56"
      using n by (simp add: unat_word_ariths unat_ucast_up)
    then have le: "unat (e_phoff eh) + unat (e_phnum eh) * 56 \<le> unat image_size"
      using r unat_sub [of "ucast (e_phnum eh) * 56" image_size] by (auto simp: range_ok_def word_le_nat_alt)
    have "i * 56 + 56 \<le> unat (e_phnum eh) * 56" using i by simp
    moreover have "unat (e_phoff eh + of_nat i * PHDR_SIZE) = unat (e_phoff eh) + i * 56"
      using calculation le unsigned_less [of image_size, where 'a = nat] by (simp add: PHDR_SIZE_def unat_word_ariths unat_of_nat)
    ultimately show "unat (e_phoff eh + of_nat i * PHDR_SIZE) + 56 \<le> unat image_size" using le by linarith
  qed
  then show ?thesis using hd eh by (simp add: elf_load_user_image_def Let_def cong: if_cong)
qed (simp add: elf_load_user_image_def)

lemma map_segment_page_effect:
  assumes ok: "space_ok s pml4" and virt: "virt < USER_SPACE_TOP"
  shows "\<exists>r s'. map_segment_page pml4 virt file file_size ph s = Some (r, s') \<and> space_ok s' pml4 \<and>
    (r = 0 \<and> (\<exists>f. f \<in> avail_frames (vm_pmm s) \<and> frame_refs (vm_pmm s') f = 1 \<and>
        (\<forall>k < 4096. vm_mem s' (f + of_nat k) = seg_byte ph file (ALIGN_DOWN virt PAGE_SIZE + of_nat k)) \<and>
        (\<forall>w. vmm_get_physical pml4 w s' = (if vpn w = vpn virt then f OR w AND 0xFFF else vmm_get_physical pml4 w s) \<and>
             vmm_get_flags pml4 w s' = (if vpn w = vpn virt then segment_flags ph OR VMM_PRESENT else vmm_get_flags pml4 w s))) \<or>
     r = -1 \<and> (\<forall>w. vmm_get_physical pml4 w s' = vmm_get_physical pml4 w s \<and> vmm_get_flags pml4 w s' = vmm_get_flags pml4 w s) \<and>
       (card (avail_frames (vm_pmm s)) < 4 \<or> in_large_page pml4 virt s \<or> copy_refused ph (ALIGN_DOWN virt PAGE_SIZE) file_size))"
proof -
  let ?ps = "ALIGN_DOWN virt PAGE_SIZE"
  from map_segment_page_spec [OF ok virt, of "file" file_size ph] obtain r s' where
    run: "map_segment_page pml4 virt file file_size ph s = Some (r, s')" and ok': "space_ok s' pml4"
    and res: "r = 0 \<and> (\<exists>f s2. page_loaded pml4 ?ps file ph s f s2 s') \<or>
     r = -1 \<and> same_leaves pml4 (vm_mem s) (vm_mem s') \<and>
       (card (avail_frames (vm_pmm s)) < 4 \<or> in_large_page pml4 virt s \<or> copy_refused ph ?ps file_size)" by blast
  have tok: "tree_ok (vm_mem s) pml4" "tree_ok (vm_mem s') pml4" using ok ok' by (simp_all add: space_ok_def)
  note V = vmm_get_physical_leaf [OF tok(1)] vmm_get_physical_leaf [OF tok(2)] vmm_get_flags_leaf [OF tok(1)] vmm_get_flags_leaf [OF tok(2)]
  have mapped: "vmm_get_physical pml4 w s' = (if vpn w = vpn virt then f OR w AND 0xFFF else vmm_get_physical pml4 w s) \<and>
      vmm_get_flags pml4 w s' = (if vpn w = vpn virt then segment_flags ph OR VMM_PRESENT else vmm_get_flags pml4 w s)"
    if "page_loaded pml4 ?ps file ph s f s2 s'" for f s2 w
  proof -
    have f: "f AND VMM_PHYS_MASK = f" and mp: "vmm_map_page pml4 ?ps f (segment_flags ph) s2 = (0, s')" "space_ok s2 pml4"
      and sl: "same_leaves pml4 (vm_mem s) (vm_mem s2)" using that by (auto simp: page_loaded_def)
    have "maps_page pml4 ?ps f (segment_flags ph) s2 s'" using vmm_map_page_spec [OF mp(2,1)] by (simp add: vmm_map_result_def)
    then have "leaf_at (vm_mem s') pml4 w = (if vpn w = vpn virt then Some (False, map_entry f (segment_flags ph)) else leaf_at (vm_mem s) pml4 w)"
      using maps_page_at same_leaves_at [OF sl] by simp
    then show ?thesis by (simp add: V leaf_phys_def leaf_flags_def map_entry_parts f segment_flags_mask)
  qed
  have same: "vmm_get_physical pml4 w s' = vmm_get_physical pml4 w s \<and> vmm_get_flags pml4 w s' = vmm_get_flags pml4 w s"
    if "same_leaves pml4 (vm_mem s) (vm_mem s')" for w by (simp add: V same_leaves_at [OF that])
  from res show ?thesis
  proof (elim disjE conjE exE)
    fix f s2 assume r: "r = 0" and pl: "page_loaded pml4 ?ps file ph s f s2 s'"
    then show ?thesis using run ok' mapped [OF pl] unfolding page_loaded_def by blast
  qed (use run ok' same in blast)+
qed

text \<open>C9: map_segment_page maps the page of an address to a fresh frame that holds the bytes of the
  segment, zero where the file has none, with the access rights of the segment, and changes no
  other translation. It fails, changing nothing, only without frames, in a large page, or when the
  file is too short; it never panics.\<close>

theorem map_segment_page_correct:
  assumes ok: "space_ok s pml4" and virt: "virt < USER_SPACE_TOP"
  shows "\<exists>r s'. map_segment_page pml4 virt file file_size ph s = Some (r, s') \<and> space_ok s' pml4 \<and>
    (r = 0 \<and> (\<exists>f. f \<in> avail_frames (vm_pmm s) \<and> frame_refs (vm_pmm s') f = 1 \<and>
        (\<forall>k < 4096. vm_mem s' (f + of_nat k) = seg_byte ph file (ALIGN_DOWN virt PAGE_SIZE + of_nat k)) \<and>
        (\<forall>w. vmm_get_physical pml4 w s' = (if vpn w = vpn virt then f OR w AND 0xFFF else vmm_get_physical pml4 w s) \<and>
             vmm_get_flags pml4 w s' = (if vpn w = vpn virt then segment_flags ph OR VMM_PRESENT else vmm_get_flags pml4 w s))) \<or>
     r = -1 \<and> (\<forall>w. vmm_get_physical pml4 w s' = vmm_get_physical pml4 w s \<and> vmm_get_flags pml4 w s' = vmm_get_flags pml4 w s) \<and>
       (card (avail_frames (vm_pmm s)) < 4 \<or> in_large_page pml4 virt s \<or> copy_refused ph (ALIGN_DOWN virt PAGE_SIZE) file_size))"
  using assms by (rule map_segment_page_effect)

section \<open>A segment in the first gigabyte\<close>

lemma walk3:
  assumes "walk m root [a, b, c] = Some pt"
  obtains pdpt pd where "link (pte m root a) = Some pdpt" "link (pte m pdpt b) = Some pd" "link (pte m pd c) = Some pt"
  using assms by (auto simp: walk.simps bind_eq_Some_conv)

lemma get_by_links:
  assumes "link (pte (vm_mem s) root (pml4_idx v)) = Some pdpt" "link (pte (vm_mem s) pdpt (pdpt_idx v)) = Some pd"
    "link (pte (vm_mem s) pd (pd_idx v)) = Some pt" "bit (pte (vm_mem s) pt (pt_idx v)) 0"
  shows "vmm_get_physical root v s = pte (vm_mem s) pt (pt_idx v) AND VMM_PHYS_MASK OR v AND 0xFFF"
    "vmm_get_flags root v s = pte (vm_mem s) pt (pt_idx v) AND NOT VMM_PHYS_MASK"
  using assms by (auto simp: link_def vmm_get_physical_def vmm_get_flags_def Let_def split: if_splits)

text \<open>The tables a low address is translated by in the new space: its own two, then the kernel's.\<close>

lemma low_tables:
  assumes tok: "tree_ok m cur" and sh: "shares_kernel m cur m1 new low" and c: "c < 512"
    and w: "link (pte m cur 0) = Some pdpt" "link (pte m pdpt 0) = Some pd" "link (pte m pd c) = Some pt"
  shows "walk m1 new [] = Some new" "walk m1 new [0] = Some low" "walk m1 new [0, 0] = Some pd" "walk m1 new [0, 0, c] = Some pt"
    "cur \<notin> {new, low, pd, pt}" "pdpt \<notin> {new, low, pd, pt}" "cur \<in> tables m cur" "pdpt \<in> tables m cur"
proof -
  note W = shared_walk [OF tok sh]
  have b: "bit (pte m cur 0) 0" using w(1) by (auto simp: link_def split: if_splits)
  have q: "walk m cur [] = Some cur" "walk m cur [0] = Some pdpt" "walk m cur [0, 0] = Some pd" "walk m cur [0, 0, c] = Some pt"
    using w by (simp_all add: walk.simps)
  have p: "path_ok []" "path_ok [0]" "path_ok [0, 0]" "path_ok [0, 0, c]" using c by (simp_all add: path_ok_def)
  have sp: "shared_path [0, 0]" "shared_path [0, 0, c]" "\<not> shared_path [0]" by (simp_all add: shared_path_def)
  show "walk m1 new [] = Some new" "walk m1 new [0] = Some low" "walk m1 new [0, 0] = Some pd" "walk m1 new [0, 0, c] = Some pt"
    using W [OF p(1)] W [OF p(2)] W [OF p(3)] W [OF p(4)] q sp b by simp_all
  show t: "cur \<in> tables m cur" "pdpt \<in> tables m cur" using tablesI [OF p(1) q(1)] tablesI [OF p(2) q(2)] by auto
  have n: "new \<notin> tables m cur" "low \<notin> tables m cur" using sh by (auto simp: shares_kernel_def)
  note U = tree_okD(2) [OF tok]
  have "cur \<noteq> pd" "cur \<noteq> pt" "pdpt \<noteq> pd" "pdpt \<noteq> pt"
    using U [OF p(1,3) q(1)] U [OF p(1,4) q(1)] U [OF p(2,3) q(2)] U [OF p(2,4) q(2)] q by auto
  then show "cur \<notin> {new, low, pd, pt}" "pdpt \<notin> {new, low, pd, pt}" using t n by auto
qed

text \<open>A table of the kernel that the new space does not use stays as it is.\<close>

lemma kernel_table_kept:
  assumes ok: "space_ok s cur" and ok1: "space_ok s1 new" and om: "old_mem_same s s1"
    and fr: "{new, low} \<subseteq> avail_frames (vm_pmm s)" and av1: "avail_frames (vm_pmm s1) = avail_frames (vm_pmm s) - {new, low}"
    and pl: "page_loaded new ps file ph s1 f s2 s'"
    and W: "walk (vm_mem s1) new [] = Some new" "walk (vm_mem s1) new [0] = Some low"
      "walk (vm_mem s1) new [0, 0] = Some pd" "walk (vm_mem s1) new [0, 0, pd_idx v] = Some pt"
    and g: "vm_grows new [0, 0, pd_idx v] s2 s'"
    and t: "t \<in> tables (vm_mem s) cur" "t \<notin> {new, low, pd, pt}" and i: "i < 512"
  shows "pte (vm_mem s') t i = pte (vm_mem s) t i"
proof (rule pte_cong_frame)
  show ft: "frame_addr t" using ok t(1) by (simp add: space_ok_def tree_ok_def)
  show "i < 512" by (rule i)
  have f1: "f \<in> avail_frames (vm_pmm s1)" and av2: "avail_frames (vm_pmm s2) = avail_frames (vm_pmm s1) - {f}"
    and m2: "\<And>b. b \<notin> block f 4096 \<Longrightarrow> vm_mem s2 b = vm_mem s1 b"
    and w2: "\<And>q. path_ok q \<Longrightarrow> walk (vm_mem s2) new q = walk (vm_mem s1) new q" using pl by (auto simp: page_loaded_def)
  have P: "path_ok [0, 0, pd_idx v]" "path_ok [0, 0]" "path_ok [0]" "path_ok []" by (simp_all add: path_ok_def)
  have pts: "path_tables (vm_mem s2) new [0, 0, pd_idx v] \<subseteq> {new, low, pd, pt}"
    using w2 P W by (auto simp: path_tables_def Cons_eq_append_conv)
  have nt: "frame_addr new" "frame_addr low" "frame_addr pd" "frame_addr pt"
    using W P ok1 tree_okD(1) unfolding space_ok_def by blast+
  fix b assume b: "b \<in> block t 4096"
  have dis: "b \<notin> block u 4096" if "u \<noteq> t" "frame_addr u" for u using frames_disjoint [OF ft that(2)] that(1) b by auto
  have fa: "frame_addr u" "u \<noteq> t" if "u \<in> avail_frames (vm_pmm s)" for u
    using that ok avail_frame_addr(1) t(1) by (auto simp: space_ok_def)
  have "b \<notin> block u 4096" if "u \<in> path_tables (vm_mem s2) new [0, 0, pd_idx v] \<union> avail_frames (vm_pmm s2)" for u
    using that pts t(2) nt fa av1 av2 dis by auto
  then have "vm_mem s' b = vm_mem s2 b" using g by (simp add: vm_grows_def)
  also have "\<dots> = vm_mem s1 b" using m2 dis fa f1 av1 by auto
  also have "\<dots> = vm_mem s b" using om dis fa by (auto simp: old_mem_same_def)
  finally show "vm_mem s' b = vm_mem s b" .
qed

text \<open>C22: nothing keeps a program out of the first gigabyte, which every address space shares with the
  kernel. When map_segment_page loads a page of a fresh address space at an address the kernel maps
  with a small page, the page tables of the kernel itself change: from then on the kernel's address
  translates to the frame with the bytes of the program, by an entry with the user flag.\<close>

theorem elf_low_segment_replaces_kernel:
  assumes ok: "space_ok s cur" and cur: "cur = vmm_current_pml4 s" and enough: "2 \<le> card (avail_frames (vm_pmm s))"
    and v: "pml4_idx v = 0" "pdpt_idx v = 0" "ALIGN_DOWN v PAGE_SIZE = v" "v < USER_SPACE_TOP"
    and small: "leaf_at (vm_mem s) cur v = Some (False, e)"
    and new: "vmm_create_address_space s = Some (new, s1)"
    and run: "map_segment_page new v file n ph s1 = Some (0, s')"
  shows "\<exists>f. f \<in> avail_frames (vm_pmm s) \<and> vmm_get_physical cur v s' = f OR v AND 0xFFF \<and>
    pte_has (vmm_get_flags cur v s') VMM_USER \<and> (\<forall>k < 4096. vm_mem s' (f + of_nat k) = seg_byte ph file (v + of_nat k))"
proof -
  let ?m = "vm_mem s" and ?c = "pd_idx v" and ?d = "pt_idx v"
  have tok: "tree_ok ?m cur" using ok by (simp add: space_ok_def)
  obtain pt where pt: "walk ?m cur [0, 0, ?c] = Some pt" using small v(1,2) by (auto simp: leaf_at_def leaf_def split: option.splits if_splits)
  then obtain pdpt pd where L: "link (pte ?m cur 0) = Some pdpt" "link (pte ?m pdpt 0) = Some pd" "link (pte ?m pd ?c) = Some pt"
    by (rule walk3)
  have b0: "bit (pte ?m cur 0) 0" using L(1) by (auto simp: link_def split: if_splits)
  from create_ok [OF ok cur b0 enough] new obtain low where sh: "shares_kernel ?m cur (vm_mem s1) new low"
    and inv1: "pmm_inv (vm_pmm s1)" and om: "old_mem_same s s1" and fr: "{new, low} \<subseteq> avail_frames (vm_pmm s)"
    and av1: "avail_frames (vm_pmm s1) = avail_frames (vm_pmm s) - {new, low}" by auto
  note T = low_tables [OF tok sh _ L, OF idx_less(3)]
  have ok1: "space_ok s1 new" using shared_tree [OF tok sh] inv1 av1 ok by (auto simp: space_ok_def)
  from map_segment_page_spec [OF ok1 v(4), of "file" n ph] run v(3) obtain f s2 where pl: "page_loaded new v file ph s1 f s2 s'" by auto
  have f1: "f \<in> avail_frames (vm_pmm s1)" "f AND VMM_PHYS_MASK = f" and mp: "vmm_map_page new v f (segment_flags ph) s2 = (0, s')" "space_ok s2 new"
    and w2: "\<And>q. path_ok q \<Longrightarrow> walk (vm_mem s2) new q = walk (vm_mem s1) new q"
    and bytes: "\<forall>k < 4096. vm_mem s' (f + of_nat k) = seg_byte ph file (v + of_nat k)" using pl by (auto simp: page_loaded_def)
  note R = vmm_map_page_spec [OF mp(2,1), unfolded vmm_map_result_def v(1,2)]
  have g: "vm_grows new [0, 0, ?c] s2 s'" and mpg: "maps_page new v f (segment_flags ph) s2 s'" using R by auto
  have P: "path_ok [0, 0, ?c]" "path_ok [0, 0]" "path_ok [0]" "path_ok []" by (simp_all add: path_ok_def)
  have w': "walk (vm_mem s') new [0, 0] = Some pd" "walk (vm_mem s') new [0, 0, ?c] = Some pt"
    using vm_growsD(2) [OF g P(2)] vm_growsD(2) [OF g P(1)] w2 [OF P(1)] w2 [OF P(2)] T(3,4) by auto
  then have l3: "link (pte (vm_mem s') pd ?c) = Some pt" using walk_append [of "vm_mem s'" new "[0, 0]" "[?c]"] by (simp add: walk.simps)
  have "leaf (vm_mem s') new 0 0 ?c ?d = Some (False, map_entry f (segment_flags ph))"
    using mpg P(1) v(1,2) by (simp add: maps_page_def)
  then have e: "pte (vm_mem s') pt ?d = map_entry f (segment_flags ph)" using w'(2) by (auto simp: leaf_def split: if_splits)
  have same: "pte (vm_mem s') t i = pte ?m t i" if "t \<in> tables ?m cur" "t \<notin> {new, low, pd, pt}" "i < 512" for t i
    by (rule kernel_table_kept [OF ok ok1 om fr av1 pl T(1-4) g that])
  have l1: "link (pte (vm_mem s') cur 0) = Some pdpt" "link (pte (vm_mem s') pdpt 0) = Some pd"
    using same [OF T(7,5), of 0] same [OF T(8,6), of 0] L by simp_all
  have u: "bit (segment_flags ph) 2" by (simp add: segment_flags_def Let_def bit_or_iff)
  note G = get_by_links [of s' cur v, unfolded v(1,2), OF l1 l3, unfolded e]
  have "vmm_get_physical cur v s' = f OR v AND 0xFFF" "pte_has (vmm_get_flags cur v s') VMM_USER"
    using G f1(2) u by (simp_all add: map_entry_parts bit_or_iff bit_and_iff bit_not_iff)
  then show ?thesis using f1(1) av1 bytes by auto
qed

section \<open>Witnesses\<close>

definition ph_sample :: elf64_phdr where
  "ph_sample = \<lparr>p_type = PT_LOAD, p_flags = PF_X, p_offset = 0, p_vaddr = 0x40000000, p_paddr = 0, p_filesz = 16, p_memsz = 32,
     p_align = PAGE_SIZE\<rparr>"

theorem map_segment_page_correct_witness:
  "\<exists>s'. map_segment_page 0x1000 0x40000000 (\<lambda>_. 7) 16 ph_sample vm_sample = Some (0, s') \<and>
     vmm_get_flags 0x1000 0x40000000 s' = segment_flags ph_sample OR VMM_PRESENT"
proof -
  have "\<not> in_large_page 0x1000 0x40000000 vm_sample" by (simp add: in_large_page_def vm_sample_leaf)
  moreover have "\<not> copy_refused ph_sample (ALIGN_DOWN 0x40000000 PAGE_SIZE) 16"
    by (simp add: copy_refused_def ph_sample_def ALIGN_DOWN_def PAGE_SIZE_def range_ok_def Let_def)
  moreover have "(0x40000000 :: u64) < USER_SPACE_TOP" by (simp add: USER_SPACE_TOP_def)
  ultimately show ?thesis
    using map_segment_page_correct [OF vm_sample_ok, of "0x40000000" "\<lambda>_. 7" 16 ph_sample] vm_sample_pmm(4) by fastforce
qed

lemma booted_small_page:
  assumes "vmm_init 0x110000 0x150000 vm_sample = Some s"
  shows "leaf_at (vm_mem s) (vmm_current_pml4 s) 0x100000 = Some (False, 0x100000 OR VMM_PRESENT OR VMM_WRITE)"
proof -
  from vmm_init_run [OF vm_sample_pmm(1,2) assms] obtain pdpt pd pt pdpt_hh pd_hh where
    kt: "kernel_tables (vm_mem s) (0x110000 - PAGE_SIZE) (kernel_pml4 s) pdpt pd pt pdpt_hh pd_hh" by (elim exE conjE) rule
  have i: "pml4_idx 0x100000 = 0" "pdpt_idx 0x100000 = 0" "pd_idx 0x100000 = 0" "pt_idx 0x100000 = 256"
    by (simp_all add: pml4_idx_def pdpt_idx_def pd_idx_def pt_idx_def)
  have z: "(0 :: u64) < 512" by simp
  note L = kernel_tablesD [OF kt z]
  have e: "pte (vm_mem s) pt 256 = 0x100000 OR VMM_PRESENT OR VMM_WRITE"
  proof -
    have "(256 :: u64) < 512" by simp
    then have "pte (vm_mem s) pt 256 = (if 256 = (0 :: u64) \<or> 256 * PAGE_SIZE = 0x110000 - PAGE_SIZE then 0 else 256 * PAGE_SIZE OR VMM_PRESENT OR VMM_WRITE)"
      using kt unfolding kernel_tables_def by blast
    then show ?thesis by (simp add: PAGE_SIZE_def)
  qed
  have w: "walk (vm_mem s) (kernel_pml4 s) [0, 0] = Some pd" "walk (vm_mem s) (kernel_pml4 s) [0, 0, 0] = Some pt"
    using L by (simp_all add: walk.simps)
  have "\<not> bit (pte (vm_mem s) pd 0) 7" using L by (auto simp: link_def split: if_splits)
  then show ?thesis using w e unfolding vmm_init_space(3) [OF vm_sample_pmm(1,2) assms] leaf_at_def i leaf_def
    by (simp add: bit_or_iff)
qed

theorem elf_low_segment_replaces_kernel_witness:
  "\<exists>s new s1 s' f. vmm_init 0x110000 0x150000 vm_sample = Some s \<and> vmm_create_address_space s = Some (new, s1) \<and>
     map_segment_page new 0x100000 (\<lambda>_. 7) 16 (ph_sample\<lparr>p_vaddr := 0x100000\<rparr>) s1 = Some (0, s') \<and>
     vmm_get_physical (vmm_current_pml4 s) 0x100000 s = 0x100000 \<and>
     f \<in> avail_frames (vm_pmm s) \<and> vmm_get_physical (vmm_current_pml4 s) 0x100000 s' = f \<and> vm_mem s' f = 7"
proof -
  let ?ph = "ph_sample\<lparr>p_vaddr := 0x100000\<rparr>" and ?v = "0x100000 :: u64"
  obtain s where s: "vmm_init 0x110000 0x150000 vm_sample = Some s" "space_ok s (vmm_current_pml4 s)"
    "bit (pte (vm_mem s) (vmm_current_pml4 s) 0) 0" "3000 \<le> card (avail_frames (vm_pmm s))" by (rule booted_sample)
  let ?cur = "vmm_current_pml4 s"
  note lf = booted_small_page [OF s(1)]
  have tok: "tree_ok (vm_mem s) ?cur" using s(2) by (simp add: space_ok_def)
  have two: "2 \<le> card (avail_frames (vm_pmm s))" using s(4) by simp
  from create_ok [OF s(2) refl s(3) two] obtain new low s1 where new: "vmm_create_address_space s = Some (new, s1)"
    and sh: "shares_kernel (vm_mem s) ?cur (vm_mem s1) new low" and inv1: "pmm_inv (vm_pmm s1)"
    and fr: "{new, low} \<subseteq> avail_frames (vm_pmm s)"
    and av1: "avail_frames (vm_pmm s1) = avail_frames (vm_pmm s) - {new, low}" by auto
  have ok1: "space_ok s1 new" using shared_tree [OF tok sh] inv1 av1 s(2) by (auto simp: space_ok_def)
  have c1: "4 \<le> card (avail_frames (vm_pmm s1))"
    using s(4) card_insert_le_m1 [of 2 "{low}" new] diff_card_le_card_Diff [of "{new, low}" "avail_frames (vm_pmm s)"] unfolding av1 by simp
  have i: "pml4_idx ?v = 0" "pdpt_idx ?v = 0" by (simp_all add: pml4_idx_def pdpt_idx_def)
  have al: "ALIGN_DOWN ?v PAGE_SIZE = ?v" by (simp add: ALIGN_DOWN_def PAGE_SIZE_def)
  have top: "?v < USER_SPACE_TOP" by (simp add: USER_SPACE_TOP_def)
  have "\<not> in_large_page new ?v s1" using shared_leaf [OF tok sh, of "pml4_idx ?v" "pdpt_idx ?v" "pd_idx ?v" "pt_idx ?v"] lf i
    by (simp add: in_large_page_def leaf_at_def path_ok_def)
  moreover have "\<not> copy_refused ?ph ?v 16" by (simp add: copy_refused_def ph_sample_def PAGE_SIZE_def range_ok_def Let_def)
  ultimately obtain s' where run: "map_segment_page new ?v (\<lambda>_. 7) 16 ?ph s1 = Some (0, s')"
    using map_segment_page_spec [OF ok1 top, of "\<lambda>_. 7" 16 ?ph] c1 unfolding al by (auto simp: not_less)
  from elf_low_segment_replaces_kernel [OF s(2) refl two i al top lf new run] obtain f where
    f: "f \<in> avail_frames (vm_pmm s)" "vmm_get_physical ?cur ?v s' = f OR ?v AND 0xFFF"
    "\<forall>k < 4096. vm_mem s' (f + of_nat k) = seg_byte ?ph (\<lambda>_. 7) (?v + of_nat k)" by blast
  have "seg_byte ?ph (\<lambda>_. 7) (?v + of_nat 0) = 7" by (simp add: seg_byte_def ph_sample_def)
  then have "vm_mem s' f = 7" using f(3) [rule_format, of 0] by simp
  moreover have "vmm_get_physical ?cur ?v s = ?v" using vmm_get_physical_leaf [OF tok] lf
    by (simp add: leaf_phys_def VMM_PHYS_MASK_def VMM_PRESENT_def VMM_WRITE_def)
  ultimately show ?thesis using s(1) new run f(1,2) by auto
qed

section \<open>The loader returns\<close>

lemma unat_ALIGN_UP:
  fixes x :: u64
  assumes "unat x + 4095 < 2 ^ 64"
  shows "unat (ALIGN_UP x PAGE_SIZE) = (unat x + 4095) div 4096 * 4096"
proof -
  have m: "PAGE_SIZE - 1 = mask 12" by (simp add: PAGE_SIZE_def mask_eq_exp_minus_1)
  have p: "x + PAGE_SIZE - 1 = x + 4095" by (simp add: PAGE_SIZE_def)
  have "ALIGN_UP x PAGE_SIZE = push_bit 12 (drop_bit 12 (x + 4095))"
    unfolding ALIGN_UP_def m p by (rule bit_word_eqI) (auto simp: bit_simps)
  moreover have "unat (x + 4095) = unat x + 4095" using assms by (simp add: unat_word_ariths)
  ultimately show ?thesis using assms
    by (simp add: push_bit_eq_mult drop_bit_eq_div unat_word_ariths unat_div_distrib)
qed

lemma align_up_user:
  assumes "x \<le> USER_SPACE_TOP"
  shows "ALIGN_UP x PAGE_SIZE \<le> USER_SPACE_TOP" "x \<le> ALIGN_UP x PAGE_SIZE" "unat (ALIGN_UP x PAGE_SIZE) mod 4096 = 0"
proof -
  have x: "unat x \<le> 0x800000000000" using assms by (simp add: USER_SPACE_TOP_def word_le_nat_alt)
  then have u: "unat (ALIGN_UP x PAGE_SIZE) = (unat x + 4095) div 4096 * 4096" by (intro unat_ALIGN_UP) simp
  show "ALIGN_UP x PAGE_SIZE \<le> USER_SPACE_TOP" using x by (simp add: USER_SPACE_TOP_def word_le_nat_alt u)
  show "x \<le> ALIGN_UP x PAGE_SIZE" by (simp add: word_le_nat_alt u)
  show "unat (ALIGN_UP x PAGE_SIZE) mod 4096 = 0" by (simp add: u)
qed

lemma range_ok_end:
  assumes "range_ok v n USER_SPACE_TOP"
  shows "v + n \<le> USER_SPACE_TOP"
proof -
  have "n \<le> USER_SPACE_TOP" "unat v \<le> unat USER_SPACE_TOP - unat n"
    using assms by (auto simp: range_ok_def word_le_nat_alt unat_sub)
  then show ?thesis by (simp add: word_le_nat_alt unat_word_ariths USER_SPACE_TOP_def)
qed

text \<open>How the two views of an address differ between two states: not at all, or in a page that is now
  a page of the user.\<close>

definition same_view :: "u64 \<Rightarrow> u64 \<Rightarrow> vmm_state \<Rightarrow> vmm_state \<Rightarrow> bool" where
  "same_view pml4 w s s' \<longleftrightarrow> vmm_get_physical pml4 w s' = vmm_get_physical pml4 w s \<and>
     vmm_get_flags pml4 w s' = vmm_get_flags pml4 w s"

definition mapped_for_user :: "u64 \<Rightarrow> u64 \<Rightarrow> vmm_state \<Rightarrow> bool" where
  "mapped_for_user pml4 w s \<longleftrightarrow> pte_has (vmm_get_flags pml4 w s) VMM_USER \<and> pte_has (vmm_get_flags pml4 w s) VMM_PRESENT"

definition loads_pages :: "u64 \<Rightarrow> nat \<Rightarrow> nat \<Rightarrow> vmm_state \<Rightarrow> vmm_state \<Rightarrow> bool" where
  "loads_pages pml4 k l s s' \<longleftrightarrow>
     (\<forall>w. unat (vpn w) < k \<or> l \<le> unat (vpn w) \<longrightarrow> same_view pml4 w s s') \<and>
     (\<forall>w. same_view pml4 w s s' \<or> mapped_for_user pml4 w s')"

lemma loads_pages_refl [simp]: "loads_pages pml4 k l s s"
  by (simp add: loads_pages_def same_view_def)

lemma loads_pages_mono:
  "loads_pages pml4 k l s s' \<Longrightarrow> lo \<le> k \<Longrightarrow> l \<le> hi \<Longrightarrow> loads_pages pml4 lo hi s s'"
  by (auto simp: loads_pages_def)

lemma loads_pages_trans:
  assumes "loads_pages pml4 k l s s1" and "loads_pages pml4 k' l' s1 s2" and "lo \<le> k" "lo \<le> k'" "l \<le> hi" "l' \<le> hi"
  shows "loads_pages pml4 lo hi s s2" and "mapped_for_user pml4 w s1 \<Longrightarrow> mapped_for_user pml4 w s2"
  using assms unfolding loads_pages_def same_view_def mapped_for_user_def by (metis le_trans less_le_trans)+

lemma segment_flags_user: "pte_has (segment_flags ph OR VMM_PRESENT) VMM_USER" "pte_has (segment_flags ph OR VMM_PRESENT) VMM_PRESENT"
  by (simp_all add: segment_flags_def Let_def bit_or_iff)

lemma map_segment_page_loads:
  assumes ok: "space_ok s pml4" and virt: "virt < USER_SPACE_TOP"
  shows "\<exists>r s'. map_segment_page pml4 virt file file_size ph s = Some (r, s') \<and> space_ok s' pml4 \<and>
    loads_pages pml4 (unat (vpn virt)) (Suc (unat (vpn virt))) s s' \<and>
    (r = 0 \<longrightarrow> (\<forall>w. vpn w = vpn virt \<longrightarrow> mapped_for_user pml4 w s'))"
proof -
  obtain r s' where run: "map_segment_page pml4 virt file file_size ph s = Some (r, s')" "space_ok s' pml4"
    and res: "r = 0 \<and> (\<exists>f. \<forall>w. vmm_get_physical pml4 w s' = (if vpn w = vpn virt then f OR w AND 0xFFF else vmm_get_physical pml4 w s) \<and>
        vmm_get_flags pml4 w s' = (if vpn w = vpn virt then segment_flags ph OR VMM_PRESENT else vmm_get_flags pml4 w s)) \<or>
      r = -1 \<and> (\<forall>w. same_view pml4 w s s')"
    using map_segment_page_effect [OF ok virt, of "file" file_size ph] unfolding same_view_def by blast
  have ne: "vpn w \<noteq> vpn virt" if "unat (vpn w) < unat (vpn virt) \<or> Suc (unat (vpn virt)) \<le> unat (vpn w)" for w
    using that by auto
  from res show ?thesis
  proof (elim disjE conjE exE)
    fix f assume r: "r = 0" and V: "\<forall>w. vmm_get_physical pml4 w s' = (if vpn w = vpn virt then f OR w AND 0xFFF else vmm_get_physical pml4 w s) \<and>
        vmm_get_flags pml4 w s' = (if vpn w = vpn virt then segment_flags ph OR VMM_PRESENT else vmm_get_flags pml4 w s)"
    have u: "mapped_for_user pml4 w s'" if "vpn w = vpn virt" for w
      using V that segment_flags_user [of ph] by (simp add: mapped_for_user_def)
    have sv: "same_view pml4 w s s'" if "vpn w \<noteq> vpn virt" for w using V that by (simp add: same_view_def)
    have "loads_pages pml4 (unat (vpn virt)) (Suc (unat (vpn virt))) s s'"
      unfolding loads_pages_def using u sv ne by blast
    then show ?thesis using run u by blast
  qed (use run in \<open>auto simp: loads_pages_def\<close>)
qed

lemma unat_vpn:
  assumes "v < USER_SPACE_TOP"
  shows "unat (vpn v) = unat v div 4096"
proof -
  have "unat v < 2 ^ 47" using assms by (simp add: USER_SPACE_TOP_def word_less_nat_alt)
  then have "unat v div 4096 < 2 ^ 36" by (simp add: div_less_iff_less_mult)
  then show ?thesis
    by (simp add: vpn_def unsigned_take_bit_eq drop_bit_eq_div unat_div_distrib take_bit_nat_eq_self
        flip: take_bit_eq_mask)
qed

lemma map_pages_loads:
  assumes "space_ok s pml4" and "unat page = 4096 * k" and l: "unat last_page = 4096 * l" and top: "last_page \<le> USER_SPACE_TOP"
  shows "\<exists>r s'. map_pages pml4 page last_page file file_size ph s = Some (r, s') \<and> space_ok s' pml4 \<and>
    loads_pages pml4 k l s s' \<and> (r = 0 \<longrightarrow> (\<forall>w. k \<le> unat (vpn w) \<and> unat (vpn w) < l \<longrightarrow> mapped_for_user pml4 w s'))"
  using assms(1,2)
proof (induction "l - k" arbitrary: page k s rule: less_induct)
  case less
  show ?case
  proof (cases "page < last_page")
    case True
    then have u: "page < USER_SPACE_TOP" using top by (rule less_le_trans)
    have kl: "k < l" using True l less.prems(2) by (simp add: word_less_nat_alt)
    have v: "unat (vpn page) = k" using unat_vpn [OF u] less.prems(2) by simp
    have n: "unat (page + PAGE_SIZE) = 4096 * Suc k"
      using u less.prems(2) by (simp add: PAGE_SIZE_def USER_SPACE_TOP_def word_less_nat_alt unat_word_ariths)
    obtain r s1 where s1: "map_segment_page pml4 page file file_size ph s = Some (r, s1)" "space_ok s1 pml4"
      "loads_pages pml4 k (Suc k) s s1" "r = 0 \<longrightarrow> (\<forall>w. vpn w = vpn page \<longrightarrow> mapped_for_user pml4 w s1)"
      using map_segment_page_loads [OF less.prems(1) u] unfolding v by blast
    have "l - Suc k < l - k" using kl by simp
    from less.hyps [OF this s1(2) n] obtain r' s' where s': "map_pages pml4 (page + PAGE_SIZE) last_page file file_size ph s1 = Some (r', s')"
      "space_ok s' pml4" "loads_pages pml4 (Suc k) l s1 s'"
      "r' = 0 \<longrightarrow> (\<forall>w. Suc k \<le> unat (vpn w) \<and> unat (vpn w) < l \<longrightarrow> mapped_for_user pml4 w s')" by blast
    note T = loads_pages_trans [OF s1(3) s'(3), of k l]
    have "mapped_for_user pml4 w s'" if "r = 0" "r' = 0" "k \<le> unat (vpn w)" "unat (vpn w) < l" for w
    proof (cases "unat (vpn w) = k")
      case True
      then have "vpn w = vpn page" using v by (simp add: word_unat_eq_iff)
      then show ?thesis using s1(4) that(1) T(2) kl by simp
    next
      case False
      then show ?thesis using s'(4) that by simp
    qed
    moreover have "loads_pages pml4 k l s s'" using T(1) kl by simp
    moreover have "loads_pages pml4 k l s s1" using loads_pages_mono [OF s1(3), of k l] kl by simp
    ultimately show ?thesis using s1(1,2) s'(1,2) by (subst map_pages.simps) (auto simp: True)
  next
    case False
    then have "l \<le> k" using l less.prems(2) by (simp add: word_less_nat_alt)
    then show ?thesis using False less.prems(1) by (subst map_pages.simps) auto
  qed
qed

text \<open>The program headers of an image, and that its loadable segments keep out of the first gigabyte.\<close>

definition phdr_of :: "image \<Rightarrow> nat \<Rightarrow> elf64_phdr" where
  "phdr_of file i = elf_phdr file (e_phoff (elf_ehdr file) + of_nat i * PHDR_SIZE)"

definition above_first_gib :: "image \<Rightarrow> bool" where
  "above_first_gib file \<longleftrightarrow> (\<forall>i < unat (e_phnum (elf_ehdr file)). p_type (phdr_of file i) = PT_LOAD \<longrightarrow>
     0x40000000 \<le> p_vaddr (phdr_of file i))"

definition seg_vpns :: "elf64_phdr \<Rightarrow> nat \<Rightarrow> bool" where
  "seg_vpns ph n \<longleftrightarrow> unat (p_vaddr ph) div 4096 \<le> n \<and> n * 4096 < unat (p_vaddr ph) + unat (p_memsz ph)"

lemma unat_ALIGN_DOWN: "unat (ALIGN_DOWN (x :: u64) PAGE_SIZE) = 4096 * (unat x div 4096)"
proof -
  have m: "PAGE_SIZE - 1 = mask 12" by (simp add: PAGE_SIZE_def mask_eq_exp_minus_1)
  have "ALIGN_DOWN x PAGE_SIZE = push_bit 12 (drop_bit 12 x)"
    unfolding ALIGN_DOWN_def m by (rule bit_word_eqI) (auto simp: bit_simps)
  moreover have "unat x div 4096 * 4096 < 2 ^ 64" using unsigned_less [of x, where 'a = nat] by (simp add: div_times_less_eq_dividend le_less_trans)
  ultimately show ?thesis
    by (simp add: push_bit_eq_mult drop_bit_eq_div unat_word_ariths unat_div_distrib mult.commute)
qed

text \<open>One loadable segment: the loop over its pages returns and loads exactly them.\<close>

lemma segment_loads:
  assumes ok: "space_ok s pml4" and seg: "segment_ok ph n"
  shows "\<exists>r s'. map_pages pml4 (ALIGN_DOWN (p_vaddr ph) PAGE_SIZE) (ALIGN_UP (p_vaddr ph + p_memsz ph) PAGE_SIZE) file n ph s = Some (r, s') \<and>
    space_ok s' pml4 \<and> loads_pages pml4 (unat (p_vaddr ph) div 4096) 0x800000000 s s' \<and>
    (r = 0 \<longrightarrow> (\<forall>w. seg_vpns ph (unat (vpn w)) \<longrightarrow> mapped_for_user pml4 w s'))"
proof -
  let ?fin = "p_vaddr ph + p_memsz ph" and ?k = "unat (p_vaddr ph) div 4096"
  have r: "range_ok (p_vaddr ph) (p_memsz ph) USER_SPACE_TOP" using seg by (simp add: segment_ok_def)
  have e: "?fin \<le> USER_SPACE_TOP" by (rule range_ok_end [OF r])
  have fin: "unat ?fin = unat (p_vaddr ph) + unat (p_memsz ph)"
    using r unat_sub [of "p_memsz ph" USER_SPACE_TOP]
    by (auto simp: range_ok_def word_le_nat_alt unat_word_ariths USER_SPACE_TOP_def)
  let ?l = "(unat ?fin + 4095) div 4096"
  have f47: "unat ?fin \<le> 0x800000000000" using e by (simp add: USER_SPACE_TOP_def word_le_nat_alt)
  then have l: "unat (ALIGN_UP ?fin PAGE_SIZE) = 4096 * ?l" using unat_ALIGN_UP [of ?fin] by (simp add: mult.commute)
  have top: "?l \<le> 0x800000000" using f47 by simp
  obtain q s' where run: "map_pages pml4 (ALIGN_DOWN (p_vaddr ph) PAGE_SIZE) (ALIGN_UP ?fin PAGE_SIZE) file n ph s = Some (q, s')"
    "space_ok s' pml4" "loads_pages pml4 ?k ?l s s'" "q = 0 \<longrightarrow> (\<forall>w. ?k \<le> unat (vpn w) \<and> unat (vpn w) < ?l \<longrightarrow> mapped_for_user pml4 w s')"
    using map_pages_loads [OF ok unat_ALIGN_DOWN l align_up_user(1) [OF e]] by blast
  have "loads_pages pml4 ?k 0x800000000 s s'"
    by (rule loads_pages_mono [OF run(3) order.refl top])
  moreover have "m < ?l" if "m * 4096 < unat ?fin" for m using that by simp
  ultimately show ?thesis using run unfolding seg_vpns_def fin by blast
qed

lemma load_segments_loads:
  assumes "space_ok s pml4" and "highest \<le> USER_SPACE_TOP"
    and "\<forall>i \<in> set is. p_type (elf_phdr file (phoff + of_nat i * PHDR_SIZE)) = PT_LOAD \<longrightarrow>
      0x40000000 \<le> p_vaddr (elf_phdr file (phoff + of_nat i * PHDR_SIZE))"
  shows "\<exists>r s'. load_segments pml4 file image_size phoff is highest saw s = Some (r, s') \<and> space_ok s' pml4 \<and>
    loads_pages pml4 0x40000 0x800000000 s s' \<and>
    (\<forall>h b. r = Some (h, b) \<longrightarrow> h \<le> USER_SPACE_TOP \<and> highest \<le> h \<and>
      (\<forall>i \<in> set is. p_type (elf_phdr file (phoff + of_nat i * PHDR_SIZE)) = PT_LOAD \<longrightarrow>
         segment_ok (elf_phdr file (phoff + of_nat i * PHDR_SIZE)) image_size \<and>
         p_vaddr (elf_phdr file (phoff + of_nat i * PHDR_SIZE)) + p_memsz (elf_phdr file (phoff + of_nat i * PHDR_SIZE)) \<le> h \<and>
         (\<forall>w. seg_vpns (elf_phdr file (phoff + of_nat i * PHDR_SIZE)) (unat (vpn w)) \<longrightarrow> mapped_for_user pml4 w s')))"
  using assms
proof (induction "is" arbitrary: highest saw s)
  case (Cons i "is")
  let ?ph = "elf_phdr file (phoff + of_nat i * PHDR_SIZE)"
  let ?fin = "p_vaddr ?ph + p_memsz ?ph"
  show ?case
  proof (cases "p_type ?ph = PT_LOAD \<and> segment_ok ?ph image_size")
    case True
    then have sok: "p_type ?ph = PT_LOAD" "segment_ok ?ph image_size" by simp_all
    then have e: "?fin \<le> USER_SPACE_TOP" by (intro range_ok_end) (simp add: segment_ok_def)
    have "0x40000000 \<le> unat (p_vaddr ?ph)" using Cons.prems(3) True by (simp add: word_le_nat_alt)
    then have low: "0x40000 \<le> unat (p_vaddr ?ph) div 4096" using div_le_mono [of "0x40000000" _ 4096] by fastforce
    obtain r s1 where m: "map_pages pml4 (ALIGN_DOWN (p_vaddr ?ph) PAGE_SIZE) (ALIGN_UP ?fin PAGE_SIZE) file image_size ?ph s = Some (r, s1)"
      "space_ok s1 pml4" "loads_pages pml4 (unat (p_vaddr ?ph) div 4096) 0x800000000 s s1"
      "r = 0 \<longrightarrow> (\<forall>w. seg_vpns ?ph (unat (vpn w)) \<longrightarrow> mapped_for_user pml4 w s1)"
      using segment_loads [OF Cons.prems(1)] True by blast
    note T = loads_pages_trans [OF m(3), of _ _ _ "0x40000" "0x800000000"]
    have s1: "loads_pages pml4 0x40000 0x800000000 s s1" using loads_pages_mono [OF m(3) low order.refl] .
    let ?h = "if ?fin > highest then ?fin else highest"
    have h: "?h \<le> USER_SPACE_TOP" "highest \<le> ?h" "?fin \<le> ?h" using e Cons.prems(2) by auto
    have below: "\<forall>i \<in> set is. p_type (elf_phdr file (phoff + of_nat i * PHDR_SIZE)) = PT_LOAD \<longrightarrow>
      0x40000000 \<le> p_vaddr (elf_phdr file (phoff + of_nat i * PHDR_SIZE))" using Cons.prems(3) by simp
    from Cons.IH [OF m(2) h(1) below, of True] obtain q s' where
      s': "load_segments pml4 file image_size phoff is ?h True s1 = Some (q, s')" "space_ok s' pml4"
        "loads_pages pml4 0x40000 0x800000000 s1 s'" and
      R: "\<And>h b. q = Some (h, b) \<Longrightarrow> h \<le> USER_SPACE_TOP \<and> ?h \<le> h \<and>
      (\<forall>i \<in> set is. p_type (elf_phdr file (phoff + of_nat i * PHDR_SIZE)) = PT_LOAD \<longrightarrow>
         segment_ok (elf_phdr file (phoff + of_nat i * PHDR_SIZE)) image_size \<and>
         p_vaddr (elf_phdr file (phoff + of_nat i * PHDR_SIZE)) + p_memsz (elf_phdr file (phoff + of_nat i * PHDR_SIZE)) \<le> h \<and>
         (\<forall>w. seg_vpns (elf_phdr file (phoff + of_nat i * PHDR_SIZE)) (unat (vpn w)) \<longrightarrow> mapped_for_user pml4 w s'))"
      by blast
    have l: "loads_pages pml4 0x40000 0x800000000 s s'" using T(1) [OF s'(3)] low by simp
    have up: "mapped_for_user pml4 w s1 \<Longrightarrow> mapped_for_user pml4 w s'" for w using T(2) [OF s'(3)] low by simp
    show ?thesis
    proof (cases "r = 0")
      case True
      have "load_segments pml4 file image_size phoff (i # is) highest saw s = Some (q, s')"
        using sok m(1) s'(1) True by (simp add: Let_def)
      moreover have "h' \<le> USER_SPACE_TOP \<and> highest \<le> h' \<and> ?fin \<le> h'" if "q = Some (h', b)" for h' b
        using R [OF that] h(2,3) by (meson order.trans)
      ultimately show ?thesis using s'(2) l R m(4) True up sok(2) by (intro exI [of _ q] exI [of _ s']) auto
    next
      case False
      then show ?thesis using sok m(1,2) s1 by (simp add: Let_def)
    qed
  next
    case False
    have below: "\<forall>i \<in> set is. p_type (elf_phdr file (phoff + of_nat i * PHDR_SIZE)) = PT_LOAD \<longrightarrow>
      0x40000000 \<le> p_vaddr (elf_phdr file (phoff + of_nat i * PHDR_SIZE))" using Cons.prems(3) by simp
    from Cons.IH [OF Cons.prems(1,2) below, of saw] False Cons.prems(1) show ?thesis by (cases "p_type ?ph = PT_LOAD") (auto simp: Let_def)
  qed
qed simp

lemma segment_addr:
  assumes "segment_ok ph n" and "p_vaddr ph \<le> w" and "w < p_vaddr ph + p_memsz ph"
  shows "seg_vpns ph (unat (vpn w))"
proof -
  have r: "range_ok (p_vaddr ph) (p_memsz ph) USER_SPACE_TOP" using assms(1) by (simp add: segment_ok_def)
  have fin: "unat (p_vaddr ph + p_memsz ph) = unat (p_vaddr ph) + unat (p_memsz ph)"
    using r unat_sub [of "p_memsz ph" USER_SPACE_TOP]
    by (auto simp: range_ok_def word_le_nat_alt unat_word_ariths USER_SPACE_TOP_def)
  have "w < USER_SPACE_TOP" using assms(3) range_ok_end [OF r] by (rule less_le_trans)
  then have v: "unat (vpn w) = unat w div 4096" by (rule unat_vpn)
  have "unat w div 4096 * 4096 \<le> unat w" by simp
  then show ?thesis
    using assms(2,3) div_le_mono unfolding seg_vpns_def v word_le_nat_alt word_less_nat_alt fin
    by (meson le_less_trans)
qed

text \<open>C8: for an image whose loadable segments keep out of the first gigabyte, however malformed it is
  otherwise, the loader returns: none of its loops runs forever and no frame operation panics. The
  address space stays well formed, and no translation of the first gigabyte or of the upper half, the
  parts shared with the kernel, changes. When the image is accepted, the entry point is the one of
  the header, inside the user half; the start of the heap is on a page boundary, not behind the end of
  the user half and not before the end of a segment; and every address of a loadable segment is mapped
  for the user.\<close>

theorem elf_load_user_image_returns:
  assumes ok: "space_ok s pml4" and above: "above_first_gib file"
  shows "\<exists>r s'. elf_load_user_image pml4 file image_size s = Some (r, s') \<and> space_ok s' pml4 \<and>
    (\<forall>w. unat (vpn w) < 0x40000 \<or> 0x800000000 \<le> unat (vpn w) \<longrightarrow> same_view pml4 w s s') \<and>
    (\<forall>img. r = Some img \<longrightarrow> entry img = e_entry (elf_ehdr file) \<and> 0 < entry img \<and> entry img < USER_SPACE_TOP \<and>
      brk_base img \<le> USER_SPACE_TOP \<and> unat (brk_base img) mod 4096 = 0 \<and>
      (\<forall>i < unat (e_phnum (elf_ehdr file)). let ph = phdr_of file i in p_type ph = PT_LOAD \<longrightarrow>
         p_vaddr ph + p_memsz ph \<le> brk_base img \<and>
         (\<forall>w. p_vaddr ph \<le> w \<and> w < p_vaddr ph + p_memsz ph \<longrightarrow> mapped_for_user pml4 w s')))"
proof (cases "pml4 = 0 \<or> image_size < EHDR_SIZE \<or> \<not> header_ok file image_size")
  case False
  let ?eh = "elf_ehdr file"
  have e: "e_entry ?eh \<noteq> 0" "e_entry ?eh < USER_SPACE_TOP" using False by (simp_all add: header_ok_def Let_def)
  have "\<forall>i \<in> set [0..<unat (e_phnum ?eh)]. p_type (elf_phdr file (e_phoff ?eh + of_nat i * PHDR_SIZE)) = PT_LOAD \<longrightarrow>
      0x40000000 \<le> p_vaddr (elf_phdr file (e_phoff ?eh + of_nat i * PHDR_SIZE))"
    using above by (simp add: above_first_gib_def phdr_of_def)
  from load_segments_loads [OF ok _ this, of 0 image_size False] obtain r s' where
    r: "load_segments pml4 file image_size (e_phoff ?eh) [0..<unat (e_phnum ?eh)] 0 False s = Some (r, s')"
    "space_ok s' pml4" "loads_pages pml4 0x40000 0x800000000 s s'" and
    R: "\<And>h b. r = Some (h, b) \<Longrightarrow> h \<le> USER_SPACE_TOP \<and> (\<forall>i < unat (e_phnum ?eh). p_type (phdr_of file i) = PT_LOAD \<longrightarrow>
        segment_ok (phdr_of file i) image_size \<and> p_vaddr (phdr_of file i) + p_memsz (phdr_of file i) \<le> h \<and>
        (\<forall>w. seg_vpns (phdr_of file i) (unat (vpn w)) \<longrightarrow> mapped_for_user pml4 w s'))"
    unfolding phdr_of_def by auto
  have k: "\<forall>w. unat (vpn w) < 0x40000 \<or> 0x800000000 \<le> unat (vpn w) \<longrightarrow> same_view pml4 w s s'"
    using r(3) by (simp add: loads_pages_def)
  show ?thesis
  proof (cases r)
    case None
    then show ?thesis using False r k by (simp add: elf_load_user_image_def Let_def)
  next
    case (Some hb)
    obtain h b where hb: "hb = (h, b)" by (cases hb)
    note H = R [OF Some [unfolded hb]]
    have seg: "p_vaddr ph + p_memsz ph \<le> ALIGN_UP h PAGE_SIZE \<and>
        (\<forall>w. p_vaddr ph \<le> w \<and> w < p_vaddr ph + p_memsz ph \<longrightarrow> mapped_for_user pml4 w s')"
      if "i < unat (e_phnum ?eh)" "ph = phdr_of file i" "p_type ph = PT_LOAD" for i ph
      using H that segment_addr align_up_user(2) [of h] by (meson order.trans)
    show ?thesis
    proof (cases b)
      case True
      then show ?thesis using False r(1,2) Some hb e align_up_user(1,3) [of h] H k seg
        by (simp add: elf_load_user_image_def Let_def word_gt_0)
    next
      case b: False
      then show ?thesis using False r(1,2) Some hb k by (simp add: elf_load_user_image_def Let_def)
    qed
  qed
qed (use ok in \<open>auto simp: elf_load_user_image_def same_view_def\<close>)

text \<open>An executable of 120 bytes: the header and one program header, which loads the file at 1 GiB.\<close>

definition elf_sample :: image where
  "elf_sample = (\<lambda>_. 0)(0 := 0x7F, 1 := 0x45, 2 := 0x4C, 3 := 0x46, 4 := 2, 5 := 1, 16 := 2, 18 := 62, 20 := 1,
     24 := 0x78, 27 := 0x40, 32 := 64, 52 := 64, 54 := 56, 56 := 1,
     64 := 1, 68 := 1, 83 := 0x40, 96 := 120, 104 := 120, 113 := 0x10)"

lemma elf_sample_headers:
  "e_phoff (elf_ehdr elf_sample) = 64" "e_phnum (elf_ehdr elf_sample) = 1" "e_entry (elf_ehdr elf_sample) = 0x40000078"
  "elf_phdr elf_sample 64 = \<lparr>p_type = PT_LOAD, p_flags = PF_X, p_offset = 0, p_vaddr = 0x40000000, p_paddr = 0,
     p_filesz = 120, p_memsz = 120, p_align = PAGE_SIZE\<rparr>"
  by (simp_all add: elf_ehdr_def elf_phdr_def elf_sample_def read_u64_def read_u32_def read_u16_def
      PT_LOAD_def PF_X_def PAGE_SIZE_def)

lemma elf_sample_ok: "header_ok elf_sample 120" "segment_ok (elf_phdr elf_sample 64) 120" "above_first_gib elf_sample"
proof -
  show "header_ok elf_sample 120"
    by (simp add: header_ok_def elf_ehdr_def elf_sample_def read_u64_def read_u32_def read_u16_def upt_rec
        range_ok_def EHDR_SIZE_def PHDR_SIZE_def USER_SPACE_TOP_def)
  show "segment_ok (elf_phdr elf_sample 64) 120"
    by (simp add: segment_ok_def elf_sample_headers range_ok_def USER_SPACE_TOP_def)
  show "above_first_gib elf_sample" by (simp add: above_first_gib_def phdr_of_def elf_sample_headers)
qed

lemma elf_sample_loads:
  "\<exists>s'. elf_load_user_image 0x1000 elf_sample 120 vm_sample = Some (Some \<lparr>entry = 0x40000078, brk_base = 0x40001000\<rparr>, s')"
proof -
  let ?ph = "elf_phdr elf_sample 64"
  have "\<not> in_large_page 0x1000 0x40000000 vm_sample" by (simp add: in_large_page_def vm_sample_leaf)
  moreover have "\<not> copy_refused ?ph (ALIGN_DOWN 0x40000000 PAGE_SIZE) 120"
    by (simp add: copy_refused_def elf_sample_headers ALIGN_DOWN_def PAGE_SIZE_def range_ok_def Let_def)
  moreover have "(0x40000000 :: u64) < USER_SPACE_TOP" by (simp add: USER_SPACE_TOP_def)
  ultimately obtain s' where s': "map_segment_page 0x1000 0x40000000 elf_sample 120 ?ph vm_sample = Some (0, s')"
    using map_segment_page_effect [OF vm_sample_ok, of "0x40000000" elf_sample 120 ?ph] vm_sample_pmm(4) by fastforce
  have "map_pages 0x1000 0x40000000 0x40001000 elf_sample 120 ?ph vm_sample = Some (0, s')"
    by (subst map_pages.simps) (simp add: s', subst map_pages.simps, simp add: PAGE_SIZE_def)
  moreover have "ALIGN_DOWN 0x40000000 PAGE_SIZE = (0x40000000 :: u64)" "ALIGN_UP 0x40000078 PAGE_SIZE = (0x40001000 :: u64)"
    by (simp_all add: ALIGN_DOWN_def ALIGN_UP_def PAGE_SIZE_def)
  ultimately have "load_segments 0x1000 elf_sample 120 64 [0] 0 False vm_sample = Some (Some (0x40000078, True), s')"
    using elf_sample_ok(2) by (simp add: Let_def) (simp add: elf_sample_headers)
  moreover have "ALIGN_UP 0x40000078 PAGE_SIZE = (0x40001000 :: u64)" by (simp add: ALIGN_UP_def PAGE_SIZE_def)
  ultimately show ?thesis using elf_sample_ok(1)
    by (simp add: elf_load_user_image_def elf_sample_headers EHDR_SIZE_def Let_def)
qed

theorem elf_load_user_image_returns_witness:
  "\<exists>img s'. elf_load_user_image 0x1000 elf_sample 120 vm_sample = Some (Some img, s') \<and> entry img = 0x40000078 \<and>
     brk_base img \<le> USER_SPACE_TOP \<and> mapped_for_user 0x1000 0x40000000 s' \<and> same_view 0x1000 0x200000 vm_sample s'"
proof -
  have "unat (vpn 0x200000) < 0x40000" by (simp add: vpn_def mask_eq_exp_minus_1)
  moreover have "e_phoff (elf_ehdr elf_sample) + of_nat 0 * PHDR_SIZE = 64" by (simp add: elf_sample_headers)
  ultimately show ?thesis
    using elf_load_user_image_returns [OF vm_sample_ok elf_sample_ok(3), of 120] elf_sample_loads
    by (auto simp: phdr_of_def Let_def elf_sample_headers)
qed

theorem elf_load_inside_image_witness:
  "elf_load_user_image 0x1000 elf_sample 120 vm_sample = elf_load_user_image 0x1000 (elf_sample(120 := 9, 5000 := 7)) 120 vm_sample \<and>
   (\<exists>img s'. elf_load_user_image 0x1000 elf_sample 120 vm_sample = Some (Some img, s'))"
proof
  show "elf_load_user_image 0x1000 elf_sample 120 vm_sample = elf_load_user_image 0x1000 (elf_sample(120 := 9, 5000 := 7)) 120 vm_sample"
    by (rule elf_load_inside_image) (auto simp: same_image_def)
  show "\<exists>img s'. elf_load_user_image 0x1000 elf_sample 120 vm_sample = Some (Some img, s')" using elf_sample_loads by blast
qed

end
