(* ===== verification/Task.thy ===== *)
theory Task
  imports Elf Vfs
begin

text \<open>
  Tasks, kernel/sched/task.c and kernel/sched/sched.c, and the context switch of
  arch/x86_64/cpu/context.asm. A task pointer is an address and the tasks are a map from addresses to
  records; \<open>k_mem\<close> is the memory of the kernel stacks. kmalloc is a sequence of answers, an address or 0;
  the blocks that kfree returns are not tracked, except that a freed task leaves the map. \<open>None\<close> is an
  access to a task that does not exist, or a loop that does not end. First all definitions, in the order
  of their use, then the linked lists of tasks behind an interface (\<open>task_list\<close>), which the list of all
  tasks and the list of zombies provide.
\<close>

section \<open>Data\<close>

definition TASK_NAME_MAX :: nat where "TASK_NAME_MAX = 32"
definition TASK_STACK_SIZE :: u64 where "TASK_STACK_SIZE = 8 * 1024"
definition USER_STACK_TOP :: u64 where "USER_STACK_TOP = 0x0000000040100000"
definition USER_MMAP_BASE :: u64 where "USER_MMAP_BASE = 0x0000000050000000"
definition WNOHANG :: u32 where "WNOHANG = 1"
definition ECHILD :: int where "ECHILD = 10"
definition EINVAL :: int where "EINVAL = 22"
definition ENOMEM :: int where "ENOMEM = 12"

datatype task_state = TASK_READY | TASK_RUNNING | TASK_BLOCKED | TASK_DEAD

text \<open>A pointer to a task is the address of the task, 0 is NULL.\<close>

type_synonym task_ptr = u64

record task =
  t_rsp :: u64
  t_cr3 :: u64
  t_pid :: u32
  t_state :: task_state
  t_name :: string
  t_stack_base :: u64
  t_user_mode :: bool
  t_user_entry :: u64
  t_user_stack_top :: u64
  t_brk_base :: u64
  t_brk_current :: u64
  t_mmap_next :: u64
  t_cwd :: string
  t_files :: "file_t list"
  t_parent :: task_ptr
  t_all_next :: task_ptr
  t_zombie_next :: task_ptr
  t_exit_code :: u32
  t_ticks :: u64
  t_next :: task_ptr

text \<open>The contents of a task that kzalloc cleared.\<close>

definition task_zero :: task where
  "task_zero = \<lparr>t_rsp = 0, t_cr3 = 0, t_pid = 0, t_state = TASK_READY, t_name = [], t_stack_base = 0,
     t_user_mode = False, t_user_entry = 0, t_user_stack_top = 0, t_brk_base = 0, t_brk_current = 0, t_mmap_next = 0,
     t_cwd = [], t_files = replicate VFS_MAX_FDS \<lparr>fd_vnode = None, fd_offset = 0, fd_valid = False\<rparr>,
     t_parent = 0, t_all_next = 0, t_zombie_next = 0, t_exit_code = 0, t_ticks = 0, t_next = 0\<rparr>"

text \<open>The registers that context_switch saves and restores, and the stack and instruction pointers.\<close>

record cpu =
  r_rsp :: u64
  r_rbx :: u64
  r_rbp :: u64
  r_r12 :: u64
  r_r13 :: u64
  r_r14 :: u64
  r_r15 :: u64
  r_rip :: u64

text \<open>The addresses of the code that new tasks start in.\<close>

record symbols =
  sym_task_trampoline :: u64
  sym_user_mode_enter :: u64
  sym_fork_return_to_user :: u64
  sym_idle_fn :: u64

record kstate =
  k_vm :: vmm_state
  k_mem :: mem
  k_heap :: "nat \<Rightarrow> u64"
  k_calls :: nat
  k_syms :: symbols
  k_cpu :: cpu
  k_if :: bool
  k_tss_rsp0 :: u64
  syscall_kernel_stack_top :: u64
  k_tasks :: "task_ptr \<Rightarrow> task option"
  current_task :: task_ptr
  next_pid :: u32
  all_tasks :: task_ptr
  zombie_tasks :: task_ptr
  init_task :: task_ptr
  run_queue_head :: task_ptr
  task_count :: u32
  idle_task :: task_ptr

text \<open>The next answer of the heap, an address or 0. Reading or writing a task that does not exist has no
  defined behaviour and gives \<open>None\<close>.\<close>

definition kmalloc_next :: "kstate \<Rightarrow> u64 \<times> kstate" where
  "kmalloc_next s = (k_heap s (k_calls s), s\<lparr>k_calls := Suc (k_calls s)\<rparr>)"

definition kzalloc_task :: "kstate \<Rightarrow> task_ptr \<times> kstate" where
  "kzalloc_task s = (let (t, s) = kmalloc_next s in (t, if t = 0 then s else s\<lparr>k_tasks := (k_tasks s)(t \<mapsto> task_zero)\<rparr>))"

definition kfree_task :: "task_ptr \<Rightarrow> kstate \<Rightarrow> kstate" where
  "kfree_task t s = s\<lparr>k_tasks := (k_tasks s)(t := None)\<rparr>"

definition mod_task :: "task_ptr \<Rightarrow> (task \<Rightarrow> task) \<Rightarrow> kstate \<Rightarrow> kstate option" where
  "mod_task t f s = map_option (\<lambda>x. s\<lparr>k_tasks := (k_tasks s)(t \<mapsto> f x)\<rparr>) (k_tasks s t)"

definition runnable :: "task \<Rightarrow> bool" where
  "runnable x \<longleftrightarrow> t_state x = TASK_READY \<or> t_state x = TASK_RUNNING"

section \<open>The lists of tasks\<close>

definition task_register :: "task_ptr \<Rightarrow> kstate \<Rightarrow> kstate option" where
  "task_register t s = do {
     s \<leftarrow> mod_task t (\<lambda>x. x\<lparr>t_parent := current_task s\<rparr>) s;
     x \<leftarrow> k_tasks s t;
     let s = (if t_pid x = 1 then s\<lparr>init_task := t\<rparr> else s);
     s \<leftarrow> mod_task t (\<lambda>x. x\<lparr>t_all_next := all_tasks s\<rparr>) s;
     Some (s\<lparr>all_tasks := t\<rparr>)
   }"

partial_function (option) reparent_loop :: "task_ptr \<Rightarrow> task_ptr \<Rightarrow> task_ptr \<Rightarrow> kstate \<Rightarrow> kstate option" where
  "reparent_loop t parent new_parent s =
     (if t = 0 then Some s
      else do {
        x \<leftarrow> k_tasks s t;
        s \<leftarrow> (if t_parent x = parent then mod_task t (\<lambda>x. x\<lparr>t_parent := new_parent\<rparr>) s else Some s);
        reparent_loop (t_all_next x) parent new_parent s
      })"

text \<open>\<open>init_task && init_task != parent && init_task->state != TASK_DEAD\<close>\<close>

definition adoptive_parent :: "task_ptr \<Rightarrow> kstate \<Rightarrow> task_ptr option" where
  "adoptive_parent parent s =
     (if init_task s \<noteq> 0 \<and> init_task s \<noteq> parent then do {
        x \<leftarrow> k_tasks s (init_task s);
        Some (if t_state x \<noteq> TASK_DEAD then init_task s else 0)
      }
      else Some 0)"

text \<open>A blocked task becomes ready.\<close>

definition wake :: "task_ptr \<Rightarrow> kstate \<Rightarrow> kstate option" where
  "wake t s =
     (if t = 0 then Some s
      else do {
        x \<leftarrow> k_tasks s t;
        if t_state x = TASK_BLOCKED then mod_task t (\<lambda>x. x\<lparr>t_state := TASK_READY\<rparr>) s else Some s
      })"

definition reparent_children :: "task_ptr \<Rightarrow> kstate \<Rightarrow> kstate option" where
  "reparent_children parent s =
     (if parent = 0 then Some s
      else do {
        new_parent \<leftarrow> adoptive_parent parent s;
        s \<leftarrow> reparent_loop (all_tasks s) parent new_parent s;
        wake new_parent s
      })"

text \<open>The loop over the links \<open>task_t **link\<close>: \<open>prev\<close> is the task whose link it is, 0 for \<open>all_tasks\<close>.\<close>

partial_function (option) unregister_loop :: "task_ptr \<Rightarrow> task_ptr \<Rightarrow> task_ptr \<Rightarrow> kstate \<Rightarrow> kstate option" where
  "unregister_loop prev cur t s =
     (if cur = 0 then Some s
      else if cur = t then do {
        x \<leftarrow> k_tasks s t;
        s \<leftarrow> (if prev = 0 then Some (s\<lparr>all_tasks := t_all_next x\<rparr>) else mod_task prev (\<lambda>p. p\<lparr>t_all_next := t_all_next x\<rparr>) s);
        mod_task t (\<lambda>x. x\<lparr>t_all_next := 0\<rparr>) s
      }
      else do {
        x \<leftarrow> k_tasks s cur;
        unregister_loop cur (t_all_next x) t s
      })"

definition task_unregister :: "task_ptr \<Rightarrow> kstate \<Rightarrow> kstate option" where
  "task_unregister t s = unregister_loop 0 (all_tasks s) t s"

definition task_zombify :: "task_ptr \<Rightarrow> kstate \<Rightarrow> kstate option" where
  "task_zombify t s =
     (if t = 0 then Some s
      else do {
        x \<leftarrow> k_tasks s t;
        if t_zombie_next x \<noteq> 0 then Some s
        else do {
          s \<leftarrow> reparent_children t s;
          s \<leftarrow> mod_task t (\<lambda>x. x\<lparr>t_zombie_next := zombie_tasks s\<rparr>) s;
          let s = s\<lparr>zombie_tasks := t\<rparr>;
          x \<leftarrow> k_tasks s t;
          wake (t_parent x) s
        }
      })"

text \<open>The test of a child against the argument \<open>pid\<close> of waitpid.\<close>

definition child_matches :: "task_ptr \<Rightarrow> int \<Rightarrow> task \<Rightarrow> bool" where
  "child_matches parent pid x \<longleftrightarrow> t_parent x = parent \<and> (pid = -1 \<or> sint (t_pid x) = pid)"

partial_function (option) has_child_loop :: "task_ptr \<Rightarrow> task_ptr \<Rightarrow> int \<Rightarrow> kstate \<Rightarrow> bool option" where
  "has_child_loop t parent pid s =
     (if t = 0 then Some False
      else do {
        x \<leftarrow> k_tasks s t;
        if child_matches parent pid x then Some True else has_child_loop (t_all_next x) parent pid s
      })"

definition task_has_child :: "task_ptr \<Rightarrow> int \<Rightarrow> kstate \<Rightarrow> bool option" where
  "task_has_child parent pid s = has_child_loop (all_tasks s) parent pid s"

text \<open>\<open>*link = z->zombie_next; z->zombie_next = NULL; task_unregister(z)\<close>\<close>

definition unlink_zombie :: "task_ptr \<Rightarrow> task_ptr \<Rightarrow> kstate \<Rightarrow> kstate option" where
  "unlink_zombie prev z s = do {
     x \<leftarrow> k_tasks s z;
     s \<leftarrow> (if prev = 0 then Some (s\<lparr>zombie_tasks := t_zombie_next x\<rparr>) else mod_task prev (\<lambda>p. p\<lparr>t_zombie_next := t_zombie_next x\<rparr>) s);
     s \<leftarrow> mod_task z (\<lambda>x. x\<lparr>t_zombie_next := 0\<rparr>) s;
     task_unregister z s
   }"

partial_function (option) take_zombie_loop :: "task_ptr \<Rightarrow> task_ptr \<Rightarrow> task_ptr \<Rightarrow> int \<Rightarrow> kstate \<Rightarrow> (task_ptr \<times> kstate) option" where
  "take_zombie_loop prev z parent pid s =
     (if z = 0 then Some (0, s)
      else do {
        x \<leftarrow> k_tasks s z;
        if child_matches parent pid x then do {
          s \<leftarrow> unlink_zombie prev z s;
          Some (z, s)
        }
        else take_zombie_loop z (t_zombie_next x) parent pid s
      })"

definition take_zombie :: "task_ptr \<Rightarrow> int \<Rightarrow> kstate \<Rightarrow> (task_ptr \<times> kstate) option" where
  "take_zombie parent pid s = take_zombie_loop 0 (zombie_tasks s) parent pid s"

definition task_free :: "task_ptr \<Rightarrow> kstate \<Rightarrow> kstate option" where
  "task_free t s = do {
     x \<leftarrow> k_tasks s t;
     s \<leftarrow> (if t_user_mode x \<and> t_cr3 x \<noteq> 0
           then map_option (\<lambda>vm. s\<lparr>k_vm := vm\<rparr>) (vmm_destroy_user_address_space (t_cr3 x) (k_vm s)) else Some s);
     Some (kfree_task t s)
   }"

text \<open>A reaped zombie leaves the link where it is, so \<open>prev\<close> stays.\<close>

partial_function (option) reap_loop :: "task_ptr \<Rightarrow> task_ptr \<Rightarrow> kstate \<Rightarrow> kstate option" where
  "reap_loop prev z s =
     (if z = 0 then Some s
      else do {
        x \<leftarrow> k_tasks s z;
        if z = current_task s \<or> t_parent x \<noteq> 0 then reap_loop z (t_zombie_next x) s
        else do {
          s \<leftarrow> unlink_zombie prev z s;
          s \<leftarrow> task_free z s;
          reap_loop prev (t_zombie_next x) s
        }
      })"

definition task_reap_detached_zombies :: "kstate \<Rightarrow> kstate option" where
  "task_reap_detached_zombies s = reap_loop 0 (zombie_tasks s) s"

record task_info =
  ti_pid :: u32
  ti_ppid :: u32
  ti_state :: u32
  ti_user_mode :: u32
  ti_ticks :: u64
  ti_name :: string

definition task_state_value :: "task_state \<Rightarrow> u32" where
  "task_state_value st = (case st of TASK_READY \<Rightarrow> 0 | TASK_RUNNING \<Rightarrow> 1 | TASK_BLOCKED \<Rightarrow> 2 | TASK_DEAD \<Rightarrow> 3)"

partial_function (option) get_info_loop :: "task_ptr \<Rightarrow> u32 \<Rightarrow> u32 \<Rightarrow> kstate \<Rightarrow> (int \<times> task_info option) option" where
  "get_info_loop t i index s =
     (if t = 0 then Some (- EINVAL, None)
      else do {
        x \<leftarrow> k_tasks s t;
        if i \<noteq> index then get_info_loop (t_all_next x) (i + 1) index s
        else do {
          ppid \<leftarrow> (if t_parent x \<noteq> 0 then map_option t_pid (k_tasks s (t_parent x)) else Some 0);
          Some (0, Some \<lparr>ti_pid = t_pid x, ti_ppid = ppid, ti_state = task_state_value (t_state x),
            ti_user_mode = (if t_user_mode x then 1 else 0), ti_ticks = t_ticks x, ti_name = take (TASK_NAME_MAX - 1) (t_name x)\<rparr>)
        }
      })"

definition task_get_info :: "u32 \<Rightarrow> kstate \<Rightarrow> (int \<times> task_info option) option" where
  "task_get_info index s = get_info_loop (all_tasks s) 0 index s"

section \<open>The scheduler\<close>

definition sched_init :: "kstate \<Rightarrow> kstate" where
  "sched_init s = s\<lparr>run_queue_head := 0, task_count := 0\<rparr>"

text \<open>The interrupt flag is saved, cleared and restored.\<close>

definition sched_add :: "task_ptr \<Rightarrow> kstate \<Rightarrow> kstate option" where
  "sched_add t s = do {
     s \<leftarrow> (if run_queue_head s = 0 then do {
             s \<leftarrow> mod_task t (\<lambda>x. x\<lparr>t_next := t\<rparr>) s;
             Some (s\<lparr>run_queue_head := t\<rparr>)
           }
           else do {
             let insert_after = (if current_task s \<noteq> 0 then current_task s else run_queue_head s);
             a \<leftarrow> k_tasks s insert_after;
             s \<leftarrow> mod_task t (\<lambda>x. x\<lparr>t_next := t_next a\<rparr>) s;
             mod_task insert_after (\<lambda>x. x\<lparr>t_next := t\<rparr>) s
           });
     Some (s\<lparr>task_count := task_count s + 1\<rparr>)
   }"

partial_function (option) find_prev :: "task_ptr \<Rightarrow> task_ptr \<Rightarrow> kstate \<Rightarrow> task_ptr option" where
  "find_prev prev t s = do {
     p \<leftarrow> k_tasks s prev;
     if t_next p \<noteq> t \<and> t_next p \<noteq> run_queue_head s then find_prev (t_next p) t s else Some prev
   }"

definition sched_remove :: "task_ptr \<Rightarrow> kstate \<Rightarrow> kstate option" where
  "sched_remove t s =
     (if run_queue_head s = 0 \<or> task_count s = 0 then Some s
      else do {
        prev \<leftarrow> find_prev (run_queue_head s) t s;
        p \<leftarrow> k_tasks s prev;
        if t_next p = t then do {
          x \<leftarrow> k_tasks s t;
          s \<leftarrow> (if t_next x = t then Some (s\<lparr>run_queue_head := 0\<rparr>)
                else do {
                  s \<leftarrow> mod_task prev (\<lambda>p. p\<lparr>t_next := t_next x\<rparr>) s;
                  x \<leftarrow> k_tasks s t;
                  Some (if run_queue_head s = t then s\<lparr>run_queue_head := t_next x\<rparr> else s)
                });
          Some (s\<lparr>task_count := task_count s - 1\<rparr>)
        }
        else Some s
      })"

text \<open>The loop that looks for a runnable task, with the number of its remaining rounds.\<close>

fun pick_next :: "nat \<Rightarrow> task_ptr \<Rightarrow> kstate \<Rightarrow> task_ptr option" where
  "pick_next 0 nxt s = Some nxt"
| "pick_next (Suc n) nxt s =
     (if nxt = 0 then pick_next n nxt s
      else do {
        x \<leftarrow> k_tasks s nxt;
        if runnable x then Some nxt else pick_next n (t_next x) s
      })"

text \<open>The stack pushes of the call and of context_switch, from high to low addresses.\<close>

fun push_all :: "u64 list \<Rightarrow> u64 \<Rightarrow> mem \<Rightarrow> u64 \<times> mem" where
  "push_all [] rsp m = (rsp, m)"
| "push_all (v # vs) rsp m = push_all vs (rsp - 8) (write_u64 (rsp - 8) v m)"

definition context_switch :: "task_ptr \<Rightarrow> u64 \<Rightarrow> kstate \<Rightarrow> kstate option" where
  "context_switch old new_rsp s = do {
     let c = k_cpu s;
     let (rsp, m) = push_all [r_rip c, r_r15 c, r_r14 c, r_r13 c, r_r12 c, r_rbp c, r_rbx c] (r_rsp c) (k_mem s);
     s \<leftarrow> mod_task old (\<lambda>x. x\<lparr>t_rsp := rsp\<rparr>) (s\<lparr>k_mem := m\<rparr>);
     Some (s\<lparr>k_cpu := \<lparr>r_rsp = new_rsp + 56, r_rbx = read_u64 m new_rsp, r_rbp = read_u64 m (new_rsp + 8),
       r_r12 = read_u64 m (new_rsp + 16), r_r13 = read_u64 m (new_rsp + 24), r_r14 = read_u64 m (new_rsp + 32),
       r_r15 = read_u64 m (new_rsp + 40), r_rip = read_u64 m (new_rsp + 48)\<rparr>\<rparr>)
   }"

definition tss_set_rsp0 :: "u64 \<Rightarrow> kstate \<Rightarrow> kstate" where
  "tss_set_rsp0 rsp0 s = s\<lparr>k_tss_rsp0 := rsp0\<rparr>"

definition syscall_set_kernel_stack :: "u64 \<Rightarrow> kstate \<Rightarrow> kstate" where
  "syscall_set_kernel_stack stack_top s = s\<lparr>syscall_kernel_stack_top := stack_top\<rparr>"

text \<open>The part that retires a dead task or makes the running one ready; it may change the choice.\<close>

definition retire_current :: "task_ptr \<Rightarrow> kstate \<Rightarrow> (task_ptr \<times> kstate) option" where
  "retire_current nxt s = do {
     c \<leftarrow> k_tasks s (current_task s);
     if t_state c = TASK_DEAD then do {
       let parent = t_parent c;
       s \<leftarrow> sched_remove (current_task s) s;
       s \<leftarrow> task_zombify (current_task s) s;
       if parent = 0 then Some (nxt, s)
       else do {
         p \<leftarrow> k_tasks s parent;
         Some (if runnable p then parent else nxt, s)
       }
     }
     else if t_state c = TASK_RUNNING then do {
       s \<leftarrow> mod_task (current_task s) (\<lambda>x. x\<lparr>t_state := TASK_READY\<rparr>) s;
       Some (nxt, s)
     }
     else Some (nxt, s)
   }"

text \<open>The chosen task, or the idle task when it cannot run.\<close>

definition or_idle :: "task_ptr \<Rightarrow> kstate \<Rightarrow> task_ptr option" where
  "or_idle nxt s =
     (if nxt = 0 then Some (idle_task s)
      else do {
        x \<leftarrow> k_tasks s nxt;
        Some (if runnable x then nxt else idle_task s)
      })"

definition switch_to :: "task_ptr \<Rightarrow> kstate \<Rightarrow> kstate option" where
  "switch_to nxt s = do {
     n \<leftarrow> k_tasks s nxt;
     let next_stack_top = t_stack_base n + TASK_STACK_SIZE;
     let s = syscall_set_kernel_stack next_stack_top (tss_set_rsp0 next_stack_top s);
     let old = current_task s;
     s \<leftarrow> mod_task nxt (\<lambda>x. x\<lparr>t_state := TASK_RUNNING\<rparr>) (s\<lparr>current_task := nxt\<rparr>);
     x \<leftarrow> k_tasks s old;
     let s = (if t_cr3 x \<noteq> t_cr3 n then s\<lparr>k_vm := vmm_switch (t_cr3 n) (k_vm s)\<rparr> else s);
     context_switch old (t_rsp n) s
   }"

definition schedule :: "kstate \<Rightarrow> kstate option" where
  "schedule s =
     (let s = s\<lparr>k_if := False\<rparr> in
      if current_task s = 0 then Some (s\<lparr>k_if := True\<rparr>)
      else do {
        c \<leftarrow> k_tasks s (current_task s);
        nxt \<leftarrow> pick_next (unat (task_count s)) (t_next c) s;
        (nxt, s) \<leftarrow> retire_current nxt s;
        nxt \<leftarrow> or_idle nxt s;
        if nxt = 0 \<or> nxt = current_task s then do {
          s \<leftarrow> mod_task (current_task s) (\<lambda>x. x\<lparr>t_state := TASK_RUNNING\<rparr>) s;
          Some (s\<lparr>k_if := True\<rparr>)
        }
        else switch_to nxt s
      })"

definition sched_yield :: "kstate \<Rightarrow> kstate option" where
  "sched_yield s = schedule s"

definition sched_tick :: "kstate \<Rightarrow> kstate option" where
  "sched_tick s = do {
     s \<leftarrow> (if current_task s \<noteq> 0 then mod_task (current_task s) (\<lambda>x. x\<lparr>t_ticks := t_ticks x + 1\<rparr>) s else Some s);
     schedule s
   }"

section \<open>Tasks\<close>

definition build_initial_stack :: "task_ptr \<Rightarrow> u64 \<Rightarrow> u64 \<Rightarrow> u64 \<Rightarrow> kstate \<Rightarrow> kstate option" where
  "build_initial_stack t ret_target r12 r13 s = do {
     x \<leftarrow> k_tasks s t;
     let (stk, m) = push_all [ret_target, 0, 0, r13, r12, 0, 0] (t_stack_base x + TASK_STACK_SIZE) (k_mem s);
     mod_task t (\<lambda>x. x\<lparr>t_rsp := stk\<rparr>) (s\<lparr>k_mem := m\<rparr>)
   }"

definition task_create :: "string \<Rightarrow> u64 \<Rightarrow> u64 \<Rightarrow> kstate \<Rightarrow> (task_ptr \<times> kstate) option" where
  "task_create name fn arg s =
     (let (t, s) = kzalloc_task s in
      if t = 0 then Some (0, s)
      else let (stack, s) = kmalloc_next s in
      if stack = 0 then Some (0, kfree_task t s)
      else do {
        s \<leftarrow> mod_task t (\<lambda>x. x\<lparr>t_stack_base := stack, t_pid := next_pid s, t_state := TASK_READY, t_cwd := ''/'',
               t_name := take (TASK_NAME_MAX - 1) name, t_cr3 := vm_cr3 (k_vm s)\<rparr>) s;
        let s = s\<lparr>next_pid := next_pid s + 1\<rparr>;
        s \<leftarrow> build_initial_stack t (sym_task_trampoline (k_syms s)) fn arg s;
        s \<leftarrow> task_register t s;
        s \<leftarrow> sched_add t s;
        Some (t, s)
      })"

text \<open>The address space of a new program: root, entry point, stack top, stack frame and heap start.\<close>

definition load_user_image :: "image \<Rightarrow> u64 \<Rightarrow> vmm_state \<Rightarrow> ((u64 \<times> u64 \<times> u64 \<times> u64 \<times> u64) option \<times> vmm_state) option" where
  "load_user_image file image_size s =
     (if image_size = 0 then Some (None, s)
      else do {
        (pml4, s) \<leftarrow> vmm_create_address_space s;
        if pml4 = 0 then Some (None, s)
        else do {
          (loaded, s) \<leftarrow> elf_load_user_image pml4 file image_size s;
          case loaded of
            None \<Rightarrow> do {
              s \<leftarrow> vmm_destroy_user_address_space pml4 s;
              Some (None, s)
            }
          | Some img \<Rightarrow> do {
              let (stack_phys, s) = vmm_alloc_frame s;
              if stack_phys = PMM_ALLOC_FAILED then do {
                s \<leftarrow> vmm_destroy_user_address_space pml4 s;
                Some (None, s)
              }
              else do {
                let s = zero_page stack_phys s;
                let (r, s) = vmm_map_page pml4 (USER_STACK_TOP - PAGE_SIZE) stack_phys (VMM_USER OR VMM_WRITE OR VMM_NX) s;
                if r \<noteq> 0 then do {
                  s \<leftarrow> vmm_free_frame stack_phys s;
                  s \<leftarrow> vmm_destroy_user_address_space pml4 s;
                  Some (None, s)
                }
                else Some (Some (pml4, entry img, USER_STACK_TOP, stack_phys, brk_base img), s)
              }
            }
        }
      })"

definition task_create_user_elf :: "string \<Rightarrow> image \<Rightarrow> u64 \<Rightarrow> kstate \<Rightarrow> (task_ptr \<times> kstate) option" where
  "task_create_user_elf name file image_size s =
     (if image_size = 0 then Some (0, s)
      else let (t, s) = kzalloc_task s in
      if t = 0 then Some (0, s)
      else let (stack, s) = kmalloc_next s in
      if stack = 0 then Some (0, kfree_task t s)
      else do {
        (r, vm) \<leftarrow> load_user_image file image_size (k_vm s);
        let s = s\<lparr>k_vm := vm\<rparr>;
        case r of
          None \<Rightarrow> Some (0, kfree_task t s)
        | Some (cr3, ent, stack_top, stack_phys, brk) \<Rightarrow> do {
            s \<leftarrow> mod_task t (\<lambda>x. x\<lparr>t_stack_base := stack, t_pid := next_pid s, t_state := TASK_READY, t_cr3 := cr3,
                   t_user_mode := True, t_user_entry := ent, t_user_stack_top := stack_top, t_brk_base := brk,
                   t_brk_current := brk, t_mmap_next := USER_MMAP_BASE, t_cwd := ''/'',
                   t_name := take (TASK_NAME_MAX - 1) name\<rparr>) s;
            let s = s\<lparr>next_pid := next_pid s + 1\<rparr>;
            s \<leftarrow> build_initial_stack t (sym_user_mode_enter (k_syms s)) ent stack_top s;
            s \<leftarrow> task_register t s;
            s \<leftarrow> sched_add t s;
            Some (t, s)
          }
      })"

text \<open>memcpy of \<open>n\<close> bytes of a buffer to physical memory.\<close>

definition copy_bytes :: "u64 \<Rightarrow> u8 list \<Rightarrow> mem \<Rightarrow> mem" where
  "copy_bytes dst bs m = (\<lambda>a. if unat (a - dst) < length bs then bs ! unat (a - dst) else m a)"

text \<open>The program of a task is replaced; the result is the entry point and the initial stack pointer.
  \<open>stack_image\<close> is the contents of the stack page and the initial stack pointer, if the caller has them.\<close>

definition task_replace_user_elf ::
  "task_ptr \<Rightarrow> string option \<Rightarrow> image \<Rightarrow> u64 \<Rightarrow> (u8 list \<times> u64) option \<Rightarrow> kstate \<Rightarrow> ((u64 \<times> u64) option \<times> kstate) option" where
  "task_replace_user_elf t name file image_size stack_image s =
     (if t = 0 then Some (None, s)
      else do {
        x \<leftarrow> k_tasks s t;
        if \<not> t_user_mode x \<or> image_size = 0 then Some (None, s)
        else do {
          (r, vm) \<leftarrow> load_user_image file image_size (k_vm s);
          let s = s\<lparr>k_vm := vm\<rparr>;
          case r of
            None \<Rightarrow> Some (None, s)
          | Some (new_cr3, ent, stack_top, stack_phys, brk) \<Rightarrow>
              if (case stack_image of None \<Rightarrow> False
                  | Some (bs, rsp) \<Rightarrow> length bs > unat PAGE_SIZE \<or> rsp < stack_top - PAGE_SIZE \<or> rsp > stack_top) then do {
                vm \<leftarrow> vmm_destroy_user_address_space new_cr3 (k_vm s);
                Some (None, s\<lparr>k_vm := vm\<rparr>)
              }
              else do {
                let s = (case stack_image of None \<Rightarrow> s
                         | Some (bs, _) \<Rightarrow> s\<lparr>k_vm := (k_vm s)\<lparr>vm_mem := copy_bytes stack_phys bs (vm_mem (k_vm s))\<rparr>\<rparr>);
                let initial_rsp = (case stack_image of None \<Rightarrow> stack_top | Some (_, rsp) \<Rightarrow> rsp);
                let old_cr3 = t_cr3 x;
                s \<leftarrow> mod_task t (\<lambda>x. x\<lparr>t_cr3 := new_cr3, t_user_entry := ent, t_user_stack_top := stack_top,
                       t_brk_base := brk, t_brk_current := brk, t_mmap_next := USER_MMAP_BASE,
                       t_name := (case name of None \<Rightarrow> t_name x | Some n \<Rightarrow> take (TASK_NAME_MAX - 1) n)\<rparr>) s;
                let s = (if t = current_task s then s\<lparr>k_vm := vmm_switch new_cr3 (k_vm s)\<rparr> else s);
                s \<leftarrow> (if old_cr3 \<noteq> 0 then map_option (\<lambda>vm. s\<lparr>k_vm := vm\<rparr>) (vmm_destroy_user_address_space old_cr3 (k_vm s))
                      else Some s);
                Some (Some (ent, initial_rsp), s)
              }
        }
      })"

section \<open>fork, exit and wait\<close>

record syscall_frame =
  f_r15 :: u64
  f_r14 :: u64
  f_r13 :: u64
  f_r12 :: u64
  f_r11 :: u64
  f_r10 :: u64
  f_r9 :: u64
  f_r8 :: u64
  f_rbp :: u64
  f_rdi :: u64
  f_rsi :: u64
  f_rdx :: u64
  f_rcx :: u64
  f_rbx :: u64
  f_rax :: u64
  f_user_rip :: u64
  f_user_rflags :: u64
  f_user_rsp :: u64

text \<open>The frame in memory, from low to high addresses.\<close>

definition frame_words :: "syscall_frame \<Rightarrow> u64 list" where
  "frame_words f = [f_r15 f, f_r14 f, f_r13 f, f_r12 f, f_r11 f, f_r10 f, f_r9 f, f_r8 f, f_rbp f, f_rdi f, f_rsi f,
     f_rdx f, f_rcx f, f_rbx f, f_rax f, f_user_rip f, f_user_rflags f, f_user_rsp f]"

fun write_words :: "u64 \<Rightarrow> u64 list \<Rightarrow> mem \<Rightarrow> mem" where
  "write_words a [] m = m"
| "write_words a (w # ws) m = write_words (a + 8) ws (write_u64 a w m)"

definition task_fork_from_frame :: "syscall_frame \<Rightarrow> kstate \<Rightarrow> (int \<times> kstate) option" where
  "task_fork_from_frame frame s =
     (if current_task s = 0 then Some (- EINVAL, s)
      else do {
        c \<leftarrow> k_tasks s (current_task s);
        if \<not> t_user_mode c then Some (- EINVAL, s)
        else let (child, s) = kzalloc_task s in
        if child = 0 then Some (- ENOMEM, s)
        else let (stack, s) = kmalloc_next s in
        if stack = 0 then Some (- ENOMEM, kfree_task child s)
        else do {
          (pml4, vm) \<leftarrow> vmm_clone_user_address_space (t_cr3 c) (k_vm s);
          let s = s\<lparr>k_vm := vm\<rparr>;
          if pml4 = 0 then Some (- ENOMEM, kfree_task child s)
          else do {
            let child_frame = stack + TASK_STACK_SIZE - 512;
            let s = s\<lparr>k_mem := write_words child_frame (frame_words (frame\<lparr>f_rax := 0\<rparr>)) (k_mem s)\<rparr>;
            s \<leftarrow> mod_task child (\<lambda>x. x\<lparr>t_stack_base := stack, t_pid := next_pid s, t_state := TASK_READY, t_cr3 := pml4,
                   t_user_mode := True, t_user_entry := t_user_entry c, t_user_stack_top := t_user_stack_top c,
                   t_brk_base := t_brk_base c, t_brk_current := t_brk_current c, t_mmap_next := t_mmap_next c,
                   t_cwd := take (VFS_MAX_PATH - 1) (t_cwd c), t_files := t_files c,
                   t_name := take (TASK_NAME_MAX - 1) (t_name c)\<rparr>) s;
            let pid = next_pid s;
            let s = s\<lparr>next_pid := next_pid s + 1\<rparr>;
            s \<leftarrow> build_initial_stack child (sym_fork_return_to_user (k_syms s)) child_frame 0 s;
            s \<leftarrow> task_register child s;
            s \<leftarrow> sched_add child s;
            Some (uint pid, s)
          }
        }
      })"

definition task_exit :: "u32 \<Rightarrow> kstate \<Rightarrow> kstate option" where
  "task_exit code s = do {
     s \<leftarrow> mod_task (current_task s) (\<lambda>x. x\<lparr>t_exit_code := code, t_state := TASK_DEAD\<rparr>) s;
     schedule s
   }"

text \<open>One round of waitpid: a result with the status word of the child, or the state after the task has
  blocked and given up the processor.\<close>

datatype wait_result = Waited int "u32 option" kstate | Waiting kstate

definition waitpid_round :: "int \<Rightarrow> u32 \<Rightarrow> kstate \<Rightarrow> wait_result option" where
  "waitpid_round pid options s = do {
     (z, s) \<leftarrow> take_zombie (current_task s) pid s;
     if z \<noteq> 0 then do {
       x \<leftarrow> k_tasks s z;
       s \<leftarrow> task_free z s;
       Some (Waited (uint (t_pid x)) (Some (push_bit 8 (t_exit_code x AND 0xFF))) s)
     }
     else do {
       child \<leftarrow> task_has_child (current_task s) pid s;
       if \<not> child then Some (Waited (- ECHILD) None s)
       else if options AND WNOHANG \<noteq> 0 then Some (Waited 0 None s)
       else do {
         s \<leftarrow> mod_task (current_task s) (\<lambda>x. x\<lparr>t_state := TASK_BLOCKED\<rparr>) s;
         s \<leftarrow> sched_yield s;
         Some (Waiting s)
       }
     }
   }"

text \<open>The loop of waitpid. \<open>others\<close> is what happens from giving up the processor until it comes back.\<close>

partial_function (option) waitpid_loop :: "(kstate \<Rightarrow> kstate) \<Rightarrow> int \<Rightarrow> u32 \<Rightarrow> kstate \<Rightarrow> (int \<times> u32 option \<times> kstate) option" where
  "waitpid_loop others pid options s = do {
     r \<leftarrow> waitpid_round pid options s;
     case r of
       Waited ret status s \<Rightarrow> Some (ret, status, s)
     | Waiting s \<Rightarrow> waitpid_loop others pid options (others s)
   }"

definition task_waitpid :: "(kstate \<Rightarrow> kstate) \<Rightarrow> int \<Rightarrow> u32 \<Rightarrow> kstate \<Rightarrow> (int \<times> u32 option \<times> kstate) option" where
  "task_waitpid others pid options s =
     (if pid = 0 \<or> pid < -1 \<or> options AND NOT WNOHANG \<noteq> 0 then Some (- EINVAL, None, s)
      else waitpid_loop others pid options s)"

section \<open>Starting the scheduler\<close>

text \<open>\<open>bootstrap\<close> is the address of the static task whose only use is to hold the stack pointer of kmain.
  A NULL idle task is accepted.\<close>

definition sched_start :: "task_ptr \<Rightarrow> task_ptr \<Rightarrow> kstate \<Rightarrow> kstate option" where
  "sched_start bootstrap first s = do {
     (idle, s) \<leftarrow> task_create ''idle'' (sym_idle_fn (k_syms s)) 0 s;
     let s = s\<lparr>idle_task := idle\<rparr>;
     let s = s\<lparr>k_tasks := (k_tasks s)(bootstrap \<mapsto> task_zero\<lparr>t_state := TASK_DEAD, t_name := ''bootstrap''\<rparr>)\<rparr>;
     let s = s\<lparr>current_task := first\<rparr>;
     s \<leftarrow> mod_task first (\<lambda>x. x\<lparr>t_state := TASK_RUNNING\<rparr>) s;
     f \<leftarrow> k_tasks s first;
     let first_stack_top = t_stack_base f + TASK_STACK_SIZE;
     let s = syscall_set_kernel_stack first_stack_top (tss_set_rsp0 first_stack_top s);
     let s = s\<lparr>k_vm := vmm_switch (t_cr3 f) (k_vm s)\<rparr>;
     context_switch bootstrap (t_rsp f) s
   }"

text \<open>One round of the idle task up to the hlt instruction.\<close>

definition idle_round :: "kstate \<Rightarrow> kstate option" where
  "idle_round s = do {
     s \<leftarrow> task_reap_detached_zombies s;
     s \<leftarrow> sched_yield s;
     Some (s\<lparr>k_if := True\<rparr>)
   }"

section \<open>Linked lists of tasks\<close>

text \<open>\<open>seg f p xs q\<close>: following the links \<open>f\<close> from \<open>p\<close> visits \<open>xs\<close> and ends at \<open>q\<close>.\<close>

fun seg :: "(task_ptr \<Rightarrow> task_ptr option) \<Rightarrow> task_ptr \<Rightarrow> task_ptr list \<Rightarrow> task_ptr \<Rightarrow> bool" where
  "seg f p [] q \<longleftrightarrow> p = q"
| "seg f p (x # xs) q \<longleftrightarrow> p = x \<and> x \<noteq> 0 \<and> (\<exists>n. f x = Some n \<and> seg f n xs q)"

definition links :: "(task \<Rightarrow> task_ptr) \<Rightarrow> (task_ptr \<Rightarrow> task option) \<Rightarrow> task_ptr \<Rightarrow> task_ptr option" where
  "links L m x = map_option L (m x)"

lemma links_upd [simp]: "links L (m(t \<mapsto> x)) = (links L m)(t \<mapsto> L x)"
  by (auto simp: links_def)

lemma links_Some: "links L m x = Some n \<longleftrightarrow> (\<exists>t. m x = Some t \<and> L t = n)"
  by (auto simp: links_def)

lemma seg_append: "seg f p (xs @ ys) q \<longleftrightarrow> (\<exists>r. seg f p xs r \<and> seg f r ys q)"
  by (induction xs arbitrary: p) auto

lemma seg_cong: "(\<And>x. x \<in> set xs \<Longrightarrow> f x = g x) \<Longrightarrow> seg f p xs q = seg g p xs q"
  by (induction xs arbitrary: p) auto

lemma seg_upd [simp]: "t \<notin> set xs \<Longrightarrow> seg (f(t := v)) p xs q = seg f p xs q"
  by (rule seg_cong) auto

lemma seg_nonzero: "seg f p xs q \<Longrightarrow> 0 \<notin> set xs"
  by (induction xs arbitrary: p) auto

lemma seg_mem: "seg f p xs q \<Longrightarrow> x \<in> set xs \<Longrightarrow> \<exists>n. f x = Some n"
  by (induction xs arbitrary: p) auto

lemma seg_unique: "seg f p xs q \<Longrightarrow> seg f p ys q \<Longrightarrow> q \<notin> set xs \<Longrightarrow> q \<notin> set ys \<Longrightarrow> xs = ys"
proof (induction xs arbitrary: p ys)
  case Nil
  then show ?case by (cases ys) auto
next
  case (Cons x xs)
  then show ?case by (cases ys) auto
qed

text \<open>Inserting \<open>t\<close> behind \<open>c\<close>, and taking \<open>t\<close> out from behind \<open>c\<close>.\<close>

lemma seg_insert:
  assumes "seg f p (as @ c # bs) q" "t \<notin> set (as @ c # bs)" "t \<noteq> 0" "distinct (as @ c # bs)"
  shows "seg (f(t := f c, c \<mapsto> t)) p (as @ c # t # bs) q"
  using assms by (auto simp: seg_append)

lemma seg_delete:
  assumes "seg f p (as @ c # t # bs) q" "distinct (as @ c # t # bs)"
  shows "seg (f(c := f t)) p (as @ c # bs) q"
  using assms by (auto simp: seg_append)

lemma seg_last:
  assumes "seg f p xs q" "xs \<noteq> []"
  shows "f (last xs) = Some q"
  using assms by (induction xs arbitrary: p) (auto split: if_splits)

lemma seg_redirect:
  assumes "seg f p xs q" "xs \<noteq> []" "distinct xs"
  shows "seg (f(last xs \<mapsto> r)) p xs r"
proof -
  have e: "xs = butlast xs @ [last xs]" using assms(2) by simp
  have "last xs \<notin> set (butlast xs)" using assms(2,3) by (metis append_butlast_last_id distinct_butlast not_distinct_conv_prefix)
  then show ?thesis using assms(1) by (subst (asm) e, subst e) (simp add: seg_append)
qed

text \<open>A list of tasks: its links, its head, and the two ways to set them.\<close>

locale task_list =
  fixes L :: "task \<Rightarrow> task_ptr" and setL :: "task_ptr \<Rightarrow> task \<Rightarrow> task"
    and hd_of :: "kstate \<Rightarrow> task_ptr" and set_hd :: "task_ptr \<Rightarrow> kstate \<Rightarrow> kstate"
  assumes L_set: "L (setL v x) = v"
    and hd_set: "hd_of (set_hd v s) = v"
    and tasks_set_hd: "k_tasks (set_hd v s) = k_tasks s"
    and hd_tasks: "hd_of (s\<lparr>k_tasks := m\<rparr>) = hd_of s"
begin

definition lst :: "kstate \<Rightarrow> task_ptr list \<Rightarrow> bool" where
  "lst s xs \<longleftrightarrow> seg (links L (k_tasks s)) (hd_of s) xs 0 \<and> distinct xs"

lemma lst_cong:
  assumes "hd_of s' = hd_of s" "\<And>t. t \<in> set xs \<Longrightarrow> map_option L (k_tasks s' t) = map_option L (k_tasks s t)"
  shows "lst s' xs = lst s xs"
proof -
  have "seg (links L (k_tasks s')) q xs 0 = seg (links L (k_tasks s)) q xs 0" for q
    using assms(2) by (intro seg_cong) (simp add: links_def)
  then show ?thesis using assms(1) by (simp add: lst_def)
qed

text \<open>The tasks after one was taken out: the link before it and its own link change.\<close>

definition unlinked :: "task_ptr list \<Rightarrow> task_ptr \<Rightarrow> task_ptr \<Rightarrow> (task_ptr \<Rightarrow> task option) \<Rightarrow> task_ptr \<Rightarrow> task option" where
  "unlinked as t n m = (if as = [] then m else m(last as := map_option (setL n) (m (last as))))"

lemma unlink_prev:
  assumes l: "lst s (as @ t # bs)" and x: "k_tasks s t = Some x" and p: "prev = (if as = [] then 0 else last as)"
  shows "(if prev = 0 then Some (set_hd (L x) s) else mod_task prev (setL (L x)) s) =
    Some ((if as = [] then set_hd (L x) s else s)\<lparr>k_tasks := unlinked as t (L x) (k_tasks s)\<rparr>)"
proof (cases "as = []")
  case True
  have "k_tasks s = k_tasks (set_hd (L x) s)" by (simp add: tasks_set_hd)
  then show ?thesis using True p by (simp add: unlinked_def)
next
  case False
  have sg: "seg (links L (k_tasks s)) (hd_of s) (as @ t # bs) 0" and m: "prev \<in> set (as @ t # bs)"
    using l False p by (simp_all add: lst_def)
  have "prev \<noteq> 0" using seg_nonzero [OF sg] m by metis
  moreover obtain y where "k_tasks s prev = Some y" using seg_mem [OF sg m] by (auto simp: links_Some)
  ultimately show ?thesis using False p by (simp add: mod_task_def unlinked_def)
qed

lemma unlink_lst:
  assumes l: "lst s (as @ t # bs)" and x: "k_tasks s t = Some x" and "hd_of s' = (if as = [] then L x else hd_of s)"
    and "\<And>y. y \<noteq> t \<Longrightarrow> links L (k_tasks s') y = links L (unlinked as t (L x) (k_tasks s)) y"
  shows "lst s' (as @ bs)"
proof -
  have d: "distinct (as @ t # bs)" and sg: "seg (links L (k_tasks s)) (hd_of s) (as @ t # bs) 0" using l by (simp_all add: lst_def)
  have "seg (links L (unlinked as t (L x) (k_tasks s))) (hd_of s') (as @ bs) 0"
  proof (cases "as = []")
    case True
    then show ?thesis using sg x assms(3) by (simp add: unlinked_def links_def)
  next
    case False
    define cs where "cs = butlast as"
    define c where "c = last as"
    have as: "as = cs @ [c]" using False by (simp add: cs_def c_def)
    obtain y where y: "k_tasks s c = Some y" using seg_mem [OF sg, of c] by (auto simp: as links_Some)
    have "seg ((links L (k_tasks s))(c := links L (k_tasks s) t)) (hd_of s) (cs @ c # bs) 0"
      using seg_delete [of _ _ cs c t bs] sg d by (simp add: as)
    moreover have "links L (unlinked as t (L x) (k_tasks s)) = (links L (k_tasks s))(c := links L (k_tasks s) t)"
      using x y by (simp add: unlinked_def as L_set) (simp add: links_def)
    ultimately show ?thesis using assms(3) False by (simp add: as)
  qed
  moreover have "seg (links L (k_tasks s')) (hd_of s') (as @ bs) 0 = seg (links L (unlinked as t (L x) (k_tasks s))) (hd_of s') (as @ bs) 0"
    using d by (intro seg_cong assms(4)) auto
  ultimately show ?thesis using d by (simp add: lst_def)
qed

end

interpretation all_list: task_list t_all_next "\<lambda>v x. x\<lparr>t_all_next := v\<rparr>" all_tasks "\<lambda>v s. s\<lparr>all_tasks := v\<rparr>"
  by unfold_locales simp_all

interpretation zombie_list: task_list t_zombie_next "\<lambda>v x. x\<lparr>t_zombie_next := v\<rparr>" zombie_tasks "\<lambda>v s. s\<lparr>zombie_tasks := v\<rparr>"
  by unfold_locales simp_all

lemma mod_task_Some [simp]: "k_tasks s t = Some x \<Longrightarrow> mod_task t f s = Some (s\<lparr>k_tasks := (k_tasks s)(t \<mapsto> f x)\<rparr>)"
  by (simp add: mod_task_def)

abbreviation all_lst :: "kstate \<Rightarrow> task_ptr list \<Rightarrow> bool" where
  "all_lst \<equiv> task_list.lst t_all_next all_tasks"

abbreviation zombie_lst :: "kstate \<Rightarrow> task_ptr list \<Rightarrow> bool" where
  "zombie_lst \<equiv> task_list.lst t_zombie_next zombie_tasks"

lemma all_lst_Cons:
  assumes "seg (links t_all_next m) p xs 0"
  shows "p = 0 \<longleftrightarrow> xs = []"
  using assms by (cases xs) auto

section \<open>The list of all tasks\<close>

definition reparent :: "task_ptr \<Rightarrow> task_ptr \<Rightarrow> task \<Rightarrow> task" where
  "reparent parent new_parent x = (if t_parent x = parent then x\<lparr>t_parent := new_parent\<rparr> else x)"

lemma reparent_fields [simp]:
  "t_all_next (reparent p n x) = t_all_next x" "t_zombie_next (reparent p n x) = t_zombie_next x" "t_next (reparent p n x) = t_next x"
  "t_state (reparent p n x) = t_state x" "t_pid (reparent p n x) = t_pid x"
  by (simp_all add: reparent_def)

lemma reparent_loop_spec:
  assumes "seg (links t_all_next (k_tasks s)) p xs 0" "distinct xs"
  shows "reparent_loop p parent new_parent s =
    Some (s\<lparr>k_tasks := (\<lambda>y. if y \<in> set xs then map_option (reparent parent new_parent) (k_tasks s y) else k_tasks s y)\<rparr>)"
  using assms
proof (induction xs arbitrary: p s)
  case Nil
  then show ?case by (subst reparent_loop.simps) simp
next
  case (Cons t xs)
  obtain x where x: "k_tasks s t = Some x" and sg: "seg (links t_all_next (k_tasks s)) (t_all_next x) xs 0" and p: "p = t" "t \<noteq> 0"
    using Cons.prems by (auto simp: links_Some)
  define s1 where "s1 = s\<lparr>k_tasks := (k_tasks s)(t \<mapsto> reparent parent new_parent x)\<rparr>"
  have "(if t_parent x = parent then mod_task t (\<lambda>x. x\<lparr>t_parent := new_parent\<rparr>) s else Some s) = Some s1"
    using x by (auto simp: s1_def reparent_def fun_upd_idem)
  then have "reparent_loop p parent new_parent s = reparent_loop (t_all_next x) parent new_parent s1"
    using x p by (subst reparent_loop.simps) (auto split: if_splits)
  also have "\<dots> = Some (s1\<lparr>k_tasks := (\<lambda>y. if y \<in> set xs then map_option (reparent parent new_parent) (k_tasks s1 y) else k_tasks s1 y)\<rparr>)"
  proof (rule Cons.IH)
    have "links t_all_next (k_tasks s1) y = links t_all_next (k_tasks s) y" if "y \<in> set xs" for y
      using that Cons.prems(2) by (auto simp: s1_def links_def)
    then show "seg (links t_all_next (k_tasks s1)) (t_all_next x) xs 0" using sg seg_cong by metis
  qed (use Cons.prems(2) in simp)
  also have "\<dots> = Some (s\<lparr>k_tasks := (\<lambda>y. if y \<in> set (t # xs) then map_option (reparent parent new_parent) (k_tasks s y) else k_tasks s y)\<rparr>)"
    using Cons.prems(2) x by (auto simp: s1_def fun_eq_iff intro!: arg_cong [where f = "\<lambda>m. s\<lparr>k_tasks := m\<rparr>"])
  finally show ?case .
qed

lemma has_child_loop_spec:
  assumes "seg (links t_all_next (k_tasks s)) p xs 0"
  shows "has_child_loop p parent pid s = Some (\<exists>t \<in> set xs. \<exists>x. k_tasks s t = Some x \<and> child_matches parent pid x)"
  using assms
proof (induction xs arbitrary: p)
  case Nil
  then show ?case by (subst has_child_loop.simps) simp
next
  case (Cons t xs)
  then obtain x where x: "k_tasks s t = Some x" "seg (links t_all_next (k_tasks s)) (t_all_next x) xs 0" "p = t" "t \<noteq> 0"
    by (auto simp: links_Some)
  then show ?case using Cons.IH [OF x(2)] by (subst has_child_loop.simps) auto
qed

lemma unregister_loop_spec:
  assumes l: "all_lst s (as @ t # bs)" and x: "k_tasks s t = Some x"
    and as: "as = cs @ ds" "prev = (if cs = [] then 0 else last cs)" "seg (links t_all_next (k_tasks s)) p (ds @ t # bs) 0"
  shows "unregister_loop prev p t s = Some ((if as = [] then s\<lparr>all_tasks := t_all_next x\<rparr> else s)
    \<lparr>k_tasks := (task_list.unlinked (\<lambda>v x. x\<lparr>t_all_next := v\<rparr>) as t (t_all_next x) (k_tasks s))(t \<mapsto> x\<lparr>t_all_next := 0\<rparr>)\<rparr>)"
  using as
proof (induction ds arbitrary: cs prev p)
  case Nil
  then have p: "p = t" "t \<noteq> 0" "prev = (if as = [] then 0 else last as)" by auto
  have d: "t \<notin> set as" using l by (simp add: all_list.lst_def)
  then have "task_list.unlinked (\<lambda>v x. x\<lparr>t_all_next := v\<rparr>) as t (t_all_next x) (k_tasks s) t = Some x"
    using x by (auto simp: all_list.unlinked_def)
  then show ?case using all_list.unlink_prev [OF l x p(3)] p(1,2) x by (subst unregister_loop.simps) simp
next
  case (Cons d ds)
  have ne: "d \<noteq> t" using l Cons.prems(1) by (auto simp: all_list.lst_def)
  obtain y where y: "k_tasks s d = Some y" "seg (links t_all_next (k_tasks s)) (t_all_next y) (ds @ t # bs) 0" "p = d" "d \<noteq> 0"
    using Cons.prems(3) by (auto simp: links_Some)
  have "unregister_loop prev p t s = unregister_loop d (t_all_next y) t s"
    using y ne by (subst unregister_loop.simps) simp
  then show ?case using Cons.IH [of "cs @ [d]" d "t_all_next y"] Cons.prems(1) y(2) by simp
qed

lemma task_unregister_spec:
  assumes l: "all_lst s (as @ t # bs)" and x: "k_tasks s t = Some x"
  shows "\<exists>s'. task_unregister t s = Some s' \<and> all_lst s' (as @ bs) \<and>
    s' = s\<lparr>all_tasks := all_tasks s', k_tasks := k_tasks s'\<rparr> \<and>
    (\<forall>y. \<exists>f. k_tasks s' y = map_option (\<lambda>z. z\<lparr>t_all_next := f\<rparr>) (k_tasks s y))"
proof -
  let ?m = "(task_list.unlinked (\<lambda>v x. x\<lparr>t_all_next := v\<rparr>) as t (t_all_next x) (k_tasks s))(t \<mapsto> x\<lparr>t_all_next := 0\<rparr>)"
  define s' where "s' = (if as = [] then s\<lparr>all_tasks := t_all_next x\<rparr> else s)\<lparr>k_tasks := ?m\<rparr>"
  have run: "task_unregister t s = Some s'"
    unfolding task_unregister_def s'_def
    by (rule unregister_loop_spec [OF l x, of "[]" as]) (use l in \<open>simp_all add: all_list.lst_def\<close>)
  have "all_lst s' (as @ bs)"
    by (rule all_list.unlink_lst [OF l x]) (auto simp: s'_def links_def)
  moreover have "\<exists>f. k_tasks s' y = map_option (\<lambda>z. z\<lparr>t_all_next := f\<rparr>) (k_tasks s y)" for y
  proof (cases "k_tasks s y")
    case (Some z)
    have "\<exists>f. z = z\<lparr>t_all_next := f\<rparr>" by (rule exI [of _ "t_all_next z"]) simp
    then show ?thesis using x Some by (auto simp: s'_def all_list.unlinked_def)
  qed (use x in \<open>auto simp: s'_def all_list.unlinked_def\<close>)
  ultimately show ?thesis using run by (simp add: s'_def)
qed

end
