(* ===== verification/Sched.thy ===== *)
theory Sched
  imports Task
begin

text \<open>
  The scheduler. The run queue is a ring (\<open>ring_ok\<close>); \<open>tasks_ok\<close> is the invariant of the three lists of
  tasks. The lemmas say what adding, removing, retiring and picking a task do to them; from these follow
  the correctness of schedule and the fairness of the round robin.
\<close>

section \<open>The run queue\<close>

text \<open>The run queue is a ring of tasks, listed from its head.\<close>

definition ring_ok :: "kstate \<Rightarrow> task_ptr list \<Rightarrow> bool" where
  "ring_ok s ring \<longleftrightarrow> distinct ring \<and> length ring < 2 ^ 32 \<and> task_count s = of_nat (length ring) \<and>
     (if ring = [] then run_queue_head s = 0
      else run_queue_head s = hd ring \<and> seg (links t_next (k_tasks s)) (hd ring) ring (hd ring))"

lemma ring_okD:
  assumes "ring_ok s ring"
  shows "distinct ring" "unat (task_count s) = length ring" "0 \<notin> set ring" "run_queue_head s = 0 \<longleftrightarrow> ring = []"
    "ring \<noteq> [] \<Longrightarrow> run_queue_head s = hd ring \<and> seg (links t_next (k_tasks s)) (hd ring) ring (hd ring)"
    "task_count s = 0 \<longleftrightarrow> ring = []"
proof -
  show c: "unat (task_count s) = length ring" using assms by (simp add: ring_ok_def unat_of_nat)
  show z: "0 \<notin> set ring" using assms seg_nonzero by (cases "ring = []") (auto simp: ring_ok_def)
  show "task_count s = 0 \<longleftrightarrow> ring = []" using c by (metis length_0_conv unat_eq_zero)
  show "run_queue_head s = 0 \<longleftrightarrow> ring = []" using assms z by (cases ring) (auto simp: ring_ok_def)
qed (use assms in \<open>auto simp: ring_ok_def\<close>)

lemma ring_task:
  assumes "ring_ok s ring" "t \<in> set ring"
  obtains x where "k_tasks s t = Some x"
  using assms seg_mem ring_okD(5) [OF assms(1)] by (metis empty_iff links_Some list.set(1))

lemma split_at [simp]:
  assumes "c \<notin> set as"
  shows "takeWhile (\<lambda>t. t \<noteq> c) (as @ c # bs) = as" "dropWhile (\<lambda>t. t \<noteq> c) (as @ c # bs) = c # bs"
  using assms by (induction as) auto

text \<open>What the run queue operations leave alone: everything but the links of the ring, its head and its length.\<close>

definition same_but_next :: "kstate \<Rightarrow> kstate \<Rightarrow> bool" where
  "same_but_next s s' \<longleftrightarrow> (\<exists>m h n. s' = s\<lparr>k_tasks := m, run_queue_head := h, task_count := n\<rparr>) \<and>
     (\<forall>y. \<exists>n. k_tasks s' y = map_option (\<lambda>z. z\<lparr>t_next := n\<rparr>) (k_tasks s y))"

lemma same_but_nextI:
  assumes "s' = s\<lparr>k_tasks := m, run_queue_head := h, task_count := n\<rparr>"
    and "\<And>y. m y = k_tasks s y \<or> (\<exists>n. m y = map_option (\<lambda>z. z\<lparr>t_next := n\<rparr>) (k_tasks s y))"
  shows "same_but_next s s'"
  unfolding same_but_next_def
proof (intro conjI allI)
  fix y
  show "\<exists>n. k_tasks s' y = map_option (\<lambda>z. z\<lparr>t_next := n\<rparr>) (k_tasks s y)"
  proof (cases "k_tasks s y")
    case (Some z)
    have "\<exists>f. z = z\<lparr>t_next := f\<rparr>" by (rule exI [of _ "t_next z"]) simp
    then show ?thesis using assms(2) [of y] Some by (auto simp: assms(1))
  qed (use assms(2) [of y] in \<open>auto simp: assms(1)\<close>)
qed (use assms(1) in blast)

lemma same_but_next_at:
  assumes "same_but_next s s'"
  shows "k_tasks s y = Some x \<Longrightarrow> \<exists>n. k_tasks s' y = Some (x\<lparr>t_next := n\<rparr>)" "k_tasks s y = None \<Longrightarrow> k_tasks s' y = None"
  using assms unfolding same_but_next_def by (metis option.simps(9), metis option.simps(8))

text \<open>The ring from behind a task up to the task itself.\<close>

definition from_after :: "task_ptr \<Rightarrow> task_ptr list \<Rightarrow> task_ptr list" where
  "from_after c ring = tl (dropWhile (\<lambda>t. t \<noteq> c) ring) @ takeWhile (\<lambda>t. t \<noteq> c) ring @ [c]"

lemma from_after_split:
  assumes "distinct (as @ c # bs)"
  shows "from_after c (as @ c # bs) = bs @ as @ [c]"
  using assms by (simp add: from_after_def)

lemma from_after_set: "c \<in> set ring \<Longrightarrow> distinct ring \<Longrightarrow> set (from_after c ring) = set ring \<and> length (from_after c ring) = length ring"
proof -
  assume "c \<in> set ring" "distinct ring"
  then obtain as bs where e: "ring = as @ c # bs" "distinct (as @ c # bs)" by (auto dest: split_list)
  show ?thesis unfolding e(1) from_after_split [OF e(2)] by auto
qed

lemma ring_from_after:
  assumes r: "ring_ok s ring" and c: "c \<in> set ring" "k_tasks s c = Some x"
  shows "seg (links t_next (k_tasks s)) (t_next x) (from_after c ring) (t_next x)"
proof -
  from c(1) obtain as bs where e: "ring = as @ c # bs" by (auto dest: split_list)
  have d: "distinct (as @ c # bs)" using ring_okD(1) [OF r] e by simp
  have sg: "seg (links t_next (k_tasks s)) (hd ring) (as @ c # bs) (hd ring)" and ne: "ring \<noteq> []" using ring_okD(5) [OF r] e by auto
  then obtain n where "seg (links t_next (k_tasks s)) (hd ring) as c" "c \<noteq> 0" "links t_next (k_tasks s) c = Some n"
    "seg (links t_next (k_tasks s)) n bs (hd ring)" by (auto simp: seg_append)
  then show ?thesis unfolding e from_after_split [OF d] using c(2) by (auto simp: seg_append links_def)
qed

lemma pick_next_spec:
  assumes "seg (links t_next (k_tasks s)) p xs q"
  shows "pick_next (length xs) p s = Some (case find (\<lambda>t. \<exists>x. k_tasks s t = Some x \<and> runnable x) xs of Some t \<Rightarrow> t | None \<Rightarrow> q)"
  using assms
proof (induction xs arbitrary: p)
  case (Cons t xs)
  then obtain x where x: "k_tasks s t = Some x" "seg (links t_next (k_tasks s)) (t_next x) xs q" "p = t" "t \<noteq> 0"
    by (auto simp: links_Some)
  then show ?case using Cons.IH [OF x(2)] by simp
qed simp

text \<open>sched_add puts the task behind the current one, or behind the head when no task runs.\<close>

definition ring_insert :: "task_ptr \<Rightarrow> task_ptr \<Rightarrow> task_ptr list \<Rightarrow> task_ptr list" where
  "ring_insert c t ring = (if ring = [] then [t] else takeWhile (\<lambda>x. x \<noteq> c) ring @ c # t # tl (dropWhile (\<lambda>x. x \<noteq> c) ring))"

lemma ring_insert_set: "c \<in> set ring \<or> ring = [] \<Longrightarrow> distinct ring \<Longrightarrow> t \<notin> set ring \<Longrightarrow>
    set (ring_insert c t ring) = insert t (set ring) \<and> distinct (ring_insert c t ring) \<and> length (ring_insert c t ring) = Suc (length ring)"
proof -
  assume a: "c \<in> set ring \<or> ring = []" "distinct ring" "t \<notin> set ring"
  show ?thesis
  proof (cases "ring = []")
    case False
    then obtain as bs where e: "ring = as @ c # bs" using a(1) split_list [of c ring] by auto
    then show ?thesis using a by (auto simp: ring_insert_def)
  qed (simp add: ring_insert_def)
qed

lemma sched_add_spec:
  assumes r: "ring_ok s ring" and t: "t \<notin> set ring" "t \<noteq> 0" "k_tasks s t = Some x" and len: "Suc (length ring) < 2 ^ 32"
    and c: "current_task s = 0 \<or> current_task s \<in> set ring" and cdef: "c = (if current_task s = 0 then run_queue_head s else current_task s)"
  shows "\<exists>s'. sched_add t s = Some s' \<and> ring_ok s' (ring_insert c t ring) \<and> same_but_next s s'"
proof (cases "ring = []")
  case True
  have h: "run_queue_head s = 0" "task_count s = 0" using ring_okD(4,6) [OF r] True by auto
  define s' where "s' = s\<lparr>k_tasks := (k_tasks s)(t \<mapsto> x\<lparr>t_next := t\<rparr>), run_queue_head := t, task_count := 1\<rparr>"
  have "sched_add t s = Some s'" using h t(3) by (simp add: sched_add_def s'_def)
  moreover have "ring_ok s' [t]" using t by (simp add: ring_ok_def s'_def links_def)
  moreover have "same_but_next s s'" using t(3) unfolding s'_def by (intro same_but_nextI [OF refl]) auto
  ultimately show ?thesis using True by (simp add: ring_insert_def)
next
  case False
  note R = ring_okD [OF r]
  have cr: "c \<in> set ring" using c cdef R(5) [OF False] False by (cases "current_task s = 0") auto
  then obtain as bs where e: "ring = as @ c # bs" by (auto dest: split_list)
  obtain y where y: "k_tasks s c = Some y" using ring_task [OF r cr] .
  have ct: "c \<noteq> t" using cr t(1) by auto
  have h: "run_queue_head s \<noteq> 0" using R(4) False by simp
  have ia: "(if current_task s \<noteq> 0 then current_task s else run_queue_head s) = c" using cdef by simp
  let ?m = "(k_tasks s)(t \<mapsto> x\<lparr>t_next := t_next y\<rparr>, c \<mapsto> y\<lparr>t_next := t\<rparr>)"
  define s' where "s' = s\<lparr>k_tasks := ?m, task_count := task_count s + 1\<rparr>"
  have run: "sched_add t s = Some s'" using h t(3) y ct ia by (simp add: sched_add_def s'_def Let_def)
  have d: "distinct (as @ c # bs)" and nt: "t \<notin> set (as @ c # bs)" using R(1) t(1) e by auto
  have sg: "seg (links t_next (k_tasks s)) (hd ring) (as @ c # bs) (hd ring)" using R(5) [OF False] e by simp
  have "links t_next ?m = (links t_next (k_tasks s))(t := links t_next (k_tasks s) c, c \<mapsto> t)"
    using y by (simp only: links_upd) (simp add: links_def)
  then have "seg (links t_next ?m) (hd ring) (as @ c # t # bs) (hd ring)"
    using seg_insert [OF sg nt t(2) d] by simp
  moreover have ri: "ring_insert c t ring = as @ c # t # bs" using d e by (simp add: ring_insert_def)
  moreover have "hd (as @ c # t # bs) = hd ring" using e by (cases as) simp_all
  moreover have "task_count s + 1 = of_nat (Suc (length ring))" using r by (simp add: ring_ok_def)
  ultimately have "ring_ok s' (ring_insert c t ring)"
    using d nt len R(5) [OF False] e by (auto simp: ring_ok_def s'_def)
  moreover have "same_but_next s s'"
    using t(3) y by (intro same_but_nextI [where m = ?m and h = "run_queue_head s" and n = "task_count s + 1"]) (auto simp: s'_def)
  ultimately show ?thesis using run by blast
qed

lemma find_prev_spec:
  assumes "seg (links t_next (k_tasks s)) x (x # ys) (run_queue_head s)" "run_queue_head s \<notin> set ys"
  shows "find_prev x t s = Some (last (x # takeWhile (\<lambda>y. y \<noteq> t) ys))"
  using assms
proof (induction ys arbitrary: x)
  case Nil
  then obtain a where "k_tasks s x = Some a" "t_next a = run_queue_head s" by (auto simp: links_Some)
  then show ?case by (subst find_prev.simps) simp
next
  case (Cons y ys)
  then obtain a where a: "k_tasks s x = Some a" "t_next a = y" "seg (links t_next (k_tasks s)) y (y # ys) (run_queue_head s)"
    by (auto simp: links_Some)
  show ?case
  proof (cases "y = t")
    case True
    then show ?thesis using a by (subst find_prev.simps) simp
  next
    case False
    then show ?thesis using a Cons.IH [OF a(3)] Cons.prems(2) by (subst find_prev.simps) auto
  qed
qed

lemma ring_count_remove:
  assumes "ring_ok s ring" "t \<in> set ring"
  shows "task_count s - 1 = of_nat (length (remove1 t ring))" "length (remove1 t ring) < 2 ^ 32" "distinct (remove1 t ring)"
proof -
  have l: "length (remove1 t ring) = length ring - 1" "1 \<le> length ring"
    using assms(2) by (auto simp: length_remove1 Suc_le_eq length_pos_if_in_set)
  then show "task_count s - 1 = of_nat (length (remove1 t ring))" using assms(1) by (simp add: ring_ok_def of_nat_diff)
  show "length (remove1 t ring) < 2 ^ 32" "distinct (remove1 t ring)" using assms(1) l by (auto simp: ring_ok_def)
qed

lemma sched_remove_run:
  assumes "run_queue_head s = h" "h \<noteq> 0" "task_count s \<noteq> 0" "find_prev h t s = Some p"
    and "k_tasks s p = Some y" "t_next y = t" "k_tasks s t = Some x"
  shows "sched_remove t s = Some (if t_next x = t then s\<lparr>run_queue_head := 0, task_count := task_count s - 1\<rparr>
    else s\<lparr>k_tasks := (k_tasks s)(p \<mapsto> y\<lparr>t_next := t_next x\<rparr>), run_queue_head := (if h = t then t_next x else h), task_count := task_count s - 1\<rparr>)"
proof (cases "p = t")
  case True
  then show ?thesis using assms by (simp add: sched_remove_def)
next
  case False
  then show ?thesis using assms by (simp add: sched_remove_def)
qed

lemma sched_remove_head:
  assumes r: "ring_ok s (t # ys)"
  shows "\<exists>s'. sched_remove t s = Some s' \<and> ring_ok s' ys \<and> same_but_next s s'"
proof -
  note R = ring_okD [OF r] and C = ring_count_remove [OF r, of t, simplified]
  have hd: "run_queue_head s = t" "t \<noteq> 0" "task_count s \<noteq> 0" and sg: "seg (links t_next (k_tasks s)) t (t # ys) t"
    and d: "distinct (t # ys)" using R by auto
  have tw: "takeWhile (\<lambda>y. y \<noteq> t) ys = ys" using d by (auto simp: takeWhile_eq_all_conv)
  have fp: "find_prev t t s = Some (last (t # ys))"
    using find_prev_spec [of s t ys t, unfolded tw] sg d hd(1) by simp
  obtain x where x: "k_tasks s t = Some x" "seg (links t_next (k_tasks s)) (t_next x) ys t" using sg by (auto simp: links_Some)
  obtain y where y: "k_tasks s (last (t # ys)) = Some y" "t_next y = t" using seg_last [OF sg] by (auto simp: links_Some)
  note run = sched_remove_run [OF hd fp y x(1)]
  show ?thesis
  proof (cases "ys = []")
    case True
    have "same_but_next s (s\<lparr>run_queue_head := 0, task_count := task_count s - 1\<rparr>)"
      by (rule same_but_nextI [where m = "k_tasks s"]) simp_all
    then show ?thesis using run x C True by (simp add: ring_ok_def)
  next
    case False
    then have l: "last (t # ys) = last ys" and nx: "t_next x = hd ys" "t_next x \<noteq> t" using x(2) d by (cases ys; auto)+
    let ?s = "s\<lparr>k_tasks := (k_tasks s)(last ys \<mapsto> y\<lparr>t_next := hd ys\<rparr>), run_queue_head := hd ys, task_count := task_count s - 1\<rparr>"
    have "seg ((links t_next (k_tasks s))(last ys \<mapsto> hd ys)) (hd ys) ys (hd ys)"
      using seg_redirect [OF x(2) False] d nx(1) by simp
    then have "ring_ok ?s ys" using C False by (simp add: ring_ok_def)
    moreover have "same_but_next s ?s" using y(1) l by (intro same_but_nextI [OF refl]) auto
    ultimately show ?thesis using run nx l by simp
  qed
qed

lemma sched_remove_inner:
  assumes r: "ring_ok s (cs @ p # t # bs)"
  shows "\<exists>s'. sched_remove t s = Some s' \<and> ring_ok s' (cs @ p # bs) \<and> same_but_next s s'"
proof -
  let ?r = "cs @ p # t # bs"
  define h where "h = hd ?r"
  note R = ring_okD [OF r]
  have d: "distinct ?r" and sg: "seg (links t_next (k_tasks s)) h ?r h" and hd: "run_queue_head s = h" "h \<noteq> 0" "task_count s \<noteq> 0"
    using R by (auto simp: h_def)
  have C: "task_count s - 1 = of_nat (length (cs @ p # bs))" "length (cs @ p # bs) < 2 ^ 32"
    using ring_count_remove [OF r, of t] d by (auto simp: remove1_append)
  obtain ys where e: "?r = h # ys" by (cases ?r) (auto simp: h_def)
  have th: "t \<noteq> h" using d by (cases cs) (auto simp: h_def)
  have "h # takeWhile (\<lambda>y. y \<noteq> t) ys = takeWhile (\<lambda>y. y \<noteq> t) ?r" using e th by simp
  also have "\<dots> = cs @ [p]" using d split_at(1) [of t "cs @ [p]" bs] by auto
  finally have "last (h # takeWhile (\<lambda>y. y \<noteq> t) ys) = p" by simp
  then have fp: "find_prev h t s = Some p" using find_prev_spec [of s h ys t] sg d hd(1) unfolding e by simp
  obtain y where y: "k_tasks s p = Some y" "t_next y = t" using sg by (auto simp: seg_append links_Some)
  obtain x where x: "k_tasks s t = Some x" "seg (links t_next (k_tasks s)) (t_next x) bs h" using sg by (auto simp: seg_append links_Some)
  have nx: "t_next x \<noteq> t" using x(2) d th by (cases bs) auto
  let ?s = "s\<lparr>k_tasks := (k_tasks s)(p \<mapsto> y\<lparr>t_next := t_next x\<rparr>), task_count := task_count s - 1\<rparr>"
  have "seg (links t_next (k_tasks ?s)) h (cs @ p # bs) h" using seg_delete [OF sg d] x(1) by simp (simp add: links_def)
  moreover have "hd (cs @ p # bs) = h" by (cases cs) (simp_all add: h_def)
  ultimately have "ring_ok ?s (cs @ p # bs)" using C d hd by (auto simp: ring_ok_def)
  moreover have "same_but_next s ?s"
    using y(1) by (intro same_but_nextI [where m = "k_tasks ?s" and h = "run_queue_head s" and n = "task_count s - 1"]) auto
  ultimately show ?thesis using sched_remove_run [OF hd fp y x(1)] nx th hd(1) by auto
qed

lemma sched_remove_spec:
  assumes r: "ring_ok s ring" and t: "t \<in> set ring"
  shows "\<exists>s'. sched_remove t s = Some s' \<and> ring_ok s' (remove1 t ring) \<and> same_but_next s s'"
proof -
  obtain as bs where e: "ring = as @ t # bs" using t by (auto dest: split_list)
  then have rm: "remove1 t ring = as @ bs" using ring_okD(1) [OF r] by (simp add: remove1_append)
  show ?thesis
  proof (cases as rule: rev_cases)
    case Nil
    then show ?thesis using sched_remove_head [of s t bs] r e rm by simp
  next
    case (snoc cs p)
    then show ?thesis using sched_remove_inner [of s cs p t bs] r e rm by simp
  qed
qed

section \<open>The invariant of the task lists\<close>

text \<open>\<open>ring\<close> is the run queue, \<open>al\<close> the list of all tasks and \<open>zs\<close> the list of zombies. Every task is in the
  run queue or a zombie; its parent, if it has one, is another task of the run queue; the zombies are
  dead, and in the run queue only the current task may be. The init task has no parent.\<close>

definition task_ok :: "task_ptr \<Rightarrow> task_ptr list \<Rightarrow> task_ptr list \<Rightarrow> task_ptr \<Rightarrow> task \<Rightarrow> bool" where
  "task_ok c ring zs t x \<longleftrightarrow> t_parent x \<in> insert 0 (set ring) \<and> t_parent x \<noteq> t \<and>
     (t \<in> set zs \<longrightarrow> t_state x = TASK_DEAD) \<and> (t \<in> set ring \<longrightarrow> t_zombie_next x = 0 \<and> (t \<noteq> c \<longrightarrow> t_state x \<noteq> TASK_DEAD))"

definition tasks_ok :: "kstate \<Rightarrow> task_ptr list \<Rightarrow> task_ptr list \<Rightarrow> task_ptr list \<Rightarrow> bool" where
  "tasks_ok s ring al zs \<longleftrightarrow> ring_ok s ring \<and> all_lst s al \<and> zombie_lst s zs \<and> k_tasks s 0 = None \<and>
     set ring \<inter> set zs = {} \<and> set al = set ring \<union> set zs \<and>
     (\<forall>t \<in> set al. \<exists>x. k_tasks s t = Some x \<and> task_ok (current_task s) ring zs t x) \<and>
     init_task s \<in> insert 0 (set al) \<and> current_task s \<in> insert 0 (set ring) \<and>
     (\<forall>x. k_tasks s (init_task s) = Some x \<longrightarrow> t_parent x = 0)"

text \<open>The idle task exists and can run.\<close>

definition idle_ok :: "kstate \<Rightarrow> task_ptr list \<Rightarrow> bool" where
  "idle_ok s ring \<longleftrightarrow> idle_task s \<in> set ring \<and> (\<exists>x. k_tasks s (idle_task s) = Some x \<and> runnable x)"

lemma tasks_okD:
  assumes "tasks_ok s ring al zs"
  shows "ring_ok s ring" "all_lst s al" "zombie_lst s zs" "k_tasks s 0 = None" "set ring \<inter> set zs = {}" "set al = set ring \<union> set zs"
    "distinct ring" "distinct al" "distinct zs" "0 \<notin> set al" "init_task s \<in> insert 0 (set al)" "current_task s \<in> insert 0 (set ring)"
    "t \<in> set al \<Longrightarrow> \<exists>x. k_tasks s t = Some x \<and> task_ok (current_task s) ring zs t x"
    "k_tasks s (init_task s) = Some x \<Longrightarrow> t_parent x = 0"
proof -
  show "0 \<notin> set al" using assms seg_nonzero unfolding tasks_ok_def all_list.lst_def by blast
qed (use assms in \<open>auto simp: tasks_ok_def all_list.lst_def zombie_list.lst_def ring_ok_def\<close>)

lemma ring_ok_cong:
  assumes "run_queue_head s' = run_queue_head s" "task_count s' = task_count s"
    "\<And>t. t \<in> set ring \<Longrightarrow> map_option t_next (k_tasks s' t) = map_option t_next (k_tasks s t)"
  shows "ring_ok s' ring = ring_ok s ring"
proof -
  have "seg (links t_next (k_tasks s')) p ring q = seg (links t_next (k_tasks s)) p ring q" for p q
    using assms(3) by (intro seg_cong) (simp add: links_def)
  then show ?thesis using assms(1,2) by (simp add: ring_ok_def)
qed

section \<open>Waking and reparenting\<close>

definition awake :: "task \<Rightarrow> task" where
  "awake x = (if t_state x = TASK_BLOCKED then x\<lparr>t_state := TASK_READY\<rparr> else x)"

lemma awake_fields [simp]:
  "t_all_next (awake x) = t_all_next x" "t_zombie_next (awake x) = t_zombie_next x" "t_next (awake x) = t_next x"
  "t_parent (awake x) = t_parent x" "t_pid (awake x) = t_pid x"
  "t_state (awake x) = (if t_state x = TASK_BLOCKED then TASK_READY else t_state x)"
  by (simp_all add: awake_def)

definition map_at :: "task_ptr set \<Rightarrow> (task \<Rightarrow> task) \<Rightarrow> (task_ptr \<Rightarrow> task option) \<Rightarrow> task_ptr \<Rightarrow> task option" where
  "map_at A f m = (\<lambda>y. if y \<in> A then map_option f (m y) else m y)"

lemma map_at_Some: "m y = Some x \<Longrightarrow> map_at A f m y = Some (if y \<in> A then f x else x)"
  by (simp add: map_at_def)

lemma map_at_None [simp]: "map_at A f m y = None \<longleftrightarrow> m y = None"
  by (simp add: map_at_def)

lemma wake_spec:
  assumes "k_tasks s 0 = None" "t = 0 \<or> k_tasks s t \<noteq> None"
  shows "wake t s = Some (s\<lparr>k_tasks := map_at {t} awake (k_tasks s)\<rparr>)"
proof (cases "t = 0")
  case True
  then have "map_at {t} awake (k_tasks s) = k_tasks s" using assms(1) by (auto simp: map_at_def)
  then show ?thesis using True by (simp add: wake_def)
next
  case False
  then obtain x where x: "k_tasks s t = Some x" using assms(2) by auto
  have "map_at {t} awake (k_tasks s) = (k_tasks s)(t \<mapsto> awake x)" using x by (auto simp: map_at_def)
  then show ?thesis using False x by (simp add: wake_def awake_def fun_upd_idem)
qed

definition adopter :: "task_ptr \<Rightarrow> kstate \<Rightarrow> task_ptr" where
  "adopter parent s = (case k_tasks s (init_task s) of
     Some x \<Rightarrow> if init_task s \<noteq> parent \<and> t_state x \<noteq> TASK_DEAD then init_task s else 0 | None \<Rightarrow> 0)"

lemma reparent_children_spec:
  assumes al: "all_lst s al" and z: "k_tasks s 0 = None" and i: "init_task s = 0 \<or> k_tasks s (init_task s) \<noteq> None" and p: "parent \<noteq> 0"
  shows "reparent_children parent s =
    Some (s\<lparr>k_tasks := map_at {adopter parent s} awake (map_at (set al) (reparent parent (adopter parent s)) (k_tasks s))\<rparr>)"
proof -
  let ?a = "adopter parent s"
  have a: "adoptive_parent parent s = Some ?a" using z i by (auto simp: adoptive_parent_def adopter_def)
  define s1 where "s1 = s\<lparr>k_tasks := map_at (set al) (reparent parent ?a) (k_tasks s)\<rparr>"
  have r: "reparent_loop (all_tasks s) parent ?a s = Some s1"
    using reparent_loop_spec [of s "all_tasks s" al parent ?a] al by (simp add: all_list.lst_def s1_def map_at_def)
  have "?a = 0 \<or> k_tasks s ?a \<noteq> None" by (auto simp: adopter_def split: option.splits)
  then have "wake ?a s1 = Some (s1\<lparr>k_tasks := map_at {?a} awake (k_tasks s1)\<rparr>)"
    using z by (intro wake_spec) (auto simp: s1_def map_at_def)
  then show ?thesis using a r p by (simp add: reparent_children_def s1_def)
qed

text \<open>The tasks after \<open>c\<close> has become a zombie.\<close>

definition zombified :: "task_ptr \<Rightarrow> task_ptr list \<Rightarrow> kstate \<Rightarrow> task_ptr \<Rightarrow> (task_ptr \<Rightarrow> task option)" where
  "zombified c al s parent = map_at {parent} awake
     (map_at {c} (\<lambda>x. x\<lparr>t_zombie_next := zombie_tasks s\<rparr>)
       (map_at {adopter c s} awake (map_at (set al) (reparent c (adopter c s)) (k_tasks s))))"

lemma task_zombify_spec:
  assumes al: "all_lst s al" and z: "k_tasks s 0 = None" and i: "init_task s = 0 \<or> k_tasks s (init_task s) \<noteq> None"
    and c: "c \<noteq> 0" "k_tasks s c = Some x" "t_zombie_next x = 0" and p: "t_parent x = 0 \<or> k_tasks s (t_parent x) \<noteq> None" "t_parent x \<noteq> c"
  shows "task_zombify c s = Some (s\<lparr>k_tasks := zombified c al s (t_parent x), zombie_tasks := c\<rparr>)"
proof -
  let ?a = "adopter c s"
  let ?m = "map_at {?a} awake (map_at (set al) (reparent c ?a) (k_tasks s))"
  let ?m' = "map_at {c} (\<lambda>x. x\<lparr>t_zombie_next := zombie_tasks s\<rparr>) ?m"
  note R = reparent_children_spec [OF al z i c(1)]
  have "?a \<noteq> c" using c(1) by (auto simp: adopter_def split: option.splits)
  then have y: "?m c = Some x" using c(2) p(2) by (simp add: map_at_def reparent_def)
  have u: "?m' = ?m(c \<mapsto> x\<lparr>t_zombie_next := zombie_tasks s\<rparr>)" using y by (auto simp: map_at_def [of "{c}"])
  define s1 where "s1 = s\<lparr>k_tasks := ?m', zombie_tasks := c\<rparr>"
  have "task_zombify c s = wake (t_parent x) s1" using c R y u by (simp add: task_zombify_def s1_def)
  moreover have "wake (t_parent x) s1 = Some (s1\<lparr>k_tasks := map_at {t_parent x} awake (k_tasks s1)\<rparr>)"
    using z p(1) by (intro wake_spec) (auto simp: s1_def map_at_def)
  ultimately show ?thesis by (simp add: s1_def zombified_def)
qed

section \<open>Retiring a dead task\<close>

text \<open>What the lists and the scheduler change of a task: its links, its parent and its state.\<close>

definition same_core :: "task \<Rightarrow> task \<Rightarrow> bool" where
  "same_core x x' \<longleftrightarrow> t_rsp x' = t_rsp x \<and> t_cr3 x' = t_cr3 x \<and> t_pid x' = t_pid x \<and> t_name x' = t_name x \<and>
     t_stack_base x' = t_stack_base x \<and> t_user_mode x' = t_user_mode x \<and> t_user_entry x' = t_user_entry x \<and>
     t_user_stack_top x' = t_user_stack_top x \<and> t_brk_base x' = t_brk_base x \<and> t_brk_current x' = t_brk_current x \<and>
     t_mmap_next x' = t_mmap_next x \<and> t_cwd x' = t_cwd x \<and> t_files x' = t_files x \<and> t_exit_code x' = t_exit_code x \<and>
     t_ticks x' = t_ticks x"

lemma same_core_refl [simp]: "same_core x x"
  by (simp add: same_core_def)

lemma same_coreI:
  "same_core x (x\<lparr>t_next := n\<rparr>)" "same_core x (x\<lparr>t_state := st\<rparr>)" "same_core x (x\<lparr>t_zombie_next := n\<rparr>)" "same_core x (awake x)"
  "same_core x (reparent p n x)" "same_core x (x\<lparr>t_all_next := n\<rparr>)"
  by (simp_all add: same_core_def awake_def reparent_def)

lemma same_core_trans: "same_core x y \<Longrightarrow> same_core y z \<Longrightarrow> same_core x z"
  by (simp add: same_core_def)

text \<open>The step of a task \<open>y\<close> when \<open>c\<close>, whose parent is \<open>p\<close>, has become a zombie and \<open>a\<close> adopts its children.\<close>

definition after_death :: "task_ptr \<Rightarrow> task_ptr \<Rightarrow> task_ptr \<Rightarrow> task_ptr \<Rightarrow> task_ptr \<Rightarrow> task \<Rightarrow> task \<Rightarrow> bool" where
  "after_death c p a zt y x x' \<longleftrightarrow> same_core x x' \<and> t_all_next x' = t_all_next x \<and>
     t_zombie_next x' = (if y = c then zt else t_zombie_next x) \<and>
     t_parent x' = (if t_parent x = c then a else t_parent x) \<and>
     t_state x' = (if t_state x = TASK_BLOCKED \<and> (y = p \<or> y = a) then TASK_READY else t_state x)"

lemma zombified_at:
  assumes "y \<in> set al" "k_tasks s y = Some x" "adopter c s \<noteq> c" "p \<noteq> c"
  shows "\<exists>x'. zombified c al s p y = Some x' \<and> after_death c p (adopter c s) (zombie_tasks s) y x x' \<and> t_next x' = t_next x"
proof -
  let ?a = "adopter c s"
  define x1 where "x1 = reparent c ?a x"
  define x2 where "x2 = (if y = ?a then awake x1 else x1)"
  define x3 where "x3 = (if y = c then x2\<lparr>t_zombie_next := zombie_tasks s\<rparr> else x2)"
  define x4 where "x4 = (if y = p then awake x3 else x3)"
  have "zombified c al s p y = Some x4" using assms(1,2)
    unfolding zombified_def x1_def x2_def x3_def x4_def by (simp add: map_at_Some)
  moreover have "same_core x x1" "same_core x1 x2" "same_core x2 x3" "same_core x3 x4"
    by (simp_all add: x1_def x2_def x3_def x4_def same_coreI)
  then have "same_core x x4" by (blast intro: same_core_trans)
  then have "after_death c p ?a (zombie_tasks s) y x x4 \<and> t_next x4 = t_next x"
    using assms(3,4) by (auto simp: after_death_def x1_def x2_def x3_def x4_def reparent_def)
  ultimately show ?thesis by blast
qed

lemma retire_lists:
  assumes ok: "tasks_ok s ring al zs" and c: "c = current_task s" "c \<in> set ring" "k_tasks s c = Some x" "t_state x = TASK_DEAD"
    and s1: "ring_ok s1 (remove1 c ring)" "same_but_next s s1"
    and s2: "s2 = s1\<lparr>k_tasks := zombified c al s1 (t_parent x), zombie_tasks := c\<rparr>"
    and at: "\<And>y u. y \<in> set al \<Longrightarrow> k_tasks s y = Some u \<Longrightarrow>
      \<exists>u'. k_tasks s2 y = Some u' \<and> after_death c (t_parent x) (adopter c s) (zombie_tasks s) y u u'"
    and nx: "\<And>y. y \<in> set ring \<Longrightarrow> map_option t_next (k_tasks s2 y) = map_option t_next (k_tasks s1 y)"
  shows "ring_ok s2 (remove1 c ring)" "all_lst s2 al" "zombie_lst s2 (c # zs)"
proof -
  note D = tasks_okD [OF ok]
  have fs: "all_tasks s1 = all_tasks s" "zombie_tasks s1 = zombie_tasks s" using s1(2) by (auto simp: same_but_next_def)
  show "ring_ok s2 (remove1 c ring)"
    using ring_ok_cong [of s2 s1 "remove1 c ring"] s1(1) nx D(7) by (simp add: s2 in_set_remove1)
  have ex: "\<exists>u u'. k_tasks s y = Some u \<and> k_tasks s2 y = Some u' \<and> after_death c (t_parent x) (adopter c s) (zombie_tasks s) y u u'"
    if "y \<in> set al" for y using at [OF that] D(13) [OF that] by blast
  have "map_option t_all_next (k_tasks s2 y) = map_option t_all_next (k_tasks s y)" if "y \<in> set al" for y
    using ex [OF that] by (auto simp: after_death_def)
  then show "all_lst s2 al" using all_list.lst_cong [of s2 s al] D(2) fs by (simp add: s2)
  have cz: "c \<notin> set zs" "c \<in> set al" "c \<noteq> 0" using D(5,6,10) c(2) by auto
  have "map_option t_zombie_next (k_tasks s2 y) = map_option t_zombie_next (k_tasks s y)" if "y \<in> set zs" for y
    using ex [of y] that cz(1) D(6) by (auto simp: after_death_def)
  then have "seg (links t_zombie_next (k_tasks s2)) (zombie_tasks s) zs 0 = seg (links t_zombie_next (k_tasks s)) (zombie_tasks s) zs 0"
    by (intro seg_cong) (simp add: links_def)
  then have "seg (links t_zombie_next (k_tasks s2)) (zombie_tasks s) zs 0" using D(3) by (simp add: zombie_list.lst_def)
  then show "zombie_lst s2 (c # zs)" using ex [OF cz(2)] cz D(9)
    by (auto simp: zombie_list.lst_def s2 links_def after_death_def)
qed

lemma retire_dead:
  assumes ok: "tasks_ok s ring al zs" and c: "c = current_task s" "c \<in> set ring" "k_tasks s c = Some x" "t_state x = TASK_DEAD"
  shows "\<exists>s' m h n. retire_current nxt s = Some (if t_parent x \<noteq> 0 then t_parent x else nxt, s') \<and>
    ring_ok s' (remove1 c ring) \<and> all_lst s' al \<and> zombie_lst s' (c # zs) \<and> k_tasks s' 0 = None \<and>
    (\<forall>y u. y \<in> set al \<longrightarrow> k_tasks s y = Some u \<longrightarrow> (\<exists>u'. k_tasks s' y = Some u' \<and> after_death c (t_parent x) (adopter c s) (zombie_tasks s) y u u')) \<and>
    s' = s\<lparr>k_tasks := m, run_queue_head := h, task_count := n, zombie_tasks := c\<rparr>"
proof -
  note D = tasks_okD [OF ok]
  let ?p = "t_parent x"
  from sched_remove_spec [OF D(1) c(2)] obtain s1 where
    s1: "sched_remove c s = Some s1" "ring_ok s1 (remove1 c ring)" "same_but_next s s1" by blast
  obtain m1 h n where e1: "s1 = s\<lparr>k_tasks := m1, run_queue_head := h, task_count := n\<rparr>" using s1(3) by (auto simp: same_but_next_def)
  note at1 = same_but_next_at [OF s1(3)]
  have al: "c \<in> set al" "c \<noteq> 0" using D(6,10) c(2) by auto
  have xok: "task_ok c ring zs c x" using D(13) [OF al(1)] c(1,3) by auto
  obtain n1 where x1: "k_tasks s1 c = Some (x\<lparr>t_next := n1\<rparr>)" using at1(1) [OF c(3)] by blast
  have z1: "k_tasks s1 0 = None" using at1(2) D(4) by blast
  have live1: "k_tasks s1 y \<noteq> None" if "k_tasks s y \<noteq> None" for y using that at1(1) by blast
  have i1: "init_task s1 = 0 \<or> k_tasks s1 (init_task s1) \<noteq> None" using D(11,13) live1 by (fastforce simp: e1)
  have p: "?p = 0 \<or> k_tasks s ?p \<noteq> None" "?p \<noteq> c" using xok D(6,13) by (fastforce simp: task_ok_def)+
  have "\<exists>g. k_tasks s1 (init_task s) = map_option (\<lambda>u. u\<lparr>t_next := g\<rparr>) (k_tasks s (init_task s))" using s1(3) by (simp add: same_but_next_def)
  then have ad: "adopter c s1 = adopter c s" by (auto simp: adopter_def e1 split: option.splits)
  have adc: "adopter c s \<noteq> c" using al(2) by (auto simp: adopter_def split: option.splits)
  have al1: "all_lst s1 al"
  proof -
    have "map_option t_all_next (k_tasks s1 y) = map_option t_all_next (k_tasks s y)" for y using at1 [of y] by (cases "k_tasks s y") fastforce+
    then show ?thesis using all_list.lst_cong [of s1 s al] D(2) by (simp add: e1)
  qed
  define s2 where "s2 = s1\<lparr>k_tasks := zombified c al s1 ?p, zombie_tasks := c\<rparr>"
  have zr: "task_zombify c s1 = Some s2"
    using task_zombify_spec [OF al1 z1 i1 al(2) x1] xok c(2) p live1 by (auto simp: task_ok_def s2_def)
  have at: "\<exists>u'. k_tasks s2 y = Some u' \<and> after_death c ?p (adopter c s) (zombie_tasks s) y u u' \<and>
      map_option t_next (k_tasks s1 y) = Some (t_next u')" if y: "y \<in> set al" "k_tasks s y = Some u" for y u
  proof -
    obtain g where g: "k_tasks s1 y = Some (u\<lparr>t_next := g\<rparr>)" using at1(1) [OF y(2)] by blast
    from zombified_at [OF y(1) g, of c ?p] ad adc p(2) obtain u' where
      u': "k_tasks s2 y = Some u'" "after_death c ?p (adopter c s) (zombie_tasks s) y (u\<lparr>t_next := g\<rparr>) u'" "t_next u' = g"
      by (auto simp: s2_def e1)
    then show ?thesis using g by (auto simp: after_death_def same_core_def)
  qed
  have ring_at: "map_option t_next (k_tasks s2 y) = map_option t_next (k_tasks s1 y)" if "y \<in> set ring" for y
    using at [of y] D(6) D(13) [of y] that by fastforce
  note RL = retire_lists [OF ok c s1(2,3) s2_def _ ring_at]
  have lists: "ring_ok s2 (remove1 c ring)" "all_lst s2 al" "zombie_lst s2 (c # zs)" using RL at by blast+
  have pr: "\<exists>q. k_tasks s2 ?p = Some q \<and> runnable q" if "?p \<noteq> 0"
  proof -
    have pm: "?p \<in> set ring" using xok that by (simp add: task_ok_def)
    then obtain u where u: "k_tasks s ?p = Some u" "t_state u \<noteq> TASK_DEAD" using D(6) D(13) [of ?p] p(2) c(1) by (auto simp: task_ok_def)
    then show ?thesis using at [of ?p u] pm D(6) by (cases "t_state u") (auto simp: after_death_def runnable_def)
  qed
  have "retire_current nxt s = Some (if ?p \<noteq> 0 then ?p else nxt, s2)"
    using c s1(1) zr pr by (auto simp: retire_current_def Let_def e1 s2_def)
  moreover have "k_tasks s2 0 = None" using z1 by (simp add: s2_def zombified_def)
  moreover have "s2 = s\<lparr>k_tasks := zombified c al s1 ?p, run_queue_head := h, task_count := n, zombie_tasks := c\<rparr>"
    by (simp add: s2_def e1)
  ultimately show ?thesis using lists at by blast
qed

section \<open>schedule\<close>

text \<open>Operations that keep all links, parents and list heads.\<close>

lemma tasks_ok_states:
  assumes ok: "tasks_ok s ring al zs"
    and heads: "run_queue_head s' = run_queue_head s" "task_count s' = task_count s" "all_tasks s' = all_tasks s"
      "zombie_tasks s' = zombie_tasks s" "init_task s' = init_task s"
    and cur: "current_task s' \<in> insert 0 (set ring)" and z: "k_tasks s' 0 = None"
    and at: "\<And>y u. y \<in> set al \<Longrightarrow> k_tasks s y = Some u \<Longrightarrow> \<exists>u'. k_tasks s' y = Some u' \<and> t_next u' = t_next u \<and>
      t_all_next u' = t_all_next u \<and> t_zombie_next u' = t_zombie_next u \<and> t_parent u' = t_parent u \<and>
      (t_state u' = TASK_DEAD \<longleftrightarrow> y \<in> set zs \<or> y = current_task s' \<and> t_state u' = TASK_DEAD)"
  shows "tasks_ok s' ring al zs"
proof -
  note D = tasks_okD [OF ok]
  have ex: "\<exists>u u'. k_tasks s y = Some u \<and> task_ok (current_task s) ring zs y u \<and> k_tasks s' y = Some u' \<and> t_next u' = t_next u \<and>
      t_all_next u' = t_all_next u \<and> t_zombie_next u' = t_zombie_next u \<and> t_parent u' = t_parent u \<and>
      (t_state u' = TASK_DEAD \<longleftrightarrow> y \<in> set zs \<or> y = current_task s' \<and> t_state u' = TASK_DEAD)" if "y \<in> set al" for y
    using D(13) [OF that] at [OF that] by blast
  have "ring_ok s' ring" using ring_ok_cong [of s' s ring] D(1,6) heads ex by fastforce
  moreover have "all_lst s' al" using all_list.lst_cong [of s' s al] D(2) heads ex by fastforce
  moreover have "zombie_lst s' zs" using zombie_list.lst_cong [of s' s zs] D(3,6) heads ex by fastforce
  moreover have "\<exists>x. k_tasks s' t = Some x \<and> task_ok (current_task s') ring zs t x" if t: "t \<in> set al" for t
    using ex [OF t] D(5) by (fastforce simp: task_ok_def)
  moreover have "t_parent x = 0" if x: "k_tasks s' (init_task s) = Some x" for x
    using ex [of "init_task s"] D(11,14) x z by fastforce
  ultimately show ?thesis using D(5,6,11) heads(5) cur z by (simp add: tasks_ok_def)
qed

lemma tasks_ok_dead:
  assumes "tasks_ok s ring al zs" "y \<in> set al" "k_tasks s y = Some u"
  shows "y \<noteq> current_task s \<Longrightarrow> t_state u = TASK_DEAD \<longleftrightarrow> y \<in> set zs" "y \<in> set zs \<Longrightarrow> t_state u = TASK_DEAD"
  using tasks_okD(5,6) [OF assms(1)] tasks_okD(13) [OF assms(1,2)] assms(2,3) by (auto simp: task_ok_def)

lemma switch_to_spec:
  assumes n: "k_tasks s nxt = Some n" and o: "current_task s = old" "k_tasks s old = Some ol" "old \<noteq> nxt"
  shows "\<exists>s'. switch_to nxt s = Some s' \<and> current_task s' = nxt \<and>
    k_tasks s' = (k_tasks s)(nxt \<mapsto> n\<lparr>t_state := TASK_RUNNING\<rparr>, old \<mapsto> ol\<lparr>t_rsp := r_rsp (k_cpu s) - 56\<rparr>) \<and>
    run_queue_head s' = run_queue_head s \<and> task_count s' = task_count s \<and> all_tasks s' = all_tasks s \<and>
    zombie_tasks s' = zombie_tasks s \<and> init_task s' = init_task s \<and> idle_task s' = idle_task s \<and> next_pid s' = next_pid s"
  using assms by (simp add: switch_to_def context_switch_def Let_def syscall_set_kernel_stack_def tss_set_rsp0_def)

text \<open>The first task that can run, in the order of the ring, beginning behind \<open>c\<close>.\<close>

definition round_robin :: "kstate \<Rightarrow> task_ptr \<Rightarrow> task_ptr list \<Rightarrow> task_ptr" where
  "round_robin s c ring =
     (case find (\<lambda>t. \<exists>x. k_tasks s t = Some x \<and> runnable x) (from_after c ring) of Some t \<Rightarrow> t | None \<Rightarrow> idle_task s)"

lemma round_robin_spec:
  assumes "idle_ok s ring" "c \<in> set ring" "distinct ring"
  shows "round_robin s c ring \<in> set ring" "\<exists>x. k_tasks s (round_robin s c ring) = Some x \<and> runnable x"
    "find (\<lambda>t. \<exists>x. k_tasks s t = Some x \<and> runnable x) (from_after c ring) = Some (round_robin s c ring)"
proof -
  let ?P = "\<lambda>t. \<exists>x. k_tasks s t = Some x \<and> runnable x"
  have S: "set (from_after c ring) = set ring" using from_after_set assms(2,3) by blast
  have "idle_task s \<in> set ring" "?P (idle_task s)" using assms(1) by (auto simp: idle_ok_def)
  then have "find ?P (from_after c ring) \<noteq> None" using S by (auto simp: find_None_iff)
  then obtain t where t: "find ?P (from_after c ring) = Some t" by blast
  then have "round_robin s c ring = t" by (simp add: round_robin_def)
  moreover have "t \<in> set (from_after c ring) \<and> ?P t" using t by (auto simp: find_Some_iff in_set_conv_nth)
  ultimately show "round_robin s c ring \<in> set ring" "?P (round_robin s c ring)"
    "find ?P (from_after c ring) = Some (round_robin s c ring)" using S t by auto
qed

lemma schedule_pick:
  assumes ok: "tasks_ok s ring al zs" and idle: "idle_ok s ring" and c: "c = current_task s" "c \<in> set ring" "k_tasks s c = Some x"
  shows "pick_next (unat (task_count s)) (t_next x) s = Some (round_robin s c ring)"
proof -
  note D = tasks_okD [OF ok]
  have "length (from_after c ring) = unat (task_count s)" using from_after_set [OF c(2) D(7)] ring_okD(2) [OF D(1)] by simp
  then show ?thesis using pick_next_spec [OF ring_from_after [OF D(1) c(2,3)]] round_robin_spec(3) [OF idle c(2) D(7)] by simp
qed

text \<open>A current task that is not dead keeps its place in the lists.\<close>

lemma schedule_alive:
  assumes ok: "tasks_ok s ring al zs" and idle: "idle_ok s ring" and c: "c = current_task s" "c \<in> set ring" "k_tasks s c = Some x"
    and alive: "t_state x \<noteq> TASK_DEAD"
  shows "\<exists>s'. schedule s = Some s' \<and> current_task s' = round_robin s c ring \<and> tasks_ok s' ring al zs \<and> idle_task s' = idle_task s \<and>
    (\<forall>y u. y \<in> set al \<longrightarrow> k_tasks s y = Some u \<longrightarrow> (\<exists>u'. k_tasks s' y = Some u' \<and> (y \<noteq> c \<longrightarrow> t_rsp u' = t_rsp u) \<and> t_parent u' = t_parent u \<and>
      t_state u' = (if y = round_robin s c ring then TASK_RUNNING else if y = c \<and> t_state u = TASK_RUNNING then TASK_READY else t_state u)))"
proof -
  note D = tasks_okD [OF ok] and RR = round_robin_spec [OF idle c(2) D(7)]
  let ?n = "round_robin s c ring"
  let ?x = "if t_state x = TASK_RUNNING then x\<lparr>t_state := TASK_READY\<rparr> else x"
  let ?s = "s\<lparr>k_if := False, k_tasks := (k_tasks s)(c \<mapsto> ?x)\<rparr>"
  have c0: "c \<noteq> 0" using c(2) D(6,10) by auto
  have n0: "?n \<noteq> 0" "?n \<in> set al" using RR(1) D(6,10) by auto
  have pk: "pick_next (unat (task_count s)) (t_next x) (s\<lparr>k_if := False\<rparr>) = Some ?n"
  proof -
    have "pick_next k p (s\<lparr>k_if := False\<rparr>) = pick_next k p s" for k p by (induction k arbitrary: p) (auto split: Option.bind_splits)
    then show ?thesis using schedule_pick [OF ok idle c] by simp
  qed
  have rt: "retire_current ?n (s\<lparr>k_if := False\<rparr>) = Some (?n, ?s)"
    using c alive by (simp add: retire_current_def fun_upd_idem)
  obtain u where u: "k_tasks s ?n = Some u" "runnable u" using RR(2) by blast
  have oi: "or_idle ?n ?s = Some ?n" using n0(1) u c(3) by (auto simp: or_idle_def runnable_def)
  show ?thesis
  proof (cases "?n = c")
    case True
    define s' where "s' = ?s\<lparr>k_tasks := (k_tasks s)(c \<mapsto> x\<lparr>t_state := TASK_RUNNING\<rparr>), k_if := True\<rparr>"
    have "schedule s = Some s'"
      using c0 c pk rt oi True by (simp add: schedule_def Let_def s'_def)
    moreover have "tasks_ok s' ring al zs"
      using ok by (rule tasks_ok_states) (use D(4,5,6) c c0 tasks_ok_dead [OF ok] in \<open>auto simp: s'_def\<close>)
    ultimately show ?thesis using True c by (auto simp: s'_def)
  next
    case False
    have "k_tasks ?s ?n = Some u" "k_tasks ?s c = Some ?x" "current_task ?s = c" "c \<noteq> ?n" using u c False by auto
    from switch_to_spec [OF this(1,3,2,4)] obtain s' where s': "switch_to ?n ?s = Some s'" "current_task s' = ?n"
      "k_tasks s' = (k_tasks ?s)(?n \<mapsto> u\<lparr>t_state := TASK_RUNNING\<rparr>, c \<mapsto> ?x\<lparr>t_rsp := r_rsp (k_cpu s) - 56\<rparr>)"
      "run_queue_head s' = run_queue_head s" "task_count s' = task_count s" "all_tasks s' = all_tasks s"
      "zombie_tasks s' = zombie_tasks s" "init_task s' = init_task s" "idle_task s' = idle_task s" by auto
    have "schedule s = Some s'" using c0 c pk rt oi False s'(1) n0(1) by (simp add: schedule_def Let_def)
    moreover have "tasks_ok s' ring al zs"
      using ok s'(4-8) by (rule tasks_ok_states) (use D(4,5,6) c c0 n0 alive RR(1) u s'(2,3) tasks_ok_dead [OF ok] in auto)
    ultimately show ?thesis using s' c u False by auto
  qed
qed

lemma retired_ok:
  assumes ok: "tasks_ok s ring al zs" and c: "c = current_task s" "c \<in> set ring" "k_tasks s c = Some x" "t_state x = TASK_DEAD"
    and s2: "s2 = s\<lparr>k_tasks := m, run_queue_head := h, task_count := n, zombie_tasks := c\<rparr>"
    and lists: "ring_ok s2 (remove1 c ring)" "all_lst s2 al" "zombie_lst s2 (c # zs)" "k_tasks s2 0 = None"
    and at: "\<And>y u. y \<in> set al \<Longrightarrow> k_tasks s y = Some u \<Longrightarrow>
      \<exists>u'. k_tasks s2 y = Some u' \<and> after_death c (t_parent x) (adopter c s) (zombie_tasks s) y u u'"
  shows "tasks_ok (s2\<lparr>current_task := 0\<rparr>) (remove1 c ring) al (c # zs)"
proof -
  note D = tasks_okD [OF ok]
  let ?s = "s2\<lparr>current_task := 0\<rparr>" and ?a = "adopter c s"
  have R: "set (remove1 c ring) = set ring - {c}" using D(7) by simp
  have cal: "c \<in> set al" using c(2) D(6) by simp
  have ai: "?a = 0 \<or> ?a = init_task s" by (auto simp: adopter_def split: option.splits)
  have a: "?a \<in> insert 0 (set ring - {c})"
  proof (cases "?a = 0")
    case False
    then obtain u where u: "k_tasks s ?a = Some u" "?a = init_task s" "?a \<noteq> c" "t_state u \<noteq> TASK_DEAD"
      by (auto simp: adopter_def split: option.splits if_splits)
    then have "?a \<in> set al" using D(11) False by auto
    then show ?thesis using u tasks_ok_dead(2) [OF ok, of ?a u] D(6) by auto
  qed simp
  have "\<exists>u'. k_tasks s2 t = Some u' \<and> task_ok 0 (remove1 c ring) (c # zs) t u'" if t: "t \<in> set al" for t
  proof -
    obtain u where u: "k_tasks s t = Some u" "task_ok c ring zs t u" using D(13) [OF t] c(1) by blast
    obtain u' where u': "k_tasks s2 t = Some u'" "after_death c (t_parent x) ?a (zombie_tasks s) t u u'" using at [OF t u(1)] by blast
    have "t_parent u' \<in> insert 0 (set ring - {c})" using u(2) u'(2) a by (auto simp: after_death_def task_ok_def)
    moreover have "t_parent u' \<noteq> t"
    proof
      assume e: "t_parent u' = t"
      then have "t_parent u = c \<and> ?a = t" using u(2) u'(2) by (auto simp: after_death_def task_ok_def split: if_splits)
      then show False using ai D(14) u(1) t D(10) c(2) D(6) by auto
    qed
    moreover have "t_state u' = TASK_DEAD" if "t \<in> set (c # zs)"
    proof -
      have "t_state u = TASK_DEAD" using that tasks_ok_dead(2) [OF ok t u(1)] u(1) c(3,4) by auto
      then show ?thesis using u'(2) by (simp add: after_death_def)
    qed
    moreover have "t_zombie_next u' = 0 \<and> t_state u' \<noteq> TASK_DEAD" if "t \<in> set ring - {c}"
      using that u(2) u'(2) by (simp add: after_death_def task_ok_def)
    ultimately show ?thesis using u'(1) unfolding task_ok_def R by blast
  qed
  moreover have "t_parent u' = 0" if "k_tasks s2 (init_task s) = Some u'" for u'
  proof -
    have i: "init_task s \<in> set al" using D(11) that lists(4) by auto
    obtain u where u: "k_tasks s (init_task s) = Some u" using D(13) [OF i] by blast
    have "t_parent u = 0" "c \<noteq> 0" using D(14) [OF u] cal D(10) by auto
    then show ?thesis using at [OF i u] that by (auto simp: after_death_def)
  qed
  moreover have "ring_ok ?s (remove1 c ring)" "all_lst ?s al" "zombie_lst ?s (c # zs)"
    using lists ring_ok_cong [of ?s s2] all_list.lst_cong [of ?s s2] zombie_list.lst_cong [of ?s s2] by simp_all
  ultimately show ?thesis using D(5,6,11) R lists(4) cal by (auto simp: tasks_ok_def s2)
qed

text \<open>A dead current task leaves the run queue and becomes a zombie; its parent runs next, if it has one.\<close>

lemma schedule_retire:
  assumes ok: "tasks_ok s ring al zs" and idle: "idle_ok s ring" and c: "c = current_task s" "c \<in> set ring" "k_tasks s c = Some x"
    and dead: "t_state x = TASK_DEAD" and n: "n = (if t_parent x \<noteq> 0 then t_parent x else round_robin s c ring)"
  obtains s2 where "schedule s = do { nxt \<leftarrow> or_idle n s2;
      if nxt = 0 \<or> nxt = c then do { s \<leftarrow> mod_task c (\<lambda>x. x\<lparr>t_state := TASK_RUNNING\<rparr>) s2; Some (s\<lparr>k_if := True\<rparr>) } else switch_to nxt s2 }"
    "tasks_ok (s2\<lparr>current_task := 0\<rparr>) (remove1 c ring) al (c # zs)" "current_task s2 = c" "idle_task s2 = idle_task s"
    "\<And>y u. y \<in> set al \<Longrightarrow> k_tasks s y = Some u \<Longrightarrow>
      \<exists>u'. k_tasks s2 y = Some u' \<and> after_death c (t_parent x) (adopter c s) (zombie_tasks s) y u u'"
proof -
  note D = tasks_okD [OF ok]
  let ?r = "round_robin s c ring" and ?s0 = "s\<lparr>k_if := False\<rparr>"
  have c0: "c \<noteq> 0" "c \<in> set al" using c(2) D(6,10) by auto
  have ok0: "tasks_ok ?s0 ring al zs" using ok by (rule tasks_ok_states) (use D(4,12) tasks_ok_dead [OF ok] in auto)
  have pk: "pick_next (unat (task_count s)) (t_next x) ?s0 = Some ?r"
  proof -
    have "pick_next k p ?s0 = pick_next k p s" for k p by (induction k arbitrary: p) (auto split: Option.bind_splits)
    then show ?thesis using schedule_pick [OF ok idle c] by simp
  qed
  have ad: "adopter c ?s0 = adopter c s" by (simp add: adopter_def split: option.split)
  have "c = current_task ?s0" "k_tasks ?s0 c = Some x" using c by simp_all
  from retire_dead [OF ok0 this(1) c(2) this(2) dead, of ?r] obtain s2 m h k where
    rt: "retire_current ?r ?s0 = Some (n, s2)" and lists: "ring_ok s2 (remove1 c ring)" "all_lst s2 al" "zombie_lst s2 (c # zs)" "k_tasks s2 0 = None"
    and at: "\<forall>y u. y \<in> set al \<longrightarrow> k_tasks ?s0 y = Some u \<longrightarrow> (\<exists>u'. k_tasks s2 y = Some u' \<and> after_death c (t_parent x) (adopter c ?s0) (zombie_tasks ?s0) y u u')"
    and e2: "s2 = ?s0\<lparr>k_tasks := m, run_queue_head := h, task_count := k, zombie_tasks := c\<rparr>" unfolding n by blast
  have ok2: "tasks_ok (s2\<lparr>current_task := 0\<rparr>) (remove1 c ring) al (c # zs)"
    by (rule retired_ok [OF ok0 _ c(2) _ dead e2 lists]) (use c at in simp_all)
  have cur2: "current_task s2 = c" "idle_task s2 = idle_task s" using c(1) e2 by simp_all
  show thesis
  proof (rule that [OF _ ok2 cur2])
    show "schedule s = do { nxt \<leftarrow> or_idle n s2;
      if nxt = 0 \<or> nxt = c then do { s \<leftarrow> mod_task c (\<lambda>x. x\<lparr>t_state := TASK_RUNNING\<rparr>) s2; Some (s\<lparr>k_if := True\<rparr>) } else switch_to nxt s2 }"
      using c0 c pk rt cur2 by (simp add: schedule_def Let_def cong: if_cong)
  qed (use at ad in simp)
qed

lemma schedule_dead:
  assumes ok: "tasks_ok s ring al zs" and idle: "idle_ok s ring" and c: "c = current_task s" "c \<in> set ring" "k_tasks s c = Some x"
    and dead: "t_state x = TASK_DEAD" and n: "n = (if t_parent x \<noteq> 0 then t_parent x else round_robin s c ring)"
  shows "\<exists>s'. schedule s = Some s' \<and> current_task s' = n \<and> tasks_ok s' (remove1 c ring) al (c # zs) \<and> idle_task s' = idle_task s \<and>
    n \<in> set ring - {c} \<and>
    (\<forall>y u. y \<in> set al \<longrightarrow> k_tasks s y = Some u \<longrightarrow> (\<exists>u'. k_tasks s' y = Some u' \<and> (y \<noteq> c \<longrightarrow> t_rsp u' = t_rsp u) \<and>
      t_parent u' = (if t_parent u = c then adopter c s else t_parent u) \<and>
      t_state u' = (if y = n then TASK_RUNNING else if t_state u = TASK_BLOCKED \<and> y = adopter c s then TASK_READY else t_state u)))"
proof -
  note D = tasks_okD [OF ok] and RR = round_robin_spec [OF idle c(2) D(7)]
  obtain s2 where run: "schedule s = do { nxt \<leftarrow> or_idle n s2;
      if nxt = 0 \<or> nxt = c then do { s \<leftarrow> mod_task c (\<lambda>x. x\<lparr>t_state := TASK_RUNNING\<rparr>) s2; Some (s\<lparr>k_if := True\<rparr>) } else switch_to nxt s2 }"
    and ok2: "tasks_ok (s2\<lparr>current_task := 0\<rparr>) (remove1 c ring) al (c # zs)" and cur2: "current_task s2 = c" "idle_task s2 = idle_task s"
    and at: "\<And>y u. y \<in> set al \<Longrightarrow> k_tasks s y = Some u \<Longrightarrow>
      \<exists>u'. k_tasks s2 y = Some u' \<and> after_death c (t_parent x) (adopter c s) (zombie_tasks s) y u u'"
    using schedule_retire [OF assms] by blast
  have c0: "c \<noteq> 0" "c \<in> set al" using c(2) D(6,10) by auto
  have rm: "set (remove1 c ring) = set ring - {c}" using D(7) by simp
  have nr: "n \<in> set ring - {c}"
  proof (cases "t_parent x = 0")
    case True
    then have "n \<noteq> c" using n RR(2) c(3) dead by (auto simp: runnable_def)
    then show ?thesis using n True RR(1) by simp
  qed (use n D(13) [OF c0(2)] c(3) in \<open>auto simp: task_ok_def\<close>)
  then have n0: "n \<in> set al" "n \<noteq> 0" "n \<noteq> c" using D(6,10) by auto
  obtain u where u: "k_tasks s n = Some u" using D(13) [OF n0(1)] by blast
  obtain u2 where u2: "k_tasks s2 n = Some u2" "after_death c (t_parent x) (adopter c s) (zombie_tasks s) n u u2" using at [OF n0(1) u] by blast
  have "t_state u \<noteq> TASK_DEAD" using tasks_ok_dead(1) [OF ok n0(1) u] n0(3) nr D(5) c(1) by auto
  moreover have "t_parent x = 0 \<Longrightarrow> runnable u" using RR(2) u n by auto
  ultimately have ru: "runnable u2" using u2(2) n by (cases "t_state u") (auto simp: after_death_def runnable_def split: if_splits)
  obtain x2 where x2: "k_tasks s2 c = Some x2" "t_state x2 = TASK_DEAD"
    using at [OF c0(2) c(3)] dead by (auto simp: after_death_def)
  from switch_to_spec [OF u2(1) cur2(1) x2(1) n0(3) [symmetric]] obtain s' where s': "switch_to n s2 = Some s'" "current_task s' = n"
    "k_tasks s' = (k_tasks s2)(n \<mapsto> u2\<lparr>t_state := TASK_RUNNING\<rparr>, c \<mapsto> x2\<lparr>t_rsp := r_rsp (k_cpu s2) - 56\<rparr>)"
    "run_queue_head s' = run_queue_head s2" "task_count s' = task_count s2" "all_tasks s' = all_tasks s2"
    "zombie_tasks s' = zombie_tasks s2" "init_task s' = init_task s2" "idle_task s' = idle_task s2" by blast
  have "schedule s = Some s'" using run n0 u2(1) ru s'(1) by (simp add: or_idle_def)
  moreover have "tasks_ok s' (remove1 c ring) al (c # zs)"
  proof (rule tasks_ok_states [OF ok2])
    show "k_tasks s' 0 = None" using s'(3) tasks_okD(4) [OF ok2] n0 c0 by simp
    fix y w assume w: "y \<in> set al" "k_tasks (s2\<lparr>current_task := 0\<rparr>) y = Some w"
    then have "t_state w = TASK_DEAD \<longleftrightarrow> y \<in> set (c # zs)" using tasks_ok_dead(1) [OF ok2] D(10) by auto
    then show "\<exists>u'. k_tasks s' y = Some u' \<and> t_next u' = t_next w \<and> t_all_next u' = t_all_next w \<and> t_zombie_next u' = t_zombie_next w \<and>
      t_parent u' = t_parent w \<and> (t_state u' = TASK_DEAD \<longleftrightarrow> y \<in> set (c # zs) \<or> y = current_task s' \<and> t_state u' = TASK_DEAD)"
      using w s'(2,3) u2(1) x2 nr D(5) by auto
  qed (use s'(2,4-8) nr rm in simp_all)
  moreover have "\<exists>u'. k_tasks s' y = Some u' \<and> (y \<noteq> c \<longrightarrow> t_rsp u' = t_rsp u) \<and>
      t_parent u' = (if t_parent u = c then adopter c s else t_parent u) \<and>
      t_state u' = (if y = n then TASK_RUNNING else if t_state u = TASK_BLOCKED \<and> y = adopter c s then TASK_READY else t_state u)"
    if y: "y \<in> set al" "k_tasks s y = Some u" for y u
  proof -
    obtain u' where u': "k_tasks s2 y = Some u'" "after_death c (t_parent x) (adopter c s) (zombie_tasks s) y u u'" using at [OF y] by blast
    have "y = t_parent x \<Longrightarrow> y = n" using n y(1) D(10) by auto
    then show ?thesis using s'(3) u' u2(1) x2 n0(3) by (auto simp: after_death_def same_core_def)
  qed
  ultimately show ?thesis using s'(2,9) cur2 nr by auto
qed

section \<open>Properties of the scheduler\<close>

text \<open>C6: schedule returns and switches to the right task. Tasks take turns in the order of the ring; a
  dead task leaves the run queue, becomes a zombie, and its parent, woken if it was waiting, runs next.
  The chosen task is running, no other task changes between runnable and not, except that the adopting
  init task is woken, and the lists stay well formed.\<close>

theorem schedule_correct:
  assumes ok: "tasks_ok s ring al zs" and idle: "idle_ok s ring"
    and c: "c = current_task s" "c \<in> set ring" "k_tasks s c = Some x"
    and dead: "dead \<longleftrightarrow> t_state x = TASK_DEAD"
    and n: "n = (if dead \<and> t_parent x \<noteq> 0 then t_parent x else round_robin s c ring)"
  shows "\<exists>s'. schedule s = Some s' \<and> current_task s' = n \<and> n \<in> set ring \<and>
    (if dead then tasks_ok s' (remove1 c ring) al (c # zs) else tasks_ok s' ring al zs) \<and>
    (\<forall>y u. y \<in> set al \<longrightarrow> k_tasks s y = Some u \<longrightarrow> (\<exists>u'. k_tasks s' y = Some u' \<and>
      t_parent u' = (if dead \<and> t_parent u = c then adopter c s else t_parent u) \<and>
      t_state u' = (if y = n then TASK_RUNNING else if y = c \<and> t_state u = TASK_RUNNING then TASK_READY
        else if dead \<and> t_state u = TASK_BLOCKED \<and> y = adopter c s then TASK_READY else t_state u)))"
proof (cases dead)
  case True
  then have d: "t_state x = TASK_DEAD" and n': "n = (if t_parent x \<noteq> 0 then t_parent x else round_robin s c ring)" using dead n by auto
  have cs: "\<not> (y = c \<and> t_state u = TASK_RUNNING)" if "k_tasks s y = Some u" for y u using that c(3) d by auto
  from schedule_dead [OF ok idle c d n'] obtain s' where s': "schedule s = Some s'" "current_task s' = n" "tasks_ok s' (remove1 c ring) al (c # zs)"
    "n \<in> set ring - {c}"
    "\<forall>y u. y \<in> set al \<longrightarrow> k_tasks s y = Some u \<longrightarrow> (\<exists>u'. k_tasks s' y = Some u' \<and> (y \<noteq> c \<longrightarrow> t_rsp u' = t_rsp u) \<and>
      t_parent u' = (if t_parent u = c then adopter c s else t_parent u) \<and>
      t_state u' = (if y = n then TASK_RUNNING else if t_state u = TASK_BLOCKED \<and> y = adopter c s then TASK_READY else t_state u))" by blast
  show ?thesis using s'(1-4) s'(5) [rule_format] True cs by (intro exI [of _ s']) fastforce
next
  case False
  then have a: "t_state x \<noteq> TASK_DEAD" and n': "n = round_robin s c ring" using dead n by auto
  have "n \<in> set ring" using round_robin_spec(1) [OF idle c(2) tasks_okD(7) [OF ok]] n' by simp
  then show ?thesis using schedule_alive [OF ok idle c a] False n' by fastforce
qed

section \<open>Round robin\<close>

text \<open>How many tasks of the ring lie from behind \<open>c\<close> up to \<open>t\<close>.\<close>

definition distance :: "task_ptr \<Rightarrow> task_ptr \<Rightarrow> task_ptr list \<Rightarrow> nat" where
  "distance c t ring = length (takeWhile (\<lambda>y. y \<noteq> t) (from_after c ring))"

lemma distance_less: "distinct ring \<Longrightarrow> c \<in> set ring \<Longrightarrow> t \<in> set ring \<Longrightarrow> distance c t ring < length ring"
proof -
  assume a: "distinct ring" "c \<in> set ring" "t \<in> set ring"
  then have f: "t \<in> set (from_after c ring)" "length (from_after c ring) = length ring" using from_after_set [of c ring] by auto
  then obtain us vs where "from_after c ring = us @ t # vs" "t \<notin> set us" by (meson split_list_first)
  then show ?thesis using f(2) by (simp add: distance_def)
qed

lemma from_after_rotate:
  assumes d: "distinct ring" and c: "c \<in> set ring" and f: "from_after c ring = us @ n # vs"
  shows "from_after n ring = vs @ us @ [n]"
proof -
  obtain as bs where e: "ring = as @ c # bs" using c by (auto dest: split_list)
  have fe: "us @ n # vs = bs @ as @ [c]" using f from_after_split [of as c bs] d e by simp
  then have dn: "distinct (us @ n # vs)" using d e by auto
  then have nn: "n \<notin> set us" "n \<notin> set vs" by auto
  have "n \<in> set (bs @ as @ [c])" using fe [symmetric] by simp
  then consider b1 b2 where "bs = b1 @ n # b2" | a1 a2 where "as = a1 @ n # a2" | "n = c" by (auto dest: split_list)
  then show ?thesis
  proof cases
    case 1
    then have "us = b1" "vs = b2 @ as @ [c]" using fe append_Cons_eq_iff [OF nn, of b1 "b2 @ as @ [c]"] by auto
    then show ?thesis using from_after_split [of "as @ c # b1" n b2] d e 1 by simp
  next
    case 2
    then have "us = bs @ a1" "vs = a2 @ [c]" using fe append_Cons_eq_iff [OF nn, of "bs @ a1" "a2 @ [c]"] by auto
    then show ?thesis using from_after_split [of a1 n "a2 @ c # bs"] d e 2 by simp
  next
    case 3
    then have "us = bs @ as" "vs = []" using fe append_Cons_eq_iff [OF nn, of "bs @ as" "[]"] by auto
    then show ?thesis using from_after_split [of as c bs] d e 3 by simp
  qed
qed

text \<open>A task passed over cannot run: the first one that can is at most as far as any other.\<close>

lemma distance_decreases:
  assumes d: "distinct ring" and c: "c \<in> set ring" and t: "t \<in> set ring"
    and n: "find P (from_after c ring) = Some n" and Pt: "P t" and ne: "n \<noteq> t"
  shows "distance n t ring < distance c t ring"
proof -
  let ?f = "from_after c ring"
  have sf: "set ?f = set ring" using from_after_set [OF c d] by simp
  obtain i where i: "i < length ?f" "?f ! i = n" "\<forall>j < i. \<not> P (?f ! j)" using n by (auto simp: find_Some_iff)
  define us where "us = take i ?f"
  define vs where "vs = drop (Suc i) ?f"
  have f: "?f = us @ n # vs" using i id_take_nth_drop [OF i(1)] by (simp add: us_def vs_def)
  have "t \<notin> set us" using i(1,3) Pt by (auto simp: us_def in_set_conv_nth)
  moreover have "t \<in> set ?f" using t sf by simp
  ultimately have "t \<in> set vs" using f ne by auto
  then obtain ws zs where vs: "vs = ws @ t # zs" "t \<notin> set ws" by (meson split_list_first)
  have "from_after n ring = ws @ t # zs @ us @ [n]" using from_after_rotate [OF d c f] vs(1) by simp
  then have "distance n t ring = length ws" using vs(2) by (simp add: distance_def)
  moreover have "from_after c ring = (us @ n # ws) @ t # zs" "t \<notin> set (us @ n # ws)" using f vs \<open>t \<notin> set us\<close> ne by auto
  then have "distance c t ring = length us + Suc (length ws)" by (simp add: distance_def split_at(1) del: append_assoc)
  ultimately show ?thesis by simp
qed

text \<open>What a task does until it gives up the processor: it may change registers and memory, not the lists.
  Then a sequence of such turns, each ended by sched_yield.\<close>

definition user_run :: "cpu \<times> mem \<times> vmm_state \<times> bool \<Rightarrow> kstate \<Rightarrow> kstate" where
  "user_run u s = (case u of (c, m, v, i) \<Rightarrow> s\<lparr>k_cpu := c, k_mem := m, k_vm := v, k_if := i\<rparr>)"

fun turns :: "(cpu \<times> mem \<times> vmm_state \<times> bool) list \<Rightarrow> kstate \<Rightarrow> kstate option" where
  "turns [] s = Some s"
| "turns (u # us) s = do { s \<leftarrow> sched_yield (user_run u s); turns us s }"

text \<open>The current task is alive and \<open>t\<close> can run.\<close>

definition turns_ok :: "task_ptr \<Rightarrow> task_ptr list \<Rightarrow> task_ptr list \<Rightarrow> task_ptr list \<Rightarrow> kstate \<Rightarrow> bool" where
  "turns_ok t ring al zs s \<longleftrightarrow> tasks_ok s ring al zs \<and> idle_ok s ring \<and> current_task s \<in> set ring \<and>
     (\<exists>x. k_tasks s (current_task s) = Some x \<and> t_state x \<noteq> TASK_DEAD) \<and> t \<in> set ring \<and> (\<exists>x. k_tasks s t = Some x \<and> runnable x)"

lemma turn_state:
  assumes ok: "turns_ok t ring al zs s" and x: "k_tasks s (current_task s) = Some x"
    and s1: "s1 = s\<lparr>k_cpu := cp, k_mem := m, k_vm := v, k_if := i\<rparr>"
  shows "turns_ok t ring al zs s1" "round_robin s1 (current_task s) ring = round_robin s (current_task s) ring"
proof -
  have t: "tasks_ok s ring al zs" using ok by (simp add: turns_ok_def)
  note D = tasks_okD [OF t]
  have cur: "current_task s \<in> set ring" "current_task s \<noteq> 0" using ok D(6,10) by (auto simp: turns_ok_def)
  have "tasks_ok s1 ring al zs"
    using t by (rule tasks_ok_states) (use D(4) cur x tasks_ok_dead [OF t] in \<open>auto simp: s1\<close>)
  moreover have run: "(\<exists>u. k_tasks s1 y = Some u \<and> runnable u) = (\<exists>u. k_tasks s y = Some u \<and> runnable u)" for y
    using x by (auto simp: s1 runnable_def)
  ultimately show "turns_ok t ring al zs s1" using ok x unfolding turns_ok_def idle_ok_def run by (auto simp: s1)
  show "round_robin s1 (current_task s) ring = round_robin s (current_task s) ring"
    unfolding round_robin_def run by (simp add: s1 split: option.split)
qed

lemma yield_turn:
  assumes ok: "turns_ok t ring al zs s"
  shows "\<exists>s'. sched_yield (user_run u s) = Some s' \<and> turns_ok t ring al zs s' \<and>
    (current_task s' = t \<or> distance (current_task s') t ring < distance (current_task s) t ring)"
proof -
  let ?c = "current_task s"
  have t: "tasks_ok s ring al zs" and cr: "?c \<in> set ring" and tr: "t \<in> set ring" using ok by (auto simp: turns_ok_def)
  note D = tasks_okD [OF t]
  have c0: "?c \<noteq> 0" using cr D(6,10) by auto
  obtain x where x: "k_tasks s ?c = Some x" using ok by (auto simp: turns_ok_def)
  obtain cp m v i where u: "u = (cp, m, v, i)" by (cases u)
  define s1 where "s1 = s\<lparr>k_cpu := cp, k_mem := m, k_vm := v, k_if := i\<rparr>"
  have tk: "sched_yield (user_run u s) = schedule s1" using c0 x by (simp add: sched_yield_def s1_def u user_run_def)
  note T = turn_state [OF ok x s1_def]
  have cur: "current_task s1 = ?c" by (simp add: s1_def)
  obtain x1 where x1: "k_tasks s1 ?c = Some x1" "t_state x1 \<noteq> TASK_DEAD" using T(1) cur by (auto simp: turns_ok_def)
  have ok1: "tasks_ok s1 ring al zs" "idle_ok s1 ring" using T(1) by (auto simp: turns_ok_def)
  let ?n = "round_robin s1 ?c ring"
  from schedule_alive [OF ok1 cur [symmetric] cr x1] obtain s' where
    sch: "schedule s1 = Some s'" and s': "current_task s' = ?n" "tasks_ok s' ring al zs" "idle_task s' = idle_task s1"
    and at: "\<And>y u. y \<in> set al \<Longrightarrow> k_tasks s1 y = Some u \<Longrightarrow> \<exists>u'. k_tasks s' y = Some u' \<and>
      t_state u' = (if y = ?n then TASK_RUNNING else if y = ?c \<and> t_state u = TASK_RUNNING then TASK_READY else t_state u)" by blast
  have nr: "?n \<in> set ring" using round_robin_spec(1) [OF ok1(2) cr D(7)] .
  have run: "\<exists>u'. k_tasks s' y = Some u' \<and> runnable u'" if "y \<in> set ring" "k_tasks s1 y = Some u" "runnable u" for y u
    using at [of y u] that D(6) by (auto simp: runnable_def)
  have "\<exists>u. k_tasks s' ?n = Some u \<and> t_state u \<noteq> TASK_DEAD"
    using at [of ?n] round_robin_spec(2) [OF ok1(2) cr D(7)] nr D(6) by auto
  moreover have "idle_ok s' ring" using ok1(2) run s'(3) by (auto simp: idle_ok_def)
  ultimately have "turns_ok t ring al zs s'" using s' nr tr run T(1) by (auto simp: turns_ok_def)
  have "\<exists>u. k_tasks s1 t = Some u \<and> runnable u" using T(1) by (simp add: turns_ok_def)
  then have "current_task s' = t \<or> distance (current_task s') t ring < distance ?c t ring"
    using distance_decreases [OF D(7) cr tr round_robin_spec(3) [OF ok1(2) cr D(7)]] s'(1) by auto
  with \<open>turns_ok t ring al zs s'\<close> show ?thesis using tk sch by simp
qed

lemma turns_reach:
  assumes "turns_ok t ring al zs s" and "distance (current_task s) t ring < length us"
  shows "\<exists>k s'. 0 < k \<and> k \<le> Suc (distance (current_task s) t ring) \<and> turns (take k us) s = Some s' \<and> current_task s' = t"
  using assms
proof (induction us arbitrary: s)
  case (Cons u us)
  obtain s1 where s1: "sched_yield (user_run u s) = Some s1" "turns_ok t ring al zs s1"
    "current_task s1 = t \<or> distance (current_task s1) t ring < distance (current_task s) t ring"
    using yield_turn [OF Cons.prems(1)] by blast
  show ?case
  proof (cases "current_task s1 = t")
    case True
    then show ?thesis using s1(1) by (intro exI [of _ 1] exI [of _ s1]) simp
  next
    case False
    then have "distance (current_task s1) t ring < length us" using s1(3) Cons.prems(2) by simp
    from Cons.IH [OF s1(2) this] obtain k s' where "0 < k" "k \<le> Suc (distance (current_task s1) t ring)"
      "turns (take k us) s1 = Some s'" "current_task s' = t" by blast
    then show ?thesis using s1(1,3) False by (intro exI [of _ "Suc k"] exI [of _ s']) auto
  qed
qed simp

text \<open>C15: round robin is fair. While the tasks of the run queue give up the processor by sched_yield, whatever
  they do to their registers and memory before, no switch gets stuck and every task that can run
  becomes the current task after at most as many turns as there are tasks in the run queue.\<close>

theorem round_robin_fair:
  assumes ok: "turns_ok t ring al zs s" and turns: "length us = length ring"
  shows "\<exists>k s'. 0 < k \<and> k \<le> length ring \<and> turns (take k us) s = Some s' \<and> current_task s' = t"
proof -
  have "current_task s \<in> set ring" "t \<in> set ring" "distinct ring" using ok tasks_okD(7) by (auto simp: turns_ok_def)
  then have d: "distance (current_task s) t ring < length ring" by (intro distance_less)
  then obtain k s' where "0 < k" "k \<le> Suc (distance (current_task s) t ring)" "turns (take k us) s = Some s'" "current_task s' = t"
    using turns_reach [OF ok, of us] turns by auto
  then show ?thesis using d by (intro exI [of _ k] exI [of _ s']) simp
qed

end
