(* ===== verification/Process.thy ===== *)
theory Process
  imports Sched
begin

text \<open>
  Starting tasks: context_switch resumes a task where it left off, and a new or forked task starts at
  its entry point with its own stack, behind its parent in the run queue. Then a state with two tasks,
  on which the properties of the scheduler and of fork are applied.
\<close>

section \<open>Switching stacks\<close>

lemma offset_inj:
  fixes b :: u64
  assumes "b + of_nat j = b + of_nat k" "j < 2 ^ 64" "k < 2 ^ 64"
  shows "j = k"
proof -
  have "(of_nat j :: u64) = of_nat k" using assms(1) by simp
  moreover have "unat (of_nat j :: u64) = j" "unat (of_nat k :: u64) = k" using assms(2,3) by (simp_all add: unat_of_nat)
  ultimately show ?thesis by metis
qed

lemma sub_block: "n + k \<le> l \<Longrightarrow> block (b + of_nat n) k \<subseteq> block b l"
proof
  fix x assume a: "n + k \<le> l" and "x \<in> block (b + of_nat n) k"
  then obtain i where "x = b + of_nat (n + i)" "n + i < l" by (auto simp: block_def algebra_simps)
  then show "x \<in> block b l" unfolding block_def by blast
qed

lemma push_all_spec:
  assumes "8 * length vs < 2 ^ 63"
  shows "\<exists>m'. push_all vs r m = (r - of_nat (8 * length vs), m') \<and>
    (\<forall>a. a \<notin> block (r - of_nat (8 * length vs)) (8 * length vs) \<longrightarrow> m' a = m a) \<and>
    (\<forall>i < length vs. read_u64 m' (r - of_nat (8 * length vs) + of_nat (8 * i)) = rev vs ! i)"
  using assms
proof (induction vs arbitrary: r m)
  case (Cons v us)
  define l where "l = 8 * length us"
  define b where "b = r - of_nat (8 * length (v # us))"
  have b: "r - 8 - of_nat l = b" "r - 8 = b + of_nat l" by (simp_all add: b_def l_def)
  have len: "l < 2 ^ 63" "8 * length (v # us) = l + 8" using Cons.prems by (simp_all add: l_def)
  have l63: "8 * length us < 2 ^ 63" using Cons.prems by simp
  from Cons.IH [OF l63, of "r - 8" "write_u64 (r - 8) v m"] obtain m' where
    m': "push_all us (r - 8) (write_u64 (r - 8) v m) = (b, m')" "\<And>a. a \<notin> block b l \<Longrightarrow> m' a = write_u64 (r - 8) v m a"
    "\<And>i. i < length us \<Longrightarrow> read_u64 m' (b + of_nat (8 * i)) = rev us ! i"
    unfolding l_def [symmetric] b(1) by blast
  have dis: "x \<notin> block b l" if inb: "x \<in> block (b + of_nat l) 8" for x
  proof
    assume "x \<in> block b l"
    then obtain j where j: "x = b + of_nat j" "j < l" by (auto simp: block_def)
    obtain k where k: "x = b + of_nat (l + k)" "k < 8" using inb by (auto simp: block_def algebra_simps)
    have "b + of_nat j = b + of_nat (l + k)" using j k by simp
    then have "j = l + k" by (rule offset_inj) (use j k len in simp_all)
    then show False using j by simp
  qed
  have "m' a = m a" if "a \<notin> block b (l + 8)" for a
  proof -
    have "a \<notin> block b l" "a \<notin> block (b + of_nat l) 8" using that sub_block [of 0 l "l + 8" b] sub_block [of l 8 "l + 8" b] by auto
    then show ?thesis using m'(2) b(2) by (simp add: write_u64_other)
  qed
  moreover have "read_u64 m' (b + of_nat l) = v"
  proof -
    have "read_u64 m' (b + of_nat l) = read_u64 (write_u64 (r - 8) v m) (b + of_nat l)"
    proof (rule read_u64_cong)
      fix k :: nat assume "k < 8"
      then have "b + of_nat l + of_nat k \<in> block (b + of_nat l) 8" by (auto simp: block_def)
      then show "m' (b + of_nat l + of_nat k) = write_u64 (r - 8) v m (b + of_nat l + of_nat k)" using m'(2) dis by blast
    qed
    then show ?thesis using b(2) by simp
  qed
  then have "read_u64 m' (b + of_nat (8 * i)) = rev (v # us) ! i" if "i < length (v # us)" for i
    using that m'(3) [of i] by (cases "i < length us") (auto simp: nth_append l_def less_Suc_eq)
  ultimately show ?case using m'(1) unfolding b_def [symmetric] unfolding len(2) by (intro exI [of _ m']) simp
qed simp

text \<open>The seven words of a saved context, from the stack pointer upwards.\<close>

definition saved :: "mem \<Rightarrow> u64 \<Rightarrow> u64 list" where
  "saved m b = map (\<lambda>i. read_u64 m (b + of_nat (8 * i))) [0..<7]"

lemma saved_cong: "(\<And>a. a \<in> block b 56 \<Longrightarrow> m' a = m a) \<Longrightarrow> saved m' b = saved m b"
  unfolding saved_def
proof (intro map_cong refl read_u64_cong)
  fix i k :: nat assume eq: "\<And>a. a \<in> block b 56 \<Longrightarrow> m' a = m a" and i: "i \<in> set [0..<7]" "k < 8"
  then have "b + of_nat (8 * i) + of_nat k \<in> block (b + of_nat (8 * i)) 8" by (auto simp: block_def)
  moreover have "8 * i + 8 \<le> 56" using i by simp
  ultimately show "m' (b + of_nat (8 * i) + of_nat k) = m (b + of_nat (8 * i) + of_nat k)" using eq sub_block [of "8 * i" 8 56 b] by blast
qed

lemma push_all_saved:
  assumes "length vs = 7" "push_all vs r m = (r', m')"
  shows "r' = r - 56" "saved m' r' = rev vs" "a \<notin> block r' 56 \<Longrightarrow> m' a = m a"
proof -
  have "8 * length vs < 2 ^ 63" using assms(1) by simp
  from push_all_spec [OF this, of r m] assms have P: "r' = r - 56" "\<And>a. a \<notin> block r' 56 \<Longrightarrow> m' a = m a"
    "\<And>i. i < 7 \<Longrightarrow> read_u64 m' (r' + of_nat (8 * i)) = rev vs ! i" by auto
  show "r' = r - 56" "a \<notin> block r' 56 \<Longrightarrow> m' a = m a" by (rule P)+ 
  show "saved m' r' = rev vs" using assms(1) P(3) by (intro nth_equalityI) (simp_all add: saved_def)
qed

text \<open>The registers loaded from a saved context.\<close>

definition restored :: "mem \<Rightarrow> u64 \<Rightarrow> cpu" where
  "restored m b = \<lparr>r_rsp = b + 56, r_rbx = saved m b ! 0, r_rbp = saved m b ! 1, r_r12 = saved m b ! 2, r_r13 = saved m b ! 3,
     r_r14 = saved m b ! 4, r_r15 = saved m b ! 5, r_rip = saved m b ! 6\<rparr>"

lemma context_switch_spec:
  assumes "k_tasks s old = Some x"
  shows "\<exists>m. context_switch old new_rsp s = Some (s\<lparr>k_mem := m, k_tasks := (k_tasks s)(old \<mapsto> x\<lparr>t_rsp := r_rsp (k_cpu s) - 56\<rparr>),
      k_cpu := restored m new_rsp\<rparr>) \<and>
    restored m (r_rsp (k_cpu s) - 56) = k_cpu s \<and> (\<forall>a. a \<notin> block (r_rsp (k_cpu s) - 56) 56 \<longrightarrow> m a = k_mem s a)"
proof -
  let ?c = "k_cpu s"
  let ?vs = "[r_rip ?c, r_r15 ?c, r_r14 ?c, r_r13 ?c, r_r12 ?c, r_rbp ?c, r_rbx ?c]"
  obtain r m where p: "push_all ?vs (r_rsp ?c) (k_mem s) = (r, m)" by fastforce
  have l: "length ?vs = 7" by simp
  note P = push_all_saved [OF l p]
  have sv: "saved m r = rev ?vs" by (rule P(2))
  have "restored m (r_rsp ?c - 56) = ?c" using sv by (simp add: restored_def P(1))
  moreover have "saved m b = [read_u64 m b, read_u64 m (b + 8), read_u64 m (b + 16), read_u64 m (b + 24), read_u64 m (b + 32), read_u64 m (b + 40),
    read_u64 m (b + 48)]" for b by (simp add: saved_def upt_rec)
  then have "context_switch old new_rsp s = Some (s\<lparr>k_mem := m, k_tasks := (k_tasks s)(old \<mapsto> x\<lparr>t_rsp := r_rsp ?c - 56\<rparr>), k_cpu := restored m new_rsp\<rparr>)"
    using assms p P(1) by (simp add: context_switch_def restored_def del: push_all.simps)
  ultimately show ?thesis using P(1,3) by blast
qed

text \<open>A task that was switched away continues where it was. When its saved context is still in
  memory, a later switch to its saved stack pointer restores its stack pointer, its callee-saved
  registers and its return address.\<close>

lemma context_switch_resume:
  assumes away: "context_switch a rsp_b s = Some s1" "k_tasks s1 a = Some x"
    and kept: "\<And>p. p \<in> block (t_rsp x) 56 \<Longrightarrow> k_mem s2 p = k_mem s1 p"
    and again: "context_switch b (t_rsp x) s2 = Some s3"
    and apart: "block (r_rsp (k_cpu s2) - 56) 56 \<inter> block (t_rsp x) 56 = {}"
  shows "k_cpu s3 = k_cpu s"
proof -
  obtain y where y: "k_tasks s a = Some y" using away(1) by (auto simp: context_switch_def mod_task_def Let_def bind_eq_Some_conv)
  obtain w where w: "k_tasks s2 b = Some w" using again by (auto simp: context_switch_def mod_task_def Let_def bind_eq_Some_conv)
  from context_switch_spec [OF y, of rsp_b] away obtain m where m: "k_mem s1 = m" "t_rsp x = r_rsp (k_cpu s) - 56"
    "restored m (r_rsp (k_cpu s) - 56) = k_cpu s" by auto
  from context_switch_spec [OF w, of "t_rsp x"] again obtain m3 where m3: "k_cpu s3 = restored m3 (t_rsp x)"
    "\<forall>p. p \<notin> block (r_rsp (k_cpu s2) - 56) 56 \<longrightarrow> m3 p = k_mem s2 p" by auto
  have "saved m3 (t_rsp x) = saved m (t_rsp x)"
    using m3(2) kept apart m(1) by (intro saved_cong) (metis disjoint_iff)
  then show ?thesis using m(2,3) m3(1) by (simp add: restored_def)
qed

section \<open>New tasks\<close>

lemma task_register_run:
  assumes "k_tasks s t = Some x"
  shows "task_register t s = Some (s\<lparr>k_tasks := (k_tasks s)(t \<mapsto> x\<lparr>t_parent := current_task s, t_all_next := all_tasks s\<rparr>),
    init_task := (if t_pid x = 1 then t else init_task s), all_tasks := t\<rparr>)"
  using assms by (simp add: task_register_def Let_def)

lemma tasks_ok_outside:
  assumes ok: "tasks_ok s ring al zs" and "s' = s\<lparr>k_tasks := m, k_calls := n, next_pid := pd, k_mem := me\<rparr>"
    and "m 0 = None" "\<And>y. y \<in> set al \<Longrightarrow> m y = k_tasks s y"
  shows "tasks_ok s' ring al zs"
  using ok by (rule tasks_ok_states) (use assms tasks_okD(12) [OF ok] tasks_ok_dead [OF ok] in auto)

text \<open>A new task enters the list of all tasks and the run queue.\<close>

lemma task_enter:
  assumes ok: "tasks_ok s ring al zs" and t: "t \<notin> set al" "t \<noteq> 0" "k_tasks s t = Some x"
    and x: "t_state x \<noteq> TASK_DEAD" "t_zombie_next x = 0" "t_pid x = 1 \<Longrightarrow> current_task s = 0" and len: "Suc (length ring) < 2 ^ 32"
    and c: "c = (if current_task s = 0 then run_queue_head s else current_task s)"
  shows "\<exists>s' n. do { s \<leftarrow> task_register t s; sched_add t s } = Some s' \<and> tasks_ok s' (ring_insert c t ring) (t # al) zs \<and>
    k_tasks s' t = Some (x\<lparr>t_parent := current_task s, t_all_next := all_tasks s, t_next := n\<rparr>) \<and> k_mem s' = k_mem s \<and>
    next_pid s' = next_pid s \<and> current_task s' = current_task s \<and> idle_task s' = idle_task s"
proof -
  note D = tasks_okD [OF ok]
  let ?x = "x\<lparr>t_parent := current_task s, t_all_next := all_tasks s\<rparr>"
  define s1 where "s1 = s\<lparr>k_tasks := (k_tasks s)(t \<mapsto> ?x), init_task := (if t_pid x = 1 then t else init_task s), all_tasks := t\<rparr>"
  have nr: "t \<notin> set ring" "t \<notin> set zs" using t(1) D(6) by auto
  have "map_option t_next (k_tasks s1 y) = map_option t_next (k_tasks s y)" if "y \<in> set ring" for y using that nr by (auto simp: s1_def)
  then have r1: "ring_ok s1 ring" using ring_ok_cong [of s1 s ring] D(1) by (simp add: s1_def)
  have k1: "k_tasks s1 t = Some ?x" by (simp add: s1_def)
  have cur: "current_task s1 = 0 \<or> current_task s1 \<in> set ring" using D(12) by (auto simp: s1_def)
  have c1: "c = (if current_task s1 = 0 then run_queue_head s1 else current_task s1)" using c by (simp add: s1_def)
  from sched_add_spec [OF r1 nr(1) t(2) k1 len cur c1] obtain s' where
    s': "sched_add t s1 = Some s'" "ring_ok s' (ring_insert c t ring)" "same_but_next s1 s'" by blast
  obtain m h n where e: "s' = s1\<lparr>k_tasks := m, run_queue_head := h, task_count := n\<rparr>" using s'(3) by (auto simp: same_but_next_def)
  note at = same_but_next_at [OF s'(3)]
  have cr: "c \<in> set ring \<or> ring = []" using c D(12) ring_okD(5) [OF D(1)] by (cases "ring = []") auto
  have ri: "set (ring_insert c t ring) = insert t (set ring)" using ring_insert_set [OF cr D(7) nr(1)] by simp
  obtain nt where nt: "k_tasks s' t = Some (?x\<lparr>t_next := nt\<rparr>)" using at(1) [OF k1] by blast
  have old: "\<exists>n. k_tasks s' y = Some (u\<lparr>t_next := n\<rparr>)" if "y \<in> set al" "k_tasks s y = Some u" for y u
  proof (rule at(1))
    have "y \<noteq> t" using that(1) t(1) by auto
    then show "k_tasks s1 y = Some u" using that(2) by (simp add: s1_def)
  qed
  have mo: "map_option f (k_tasks s' y) = map_option f (k_tasks s y)" if "y \<in> set al" "\<And>u n. f (u\<lparr>t_next := n\<rparr>) = f u" for f :: "task \<Rightarrow> task_ptr" and y
    using D(13) [OF that(1)] old [OF that(1)] that(2) by fastforce
  have "seg (links t_all_next (k_tasks s')) (all_tasks s) al 0 = seg (links t_all_next (k_tasks s)) (all_tasks s) al 0"
    by (intro seg_cong) (simp add: links_def mo)
  then have "all_lst s' (t # al)" using D(2) t nt by (simp add: all_list.lst_def e s1_def links_def)
  moreover have "zombie_lst s' zs" using zombie_list.lst_cong [of s' s zs] D(3,6) mo by (simp add: e s1_def)
  moreover have "k_tasks s' 0 = None" using at(2) [of 0] D(4) t(2) by (simp add: s1_def)
  moreover have "\<exists>u. k_tasks s' y = Some u \<and> task_ok (current_task s') (ring_insert c t ring) zs y u" if y: "y \<in> set (t # al)" for y
  proof (cases "y = t")
    case True
    have "current_task s \<noteq> t" using D(12) nr t(2) by auto
    then show ?thesis using True nt x nr D(12) by (simp add: task_ok_def ri)
  next
    case False
    then obtain u where u: "k_tasks s y = Some u" "task_ok (current_task s) ring zs y u" using D(13) y by auto
    then show ?thesis using old [OF _ u(1)] y False by (fastforce simp: task_ok_def ri e s1_def)
  qed
  moreover have "u = 0" if "k_tasks s' (init_task s') = Some v" "u = t_parent v" for u v
  proof (cases "t_pid x = 1")
    case True
    then show ?thesis using that x(3) nt by (simp add: e s1_def)
  next
    case False
    then have i: "init_task s' = init_task s" by (simp add: e s1_def)
    then have "init_task s \<in> set al" using D(11) that(1) \<open>k_tasks s' 0 = None\<close> by auto
    then show ?thesis using mo [of "init_task s" t_parent] D(13,14) that i by fastforce
  qed
  ultimately have "tasks_ok s' (ring_insert c t ring) (t # al) zs"
    using s'(2) D(5,6,11,12) nr ri by (auto simp: tasks_ok_def e s1_def)
  moreover have "do { s \<leftarrow> task_register t s; sched_add t s } = Some s'" using task_register_run [OF t(3)] s'(1) by (simp add: s1_def)
  ultimately show ?thesis using nt by (auto simp: e s1_def)
qed

lemma build_initial_stack_spec:
  assumes "k_tasks s t = Some x" "top_of = t_stack_base x + TASK_STACK_SIZE"
  shows "\<exists>m. build_initial_stack t ret_target r12 r13 s = Some (s\<lparr>k_mem := m, k_tasks := (k_tasks s)(t \<mapsto> x\<lparr>t_rsp := top_of - 56\<rparr>)\<rparr>) \<and>
    restored m (top_of - 56) = \<lparr>r_rsp = top_of, r_rbx = 0, r_rbp = 0, r_r12 = r12, r_r13 = r13, r_r14 = 0, r_r15 = 0, r_rip = ret_target\<rparr> \<and>
    (\<forall>a. a \<notin> block (top_of - 56) 56 \<longrightarrow> m a = k_mem s a)"
proof -
  let ?vs = "[ret_target, 0, 0, r13, r12, 0, 0]"
  obtain r m where p: "push_all ?vs top_of (k_mem s) = (r, m)" by fastforce
  have l: "length ?vs = 7" by simp
  note P = push_all_saved [OF l p]
  have "restored m (top_of - 56) = \<lparr>r_rsp = top_of, r_rbx = 0, r_rbp = 0, r_r12 = r12, r_r13 = r13, r_r14 = 0, r_r15 = 0, r_rip = ret_target\<rparr>"
    using P(2) by (simp add: restored_def P(1))
  moreover have "build_initial_stack t ret_target r12 r13 s = Some (s\<lparr>k_mem := m, k_tasks := (k_tasks s)(t \<mapsto> x\<lparr>t_rsp := top_of - 56\<rparr>)\<rparr>)"
    using assms p P(1) by (simp add: build_initial_stack_def del: push_all.simps)
  ultimately show ?thesis using P(1,3) by blast
qed

text \<open>The part that all ways to create a task share: the stack is built and the task enters the lists.\<close>

lemma start_task:
  assumes ok: "tasks_ok s ring al zs" and t: "t \<notin> set al" "t \<noteq> 0" "k_tasks s t = Some x"
    and x: "t_state x \<noteq> TASK_DEAD" "t_zombie_next x = 0" "t_pid x = 1 \<Longrightarrow> current_task s = 0" and len: "Suc (length ring) < 2 ^ 32"
    and c: "c = (if current_task s = 0 then run_queue_head s else current_task s)" and top_of: "top_of = t_stack_base x + TASK_STACK_SIZE"
  shows "\<exists>s' n. do { s \<leftarrow> build_initial_stack t ret_target r12 r13 s; s \<leftarrow> task_register t s; sched_add t s } = Some s' \<and>
    tasks_ok s' (ring_insert c t ring) (t # al) zs \<and>
    k_tasks s' t = Some (x\<lparr>t_rsp := top_of - 56, t_parent := current_task s, t_all_next := all_tasks s, t_next := n\<rparr>) \<and>
    restored (k_mem s') (top_of - 56) = \<lparr>r_rsp = top_of, r_rbx = 0, r_rbp = 0, r_r12 = r12, r_r13 = r13, r_r14 = 0, r_r15 = 0, r_rip = ret_target\<rparr> \<and>
    (\<forall>a. a \<notin> block (top_of - 56) 56 \<longrightarrow> k_mem s' a = k_mem s a) \<and>
    next_pid s' = next_pid s \<and> current_task s' = current_task s \<and> idle_task s' = idle_task s"
proof -
  from build_initial_stack_spec [OF t(3) top_of, of ret_target r12 r13] obtain m where
    b: "build_initial_stack t ret_target r12 r13 s = Some (s\<lparr>k_mem := m, k_tasks := (k_tasks s)(t \<mapsto> x\<lparr>t_rsp := top_of - 56\<rparr>)\<rparr>)"
    "restored m (top_of - 56) = \<lparr>r_rsp = top_of, r_rbx = 0, r_rbp = 0, r_r12 = r12, r_r13 = r13, r_r14 = 0, r_r15 = 0, r_rip = ret_target\<rparr>"
    "\<forall>a. a \<notin> block (top_of - 56) 56 \<longrightarrow> m a = k_mem s a" by blast
  define s1 where "s1 = s\<lparr>k_mem := m, k_tasks := (k_tasks s)(t \<mapsto> x\<lparr>t_rsp := top_of - 56\<rparr>)\<rparr>"
  have ok1: "tasks_ok s1 ring al zs"
    by (rule tasks_ok_outside [OF ok, where m = "k_tasks s1" and n = "k_calls s" and pd = "next_pid s" and me = m])
      (use t tasks_okD(4) [OF ok] in \<open>auto simp: s1_def\<close>)
  have k1: "k_tasks s1 t = Some (x\<lparr>t_rsp := top_of - 56\<rparr>)" by (simp add: s1_def)
  have c1: "c = (if current_task s1 = 0 then run_queue_head s1 else current_task s1)" using c by (simp add: s1_def)
  have "\<exists>s' n. do { s \<leftarrow> task_register t s1; sched_add t s } = Some s' \<and> tasks_ok s' (ring_insert c t ring) (t # al) zs \<and>
    k_tasks s' t = Some (x\<lparr>t_rsp := top_of - 56, t_parent := current_task s1, t_all_next := all_tasks s1, t_next := n\<rparr>) \<and> k_mem s' = k_mem s1 \<and>
    next_pid s' = next_pid s1 \<and> current_task s' = current_task s1 \<and> idle_task s' = idle_task s1"
    by (rule task_enter [OF ok1 t(1,2) k1 _ _ _ len c1]) (use x in \<open>simp_all add: s1_def\<close>)
  then obtain s' n where s': "do { s \<leftarrow> task_register t s1; sched_add t s } = Some s'" "tasks_ok s' (ring_insert c t ring) (t # al) zs"
    "k_tasks s' t = Some (x\<lparr>t_rsp := top_of - 56, t_parent := current_task s1, t_all_next := all_tasks s1, t_next := n\<rparr>)" "k_mem s' = k_mem s1"
    "next_pid s' = next_pid s1" "current_task s' = current_task s1" "idle_task s' = idle_task s1" by blast
  show ?thesis by (rule exI [of _ s'], rule exI [of _ n]) (use b s' in \<open>simp add: s1_def\<close>)
qed

lemma start_pair: "do { s \<leftarrow> a; s \<leftarrow> b s; s \<leftarrow> c s; Some (t, s) } = map_option (Pair t) (do { s \<leftarrow> a; s \<leftarrow> b s; c s })"
  by (auto simp: map_option_case split: Option.bind_splits option.splits)

text \<open>task_create makes a task that starts in task_trampoline with its function and argument in the
  registers, on an empty stack of its own; it is a ready child of the current task behind it in the run
  queue, with the next process number. Without memory nothing is added to the lists.\<close>

lemma task_create_correct:
  assumes ok: "tasks_ok s ring al zs" and room: "Suc (length ring) < 2 ^ 32"
    and t: "t = k_heap s (k_calls s)" "t \<notin> set al" and stack: "stack = k_heap s (Suc (k_calls s))"
    and pid: "next_pid s = 1 \<Longrightarrow> current_task s = 0"
  shows "\<exists>r s'. task_create name fn arg s = Some (r, s') \<and>
    (if t = 0 \<or> stack = 0 then r = 0 \<and> tasks_ok s' ring al zs
     else r = t \<and> tasks_ok s' (ring_insert (if current_task s = 0 then run_queue_head s else current_task s) t ring) (t # al) zs \<and>
       next_pid s' = next_pid s + 1 \<and>
       (\<exists>x. k_tasks s' t = Some x \<and> t_pid x = next_pid s \<and> t_state x = TASK_READY \<and> t_parent x = current_task s \<and>
         t_name x = take 31 name \<and> t_cr3 x = vm_cr3 (k_vm s) \<and> \<not> t_user_mode x \<and>
         restored (k_mem s') (t_rsp x) = \<lparr>r_rsp = stack + TASK_STACK_SIZE, r_rbx = 0, r_rbp = 0, r_r12 = fn, r_r13 = arg, r_r14 = 0, r_r15 = 0,
           r_rip = sym_task_trampoline (k_syms s)\<rparr>))"
proof -
  note D = tasks_okD [OF ok]
  let ?s1 = "s\<lparr>k_calls := Suc (k_calls s)\<rparr>"
  have alloc: "kzalloc_task s = (t, if t = 0 then ?s1 else ?s1\<lparr>k_tasks := (k_tasks s)(t \<mapsto> task_zero)\<rparr>)"
    by (simp add: kzalloc_task_def kmalloc_next_def t(1))
  show ?thesis
  proof (cases "t = 0 \<or> stack = 0")
    case True
    let ?n = "if t = 0 then Suc (k_calls s) else Suc (Suc (k_calls s))"
    define s' where "s' = s\<lparr>k_tasks := (if t = 0 then k_tasks s else (k_tasks s)(t := None)), k_calls := ?n\<rparr>"
    have "task_create name fn arg s = Some (0, s')"
      using True alloc stack by (auto simp: task_create_def kmalloc_next_def kfree_task_def s'_def)
    moreover have "tasks_ok s' ring al zs"
      by (rule tasks_ok_outside [OF ok, where m = "k_tasks s'" and n = ?n and pd = "next_pid s" and me = "k_mem s"])
        (use t D(4) in \<open>auto simp: s'_def\<close>)
    ultimately show ?thesis using True by auto
  next
    case False
    let ?x = "task_zero\<lparr>t_stack_base := stack, t_pid := next_pid s, t_state := TASK_READY, t_cwd := ''/'',
      t_name := take (TASK_NAME_MAX - 1) name, t_cr3 := vm_cr3 (k_vm s)\<rparr>"
    define s1 where "s1 = s\<lparr>k_calls := Suc (Suc (k_calls s)), k_tasks := (k_tasks s)(t \<mapsto> ?x), next_pid := next_pid s + 1\<rparr>"
    let ?start = "\<lambda>s. do { s \<leftarrow> build_initial_stack t (sym_task_trampoline (k_syms s)) fn arg s; s \<leftarrow> task_register t s; sched_add t s }"
    have run: "task_create name fn arg s = map_option (Pair t) (?start s1)"
      using False alloc stack by (simp add: task_create_def kmalloc_next_def s1_def start_pair)
    have ok1: "tasks_ok s1 ring al zs"
      by (rule tasks_ok_outside [OF ok, where m = "k_tasks s1" and n = "k_calls s1" and pd = "next_pid s1" and me = "k_mem s"])
        (use False t D(4) in \<open>auto simp: s1_def\<close>)
    have k1: "k_tasks s1 t = Some ?x" by (simp add: s1_def)
    let ?c = "if current_task s1 = 0 then run_queue_head s1 else current_task s1"
    have "t_state ?x \<noteq> TASK_DEAD" "t_zombie_next ?x = 0" "t_pid ?x = 1 \<Longrightarrow> current_task s1 = 0" "t \<noteq> 0"
      using pid False by (simp_all add: task_zero_def s1_def)
    from start_task [OF ok1 t(2) this(4) k1 this(1-3) room refl refl, of "sym_task_trampoline (k_syms s1)" fn arg]
    obtain s' n where s': "?start s1 = Some s'" "tasks_ok s' (ring_insert ?c t ring) (t # al) zs"
      "k_tasks s' t = Some (?x\<lparr>t_rsp := t_stack_base ?x + TASK_STACK_SIZE - 56, t_parent := current_task s1, t_all_next := all_tasks s1, t_next := n\<rparr>)"
      "restored (k_mem s') (t_stack_base ?x + TASK_STACK_SIZE - 56) = \<lparr>r_rsp = t_stack_base ?x + TASK_STACK_SIZE, r_rbx = 0, r_rbp = 0, r_r12 = fn,
        r_r13 = arg, r_r14 = 0, r_r15 = 0, r_rip = sym_task_trampoline (k_syms s1)\<rparr>" "next_pid s' = next_pid s1" by blast
    have cc: "?c = (if current_task s = 0 then run_queue_head s else current_task s)" by (simp add: s1_def)
    show ?thesis using False run s'(1,3-5) s'(2) [unfolded cc] by (simp add: s1_def task_zero_def TASK_NAME_MAX_def)
  qed
qed

section \<open>fork\<close>

lemma blocks_disjoint:
  assumes "x \<in> block (b + of_nat n) k" "x \<in> block (b + of_nat n') k'" "n + k \<le> n'" "n' + k' < 2 ^ 63"
  shows False
proof -
  obtain i where i: "x = b + of_nat (n + i)" "i < k" using assms(1) by (auto simp: block_def algebra_simps)
  obtain j where j: "x = b + of_nat (n' + j)" "j < k'" using assms(2) by (auto simp: block_def algebra_simps)
  have "b + of_nat (n + i) = b + of_nat (n' + j)" using i(1) j(1) by simp
  then have "n + i = n' + j" by (rule offset_inj) (use i j assms(3,4) in simp_all)
  then show False using i j assms(3) by simp
qed

lemma write_words_other:
  assumes "a \<notin> block b (8 * length ws)"
  shows "write_words b ws m a = m a"
  using assms
proof (induction ws arbitrary: b m)
  case (Cons w ws)
  have "a \<notin> block (b + of_nat 8) (8 * length ws)" "a \<notin> block b 8"
    using Cons.prems sub_block [of 8 "8 * length ws" "8 * length (w # ws)" b] sub_block [of 0 8 "8 * length (w # ws)" b] by auto
  then show ?case using Cons.IH [of "b + 8"] by (simp add: write_u64_other)
qed simp

lemma write_words_read:
  assumes "8 * length ws < 2 ^ 62" "i < length ws"
  shows "read_u64 (write_words b ws m) (b + of_nat (8 * i)) = ws ! i"
  using assms
proof (induction ws arbitrary: b m i)
  case (Cons w ws)
  show ?case
  proof (cases i)
    case 0
    have "read_u64 (write_words (b + 8) ws (write_u64 b w m)) b = read_u64 (write_u64 b w m) b"
    proof (rule read_u64_cong)
      fix k :: nat assume "k < 8"
      then have "b + of_nat k \<in> block (b + of_nat 0) 8" by (auto simp: block_def)
      then have "b + of_nat k \<notin> block (b + of_nat 8) (8 * length ws)"
        using blocks_disjoint [of "b + of_nat k" b 0 8 8 "8 * length ws"] Cons.prems(1) by fastforce
      then show "write_words (b + 8) ws (write_u64 b w m) (b + of_nat k) = write_u64 b w m (b + of_nat k)"
        by (intro write_words_other) simp
    qed
    then show ?thesis using 0 by simp
  next
    case (Suc j)
    have "b + of_nat (8 * i) = b + 8 + of_nat (8 * j)" using Suc by simp
    then show ?thesis using Cons.IH [of j "b + 8" "write_u64 b w m"] Cons.prems Suc by (simp add: add.assoc)
  qed
qed simp

text \<open>C7: fork gives the caller the process number of a new task and the new task the result 0: the child
  is a ready child of the caller behind it in the run queue, with the cloned address space and the
  caller's files, directory, name and heap. It starts in fork_return_to_user, whose argument points to
  a copy of the system call frame that differs in the register rax only. When a part of its memory is
  missing, the result is -ENOMEM and the lists are as before.\<close>

theorem task_fork_correct:
  assumes ok: "tasks_ok s ring al zs" and room: "Suc (length ring) < 2 ^ 32"
    and c: "c = current_task s" "c \<noteq> 0" "k_tasks s c = Some x" "t_user_mode x"
    and t: "t = k_heap s (k_calls s)" "t \<notin> set al" and stack: "stack = k_heap s (Suc (k_calls s))"
    and pid: "next_pid s \<noteq> 1" and clone: "vmm_clone_user_address_space (t_cr3 x) (k_vm s) = Some (pml4, vm)"
  shows "\<exists>r s'. task_fork_from_frame frame s = Some (r, s') \<and>
    (if t = 0 \<or> stack = 0 \<or> pml4 = 0 then r = - ENOMEM \<and> tasks_ok s' ring al zs
     else r = uint (next_pid s) \<and> next_pid s' = next_pid s + 1 \<and> tasks_ok s' (ring_insert c t ring) (t # al) zs \<and>
       (\<exists>y f. k_tasks s' t = Some y \<and> t_pid y = next_pid s \<and> t_state y = TASK_READY \<and> t_parent y = c \<and> t_cr3 y = pml4 \<and> t_user_mode y \<and>
         t_files y = t_files x \<and> t_cwd y = take 255 (t_cwd x) \<and> t_name y = take 31 (t_name x) \<and>
         t_brk_base y = t_brk_base x \<and> t_brk_current y = t_brk_current x \<and> t_mmap_next y = t_mmap_next x \<and>
         r_rip (restored (k_mem s') (t_rsp y)) = sym_fork_return_to_user (k_syms s) \<and> r_r12 (restored (k_mem s') (t_rsp y)) = f \<and>
         map (\<lambda>i. read_u64 (k_mem s') (f + of_nat (8 * i))) [0..<18] = frame_words (frame\<lparr>f_rax := 0\<rparr>)))"
proof -
  note D = tasks_okD [OF ok]
  have alloc: "kzalloc_task s = (t, if t = 0 then s\<lparr>k_calls := Suc (k_calls s)\<rparr>
      else s\<lparr>k_calls := Suc (k_calls s), k_tasks := (k_tasks s)(t \<mapsto> task_zero)\<rparr>)"
    by (simp add: kzalloc_task_def kmalloc_next_def t(1))
  have ct: "c \<noteq> t" using c(1,2) D(6,12) t(2) by auto
  show ?thesis
  proof (cases "t = 0 \<or> stack = 0 \<or> pml4 = 0")
    case True
    let ?n = "if t = 0 then Suc (k_calls s) else Suc (Suc (k_calls s))"
    define s' where "s' = s\<lparr>k_tasks := (if t = 0 then k_tasks s else (k_tasks s)(t := None)), k_calls := ?n,
      k_vm := (if t = 0 \<or> stack = 0 then k_vm s else vm)\<rparr>"
    have "task_fork_from_frame frame s = Some (- ENOMEM, s')"
      using True alloc stack c clone by (auto simp: task_fork_from_frame_def kmalloc_next_def kfree_task_def s'_def)
    moreover have "tasks_ok s' ring al zs"
      using ok by (rule tasks_ok_states) (use t D(4,12) tasks_ok_dead [OF ok] in \<open>auto simp: s'_def\<close>)
    ultimately show ?thesis using True by auto
  next
    case False
    define f where "f = stack + TASK_STACK_SIZE - 512"
    let ?ws = "frame_words (frame\<lparr>f_rax := 0\<rparr>)"
    let ?y = "task_zero\<lparr>t_stack_base := stack, t_pid := next_pid s, t_state := TASK_READY, t_cr3 := pml4,
      t_user_mode := True, t_user_entry := t_user_entry x, t_user_stack_top := t_user_stack_top x,
      t_brk_base := t_brk_base x, t_brk_current := t_brk_current x, t_mmap_next := t_mmap_next x,
      t_cwd := take (VFS_MAX_PATH - 1) (t_cwd x), t_files := t_files x, t_name := take (TASK_NAME_MAX - 1) (t_name x)\<rparr>"
    define s1 where "s1 = s\<lparr>k_calls := Suc (Suc (k_calls s)), k_vm := vm, k_mem := write_words f ?ws (k_mem s),
      k_tasks := (k_tasks s)(t \<mapsto> ?y), next_pid := next_pid s + 1\<rparr>"
    let ?start = "\<lambda>s. do { s \<leftarrow> build_initial_stack t (sym_fork_return_to_user (k_syms s)) f 0 s; s \<leftarrow> task_register t s; sched_add t s }"
    have run: "task_fork_from_frame frame s = map_option (Pair (uint (next_pid s))) (?start s1)"
      using False alloc stack c clone ct
      by (simp add: task_fork_from_frame_def kmalloc_next_def s1_def f_def start_pair Let_def)
    have ok1: "tasks_ok s1 ring al zs"
      using ok by (rule tasks_ok_states) (use False t D(4,12) tasks_ok_dead [OF ok] in \<open>auto simp: s1_def\<close>)
    have k1: "k_tasks s1 t = Some ?y" by (simp add: s1_def)
    have cc: "c = (if current_task s1 = 0 then run_queue_head s1 else current_task s1)" using c(1,2) by (simp add: s1_def)
    have "t_state ?y \<noteq> TASK_DEAD" "t_zombie_next ?y = 0" "t_pid ?y = 1 \<Longrightarrow> current_task s1 = 0" "t \<noteq> 0"
      using pid False by (simp_all add: task_zero_def s1_def)
    from start_task [OF ok1 t(2) this(4) k1 this(1-3) room cc refl, of "sym_fork_return_to_user (k_syms s1)" f 0]
    obtain s' n where s': "?start s1 = Some s'" "tasks_ok s' (ring_insert c t ring) (t # al) zs"
      "k_tasks s' t = Some (?y\<lparr>t_rsp := t_stack_base ?y + TASK_STACK_SIZE - 56, t_parent := current_task s1, t_all_next := all_tasks s1, t_next := n\<rparr>)"
      "restored (k_mem s') (t_stack_base ?y + TASK_STACK_SIZE - 56) = \<lparr>r_rsp = t_stack_base ?y + TASK_STACK_SIZE, r_rbx = 0, r_rbp = 0, r_r12 = f,
        r_r13 = 0, r_r14 = 0, r_r15 = 0, r_rip = sym_fork_return_to_user (k_syms s1)\<rparr>"
      "\<forall>a. a \<notin> block (t_stack_base ?y + TASK_STACK_SIZE - 56) 56 \<longrightarrow> k_mem s' a = k_mem s1 a" "next_pid s' = next_pid s1" by blast
    have l: "length ?ws = 18" by (simp add: frame_words_def)
    have "read_u64 (k_mem s') (f + of_nat (8 * i)) = ?ws ! i" if i: "i < 18" for i
    proof -
      have "read_u64 (k_mem s') (f + of_nat (8 * i)) = read_u64 (k_mem s1) (f + of_nat (8 * i))"
      proof (rule read_u64_cong)
        have n: "8 * i + 8 \<le> 456" "(456 :: nat) + 56 < 2 ^ 63" using i by simp_all
        fix k :: nat assume "k < 8"
        then have "f + of_nat (8 * i) + of_nat k \<in> block (f + of_nat (8 * i)) 8" by (auto simp: block_def)
        moreover have "stack + TASK_STACK_SIZE - 56 = f + of_nat 456" by (simp add: f_def)
        ultimately have "f + of_nat (8 * i) + of_nat k \<notin> block (stack + TASK_STACK_SIZE - 56) 56"
          using blocks_disjoint [OF _ _ n] by metis
        then show "k_mem s' (f + of_nat (8 * i) + of_nat k) = k_mem s1 (f + of_nat (8 * i) + of_nat k)" using s'(5) by simp
      qed
      also have "\<dots> = ?ws ! i" using write_words_read [of ?ws i f] i l by (simp add: s1_def)
      finally show ?thesis .
    qed
    then have "map (\<lambda>i. read_u64 (k_mem s') (f + of_nat (8 * i))) [0..<18] = ?ws" using l by (intro nth_equalityI) simp_all
    then show ?thesis using False run s'(1-4,6) c(1)
      by (simp add: s1_def task_zero_def TASK_NAME_MAX_def VFS_MAX_PATH_def)
  qed
qed

section \<open>Sample states\<close>

text \<open>Two tasks: the idle task, with pid 1, and a user task in the state \<open>st\<close>, which is the current one.\<close>

definition idle_sample :: task where
  "idle_sample = task_zero\<lparr>t_pid := 1, t_next := 0xB000\<rparr>"

definition user_sample :: "task_state \<Rightarrow> task" where
  "user_sample st = task_zero\<lparr>t_pid := 2, t_state := st, t_cr3 := 0x1000, t_user_mode := True, t_name := ''sh'', t_cwd := ''/'',
     t_parent := 0xA000, t_all_next := 0xA000, t_next := 0xA000\<rparr>"

definition k_sample :: "task_state \<Rightarrow> kstate" where
  "k_sample st = \<lparr>k_vm = clone_sample, k_mem = (\<lambda>_. 0), k_heap = (\<lambda>n. if n = 0 then 0xC000 else 0xE000), k_calls = 0,
     k_syms = \<lparr>sym_task_trampoline = 1, sym_user_mode_enter = 2, sym_fork_return_to_user = 3, sym_idle_fn = 4\<rparr>,
     k_cpu = \<lparr>r_rsp = 0x9000, r_rbx = 0, r_rbp = 0, r_r12 = 0, r_r13 = 0, r_r14 = 0, r_r15 = 0, r_rip = 5\<rparr>,
     k_if = False, k_tss_rsp0 = 0, syscall_kernel_stack_top = 0,
     k_tasks = [0xA000 \<mapsto> idle_sample, 0xB000 \<mapsto> user_sample st],
     current_task = 0xB000, next_pid = 3, all_tasks = 0xB000, zombie_tasks = 0, init_task = 0xA000,
     run_queue_head = 0xA000, task_count = 2, idle_task = 0xA000\<rparr>"

lemma k_sample_ok: "tasks_ok (k_sample st) [0xA000, 0xB000] [0xB000, 0xA000] []" "idle_ok (k_sample st) [0xA000, 0xB000]"
  "k_tasks (k_sample st) 0xB000 = Some (user_sample st)" "current_task (k_sample st) = 0xB000"
  by (auto simp: tasks_ok_def idle_ok_def ring_ok_def all_list.lst_def zombie_list.lst_def task_ok_def links_def k_sample_def
      idle_sample_def user_sample_def task_zero_def runnable_def)

lemma k_sample_next: "round_robin (k_sample TASK_RUNNING) 0xB000 [0xA000, 0xB000] = 0xA000"
  by (simp add: round_robin_def from_after_def k_sample_def idle_sample_def user_sample_def task_zero_def runnable_def)

theorem schedule_correct_witness:
  "(\<exists>s'. schedule (k_sample TASK_RUNNING) = Some s' \<and> current_task s' = 0xA000) \<and>
   (\<exists>s'. schedule (k_sample TASK_DEAD) = Some s' \<and> current_task s' = 0xA000 \<and>
      tasks_ok s' [0xA000] [0xB000, 0xA000] [0xB000])"
proof
  show "\<exists>s'. schedule (k_sample TASK_RUNNING) = Some s' \<and> current_task s' = 0xA000"
    using schedule_correct [OF k_sample_ok(1,2) k_sample_ok(4) [symmetric] _ k_sample_ok(3) refl refl, of TASK_RUNNING] k_sample_next
    by (auto simp: user_sample_def task_zero_def)
  show "\<exists>s'. schedule (k_sample TASK_DEAD) = Some s' \<and> current_task s' = 0xA000 \<and> tasks_ok s' [0xA000] [0xB000, 0xA000] [0xB000]"
    using schedule_correct [OF k_sample_ok(1,2) k_sample_ok(4) [symmetric] _ k_sample_ok(3) refl refl, of TASK_DEAD]
    by (auto simp: user_sample_def task_zero_def)
qed

theorem round_robin_fair_witness:
  "\<exists>k s'. k \<le> 2 \<and> turns (replicate k (k_cpu (k_sample TASK_RUNNING), \<lambda>_. 7, clone_sample, True)) (k_sample TASK_RUNNING) = Some s' \<and>
     current_task s' = 0xA000"
proof -
  let ?u = "(k_cpu (k_sample TASK_RUNNING), \<lambda>_. 7, clone_sample, True)"
  have "turns_ok 0xA000 [0xA000, 0xB000] [0xB000, 0xA000] [] (k_sample TASK_RUNNING)"
    using k_sample_ok(1,2) [of TASK_RUNNING]
    by (simp add: turns_ok_def k_sample_ok(3,4)) (simp add: k_sample_def idle_sample_def user_sample_def task_zero_def runnable_def)
  from round_robin_fair [OF this, of "replicate 2 ?u"] obtain k s' where
    k: "k \<le> 2" "turns (take k (replicate 2 ?u)) (k_sample TASK_RUNNING) = Some s'" "current_task s' = 0xA000" by (auto simp: numeral_2_eq_2)
  moreover have "take k (replicate 2 ?u) = replicate k ?u" using k(1) by (simp add: min_def)
  ultimately show ?thesis by auto
qed

definition frame_sample :: syscall_frame where
  "frame_sample = \<lparr>f_r15 = 1, f_r14 = 2, f_r13 = 3, f_r12 = 4, f_r11 = 5, f_r10 = 6, f_r9 = 7, f_r8 = 8, f_rbp = 9, f_rdi = 10, f_rsi = 11,
     f_rdx = 12, f_rcx = 13, f_rbx = 14, f_rax = 57, f_user_rip = 16, f_user_rflags = 17, f_user_rsp = 18\<rparr>"

theorem task_fork_correct_witness:
  "\<exists>s' y. task_fork_from_frame frame_sample (k_sample TASK_RUNNING) = Some (3, s') \<and> k_tasks s' 0xC000 = Some y \<and>
     t_parent y = 0xB000 \<and> t_state y = TASK_READY \<and> t_name y = ''sh'' \<and> t_cr3 y \<noteq> 0"
proof -
  obtain D vm where c: "vmm_clone_user_address_space 0x1000 clone_sample = Some (D, vm)" "D \<noteq> 0"
    using clone_result [OF clone_sample_ok(1) clone_sample_ok(2) [symmetric] clone_sample_ok(3,4)] by blast
  have f: "k_heap (k_sample TASK_RUNNING) (k_calls (k_sample TASK_RUNNING)) = 0xC000" "k_heap (k_sample TASK_RUNNING) (Suc (k_calls (k_sample TASK_RUNNING))) = 0xE000"
    "k_vm (k_sample TASK_RUNNING) = clone_sample" "next_pid (k_sample TASK_RUNNING) = 3" "t_cr3 (user_sample TASK_RUNNING) = 0x1000"
    "t_user_mode (user_sample TASK_RUNNING)" "t_name (user_sample TASK_RUNNING) = ''sh''"
    by (simp_all add: k_sample_def user_sample_def task_zero_def)
  show ?thesis
    using task_fork_correct [OF k_sample_ok(1) _ k_sample_ok(4) [symmetric] _ k_sample_ok(3) f(6) f(1) [symmetric] _ f(2) [symmetric],
        of D vm frame_sample] c
    by (auto simp: f(3-7))
qed

end
