(* ===== verification/Spec2Isabelle.thy ===== *)
theory Spec2Isabelle
  imports Pmm_Boot Kbd Kstring Console Path Process
begin

text \<open>
  Verification of the lithium kernel, a 64-bit x86 kernel in C.

  \<^bold>\<open>The program.\<close> kmain initialises the components in order. The frame allocator (pmm.c) reads the boot
  loader's memory map and hands out 4 KiB frames with reference counts. The memory manager (vmm.c) builds
  page tables from such frames, clones address spaces copy-on-write and resolves the page faults that the
  interrupt dispatcher (idt.c) passes on. The file system (vfs.c) is a tree of vnodes with a tmpfs. The
  loader (elf.c) maps an executable into a new address space; tasks (task.c) are created from it, forked,
  replaced and reaped, and the scheduler (sched.c) switches between them cooperatively. Console output
  goes to a text screen and a serial port; characters come from a keyboard driver.

  \<^bold>\<open>Conventions.\<close> C integers are words of their width and C arithmetic is word arithmetic, with its
  wrap-around. Memory is a function from addresses to bytes. State is passed explicitly. The outer result
  \<open>None\<close> is a kernel that does not go on: a panic, an access the language does not define, or a loop that
  does not end. Loops are recursive functions with a termination proof where they always end, and
  \<open>partial_function\<close> where they may not; there is no fuel. That such a loop returns is then part of the
  statement (\<open>\<exists>s'. f s = Some s'\<close>).

  \<^bold>\<open>Theories and sources.\<close>
  \<^item> \<open>Prelude\<close>: include/kernel.h, the integer types, reads and writes of words in byte memory, lemmas on words.
  \<^item> \<open>Frame_Alloc\<close>: the interface of a reference-counting frame allocator, a locale with its client lemmas.
  \<^item> \<open>Pmm\<close>, \<open>Pmm_Boot\<close>: kernel/mm/pmm.c with include/multiboot2.h and arch/x86_64/boot/pvh.h. \<open>Pmm\<close> has the
    definitions and interprets the interface; \<open>Pmm_Boot\<close> has runs of frames, the self-test, both memory-map
    parsers and the states reachable from pmm_init. RAM is specified without the code's arithmetic
    (\<open>ram_frame\<close>); exactness needs page-aligned RAM entries (\<open>page_aligned_map\<close>), because the code rounds
    the base of an entry down.
  \<^item> \<open>Vmm\<close>, \<open>Paging\<close>, \<open>Address_Space\<close>, \<open>Clone\<close>: kernel/mm/vmm.c. \<open>Vmm\<close> has all definitions. The tables under a
    root are a tree of paths (\<open>walk\<close>, \<open>leaf\<close>) with the invariant \<open>space_ok\<close>; every operation is described by what
    it does to the leaves. \<open>Clone\<close> is vmm_clone_user_address_space.
  \<^item> \<open>Elf\<close>: kernel/proc/elf.c. What one page of a segment becomes, that reads stay inside the image, and that
    the loader returns and leaves the kernel's part alone for segments above the first GiB; a segment below
    replaces kernel pages, which is shown as well.
  \<^item> \<open>Task\<close>, \<open>Sched\<close>, \<open>Process\<close>: kernel/sched/task.c, kernel/sched/sched.c and context_switch of
    arch/x86_64/cpu/context.asm. \<open>Task\<close> has all definitions and the linked lists behind a locale; \<open>Sched\<close> the
    run queue, the invariant of the three lists (\<open>tasks_ok\<close>), schedule and the fairness of the round robin;
    \<open>Process\<close> the context switch, creation and fork.
  \<^item> \<open>Vfs\<close>, \<open>Vfs_Tree\<close>: kernel/fs/vfs.c, with the block sizes of kernel/mm/heap.c. The vnodes form a tree, so that
    the file system is a map from paths to contents (\<open>tree\<close>), which the operations update.
  \<^item> \<open>Path\<close>: the path resolution of kernel/syscall/syscall.c, against a stack of names.
  \<^item> \<open>Ports\<close>, \<open>Irq\<close>: include/io.h and arch/x86_64/cpu/idt.c; a device is a function of the port and the number of
    reads before. \<open>Irq\<close> has the gates, the interrupt controllers and the dispatcher.
  \<^item> \<open>Queue\<close>, \<open>Kbd\<close>: drivers/char/ps2kbd.c. The ring buffer implements a bounded queue (locale in \<open>Queue\<close>), and the
    scancode decoder a reference keyboard.
  \<^item> \<open>Console\<close>: drivers/char/vga.c, drivers/char/serial.c and lib/kprintf.c. A format is the memory from its
    pointer on, with the terminator in it.
  \<^item> \<open>Kstring\<close>: lib/string.c over byte memory.

  \<^bold>\<open>What is shown.\<close> For the allocator: each operation fails exactly when it has to, and no reachable state
  hands out anything but RAM. For address spaces: mapping, unmapping, creation, cloning and the
  copy-on-write fault change exactly the translations and references they should. For the loader: the
  pages of a program are its bytes with its rights. For tasks: schedule picks the right task and keeps the
  lists well formed, no runnable task is passed over for longer than one round, and a forked child starts
  as a copy of its parent. For files: the operations refine the map from paths, and reading returns
  what was written. For the drivers and the library: functional behaviour and bounds.

  \<^bold>\<open>Abstractions to know of.\<close> Physical frames are read and written by their physical address; the code
  does so through the identity mapping, which covers the first GiB. The task records, the kernel stacks,
  the page tables with the user pages, and the vnodes are separate parts of the state. The heap answers
  requests by a sequence in the state: addresses for tasks and stacks, blocks with the length kmalloc gives
  them for file contents. An ELF image is a function of its own. Saving and restoring the interrupt flag and
  all log output are left out, except in schedule, where the flag is a field.

  \<^bold>\<open>Not modelled.\<close> The slab lists of heap.c, which live in mapped kernel pages; the system call handlers and
  their copies between user and kernel memory; the timer, power management, the kernel shell, panic
  output and kmain, which are input and output or sequences of calls; the boot code, descriptor tables and
  interrupt stubs, which run before or below the C code; the user programs and the tests.
\<close>

section \<open>A page fault as the interrupt dispatcher sees it\<close>

text \<open>Interrupt 14 with a write to a copy-on-write page returns, with a page of its own for the writer and
  nothing else changed in the kernel or at the interrupt controllers; every other page fault, and one that
  finds no frame for a shared page, stops the kernel.\<close>

lemma page_fault_interrupt:
  assumes ok: "space_ok vm root" and cur: "root = vmm_current_pml4 vm" and vec: "vector frame = 14"
    and owned: "cow_write cr2 (error_code frame) vm \<Longrightarrow> 0 < frame_refs (vm_pmm vm) (page_frame cr2 vm) \<and>
      page_frame cr2 vm \<notin> insert 0 (tables (vm_mem vm) root)"
  shows "if \<not> cow_write cr2 (error_code frame) vm \<or>
        1 < frame_refs (vm_pmm vm) (page_frame cr2 vm) \<and> avail_frames (vm_pmm vm) = {}
    then isr_handler cr2 frame hs ((vm, k), io) = None
    else \<exists>f vm'. isr_handler cr2 frame hs ((vm, k), io) = Some ((vm', k), io) \<and> space_ok vm' root \<and>
      pte_has (vmm_get_flags root cr2 vm') VMM_WRITE \<and> frame_refs (vm_pmm vm') f = 1 \<and>
      (\<forall>w. vmm_get_physical root w vm' = (if vpn w = vpn cr2 then f OR w AND 0xFFF else vmm_get_physical root w vm))"
proof -
  note F = page_fault_effect [OF ok cur, of cr2 "error_code frame", OF owned]
  have run: "isr_handler cr2 frame hs ((vm, k), io) = do {
      (handled, vm) \<leftarrow> vmm_handle_page_fault cr2 (error_code frame) vm;
      if handled then Some ((vm, k), io) else None }"
    using vec by (simp add: isr_handler_def)
  show ?thesis
  proof (cases "\<not> cow_write cr2 (error_code frame) vm \<or>
      1 < frame_refs (vm_pmm vm) (page_frame cr2 vm) \<and> avail_frames (vm_pmm vm) = {}")
    case True
    then have "vmm_handle_page_fault cr2 (error_code frame) vm = Some (False, vm)" using F by simp
    then show ?thesis using True unfolding run by (simp only: if_True) simp
  next
    case False
    from F obtain f vm' where "vmm_handle_page_fault cr2 (error_code frame) vm = Some (True, vm')" "space_ok vm' root"
      "pte_has (vmm_get_flags root cr2 vm') VMM_WRITE" "frame_refs (vm_pmm vm') f = 1"
      "\<forall>w. vmm_get_physical root w vm' = (if vpn w = vpn cr2 then f OR w AND 0xFFF else vmm_get_physical root w vm)"
      unfolding if_not_P [OF False] by (elim exE conjE meta_impE) blast+
    then show ?thesis unfolding run if_not_P [OF False] by (intro exI [of _ f] exI [of _ vm']) simp
  qed
qed

end
